(* ===== verification/Prelude.thy ===== *)
theory Prelude
  imports Main "HOL-Library.Word"
begin

unbundle bit_operations_syntax

section \<open>Shared vocabulary of the xv6 development\<close>

text \<open>
  What every component theory uses: the outcome type of kernel operations, the wait channels
  that \<^verbatim>\<open>sleep\<close> and \<^verbatim>\<open>wakeup\<close> name, the table scan that most kernel routines start with,
  access to a part of a larger state, and byte-addressed memory with 32-bit loads and stores.

  A kernel operation takes the state and ends in one of four ways: it returns a value and a
  state, it calls \<^verbatim>\<open>panic\<close> (which never returns), the running thread goes to sleep on a channel
  (\<open>Block c s\<close>, where \<open>s\<close> is the state in which the thread has given up the processor), or it
  runs forever (\<open>Diverge\<close>).
\<close>

type_synonym addr = "32 word"
type_synonym byte = "8 word"
type_synonym memory = "addr \<Rightarrow> byte"

subsection \<open>Wait channels\<close>

text \<open>
  \<^verbatim>\<open>sleep\<close> and \<^verbatim>\<open>wakeup\<close> compare channels as \<^verbatim>\<open>void*\<close>. The kernel uses the addresses of
  distinct objects, so a channel is named by the object whose address is used.
\<close>

datatype chan =
    NoChan
  | ProcChan nat              \<comment> \<open>\<^verbatim>\<open>&ptable.proc[i]\<close>\<close>
  | ThreadChan nat nat        \<comment> \<open>\<^verbatim>\<open>&ptable.proc[i].threads[j]\<close>\<close>
  | MutexChan nat             \<comment> \<open>\<^verbatim>\<open>&mtable.mutex[k]\<close>\<close>
  | BufChan nat               \<comment> \<open>\<^verbatim>\<open>&bcache.buf[i]\<close>\<close>
  | BufLockChan nat           \<comment> \<open>\<^verbatim>\<open>&bcache.buf[i].lock\<close>\<close>
  | InodeLockChan nat         \<comment> \<open>\<^verbatim>\<open>&icache.inode[i].lock\<close>\<close>
  | LogChan                   \<comment> \<open>\<^verbatim>\<open>&log\<close>\<close>
  | PipeReadChan addr         \<comment> \<open>\<^verbatim>\<open>&p->nread\<close>\<close>
  | PipeWriteChan addr        \<comment> \<open>\<^verbatim>\<open>&p->nwrite\<close>\<close>
  | TicksChan                 \<comment> \<open>\<^verbatim>\<open>&ticks\<close>\<close>
  | InputChan                 \<comment> \<open>\<^verbatim>\<open>&input.r\<close>\<close>

subsection \<open>Outcomes of kernel operations\<close>

datatype ('a, 's) res =
    Ret 'a 's
  | Panic string
  | Block chan 's
  | Diverge

fun rbind :: "('a, 's) res \<Rightarrow> ('a \<Rightarrow> 's \<Rightarrow> ('b, 's) res) \<Rightarrow> ('b, 's) res" where
  "rbind (Ret x s) f = f x s"
| "rbind (Panic m) f = Panic m"
| "rbind (Block c s) f = Block c s"
| "rbind Diverge f = Diverge"

lemma rbind_cong [fundef_cong]:
  assumes "m = m'" and "\<And>x s. m' = Ret x s \<Longrightarrow> f x s = g x s"
  shows "rbind m f = rbind m' g"
  using assms by (cases m') auto

lemma rbind_eq_Ret [simp]:
  "rbind m f = Ret y s' \<longleftrightarrow> (\<exists>x s. m = Ret x s \<and> f x s = Ret y s')"
  by (cases m) auto

lemma rbind_assoc: "rbind (rbind m f) g = rbind m (\<lambda>x s. rbind (f x s) g)"
  by (cases m) auto

lemma rbind_Ret_right [simp]: "rbind m Ret = m"
  by (cases m) auto

text \<open>\<^verbatim>\<open>for\<close> loops whose body may panic, over the list of the values of the loop variable.\<close>

fun for_each :: "('i \<Rightarrow> 's \<Rightarrow> (unit, 's) res) \<Rightarrow> 'i list \<Rightarrow> 's \<Rightarrow> (unit, 's) res" where
  "for_each f [] s = Ret () s"
| "for_each f (i # is) s = rbind (f i s) (\<lambda>_ s. for_each f is s)"

lemma for_each_append: "for_each f (is @ js) s = rbind (for_each f is s) (\<lambda>_ s. for_each f js s)"
  by (induction "is" arbitrary: s) (auto simp: rbind_assoc intro!: rbind_cong)

text \<open>An invariant that every body execution keeps holds after the loop.\<close>

lemma for_each_inv:
  assumes "for_each f is s = Ret u s'" "I s"
    "\<And>i s u s'. i \<in> set is \<Longrightarrow> f i s = Ret u s' \<Longrightarrow> I s \<Longrightarrow> I s'"
  shows "I s'"
  using assms by (induction "is" arbitrary: s) auto

text \<open>Running an operation of a component on its part of a larger state.\<close>

definition on_part :: "('s \<Rightarrow> 't) \<Rightarrow> ('t \<Rightarrow> 's \<Rightarrow> 's) \<Rightarrow> ('t \<Rightarrow> ('a, 't) res) \<Rightarrow> 's \<Rightarrow> ('a, 's) res" where
  "on_part get put f s =
     (case f (get s) of
        Ret x t \<Rightarrow> Ret x (put t s)
      | Panic m \<Rightarrow> Panic m
      | Block c t \<Rightarrow> Block c (put t s)
      | Diverge \<Rightarrow> Diverge)"

lemma on_part_Ret [simp]: "f (get s) = Ret x t \<Longrightarrow> on_part get put f s = Ret x (put t s)"
  by (simp add: on_part_def)

lemma on_part_eq_Ret:
  "on_part get put f s = Ret x s' \<longleftrightarrow> (\<exists>t. f (get s) = Ret x t \<and> s' = put t s)"
  by (auto simp: on_part_def split: res.splits)

subsection \<open>What an operation leaves alone\<close>

text \<open>
  \<open>keeps p x m\<close>: if \<open>m\<close> returns, the part \<open>p\<close> of the state has the value \<open>x\<close>. The rules follow the structure of
  the code, so that such a fact about an operation is proved by unfolding it.
\<close>

definition keeps :: "('s \<Rightarrow> 'x) \<Rightarrow> 'x \<Rightarrow> ('a, 's) res \<Rightarrow> bool" where
  "keeps p x m \<longleftrightarrow> (\<forall>v s. m = Ret v s \<longrightarrow> p s = x)"

named_theorems keep \<open>operations that keep a part of the state\<close>

lemma keepsD: "keeps p x m \<Longrightarrow> m = Ret v s \<Longrightarrow> p s = x"
  by (simp add: keeps_def)

lemma keeps_Ret [keep]: "p s = x \<Longrightarrow> keeps p x (Ret v s)"
  by (simp add: keeps_def)

lemma keeps_stop [keep]: "keeps p x (Panic m)" "keeps p x (Block c s)" "keeps p x Diverge"
  by (simp_all add: keeps_def)

lemma keeps_rbind [keep]:
  "keeps p x m \<Longrightarrow> (\<And>v s. p s = x \<Longrightarrow> keeps p x (f v s)) \<Longrightarrow> keeps p x (rbind m f)"
  by (auto simp: keeps_def)

lemma keeps_if [keep]:
  "(b \<Longrightarrow> keeps p x m) \<Longrightarrow> (\<not> b \<Longrightarrow> keeps p x n) \<Longrightarrow> keeps p x (if b then m else n)"
  by simp

lemma keeps_let [keep]: "keeps p x (f t) \<Longrightarrow> keeps p x (Let t f)"
  by simp

lemma keeps_option [keep]:
  "keeps p x m \<Longrightarrow> (\<And>a. v = Some a \<Longrightarrow> keeps p x (f a)) \<Longrightarrow> keeps p x (case v of None \<Rightarrow> m | Some a \<Rightarrow> f a)"
  by (cases v) simp_all

lemma keeps_prod [keep]: "(\<And>a b. v = (a, b) \<Longrightarrow> keeps p x (f a b)) \<Longrightarrow> keeps p x (case v of (a, b) \<Rightarrow> f a b)"
  by (cases v) simp

lemma keeps_prod_fun [keep]:
  "(\<And>a b. v = (a, b) \<Longrightarrow> keeps p x (f a b s)) \<Longrightarrow> keeps p x ((case v of (a, b) \<Rightarrow> f a b) s)"
  by (cases v) simp

lemma keeps_list [keep]:
  "keeps p x m \<Longrightarrow> (\<And>a as. v = a # as \<Longrightarrow> keeps p x (f a as)) \<Longrightarrow> keeps p x (case v of [] \<Rightarrow> m | a # as \<Rightarrow> f a as)"
  by (cases v) simp_all

lemma keeps_for_each [keep]:
  assumes "\<And>i s. p s = x \<Longrightarrow> keeps p x (f i s)" "p s = x"
  shows "keeps p x (for_each f is s)"
  using assms(2)
proof (induction "is" arbitrary: s)
  case (Cons i js)
  then show ?case by (simp add: keeps_rbind assms(1))
qed (simp add: keeps_Ret)

lemma keeps_on_part:
  "(\<And>t. p (put t s) = x) \<Longrightarrow> keeps p x (on_part get put f s)"
  by (auto simp: keeps_def on_part_eq_Ret)

subsection \<open>Scanning a table\<close>

text \<open>
  \<^verbatim>\<open>for(p = &tab[i]; p < &tab[n]; p++) if(P(p)) goto found;\<close> as a function: the first index
  from \<open>i\<close> on, below \<open>n\<close>, that satisfies \<open>P\<close>.
\<close>

function first_from :: "(nat \<Rightarrow> bool) \<Rightarrow> nat \<Rightarrow> nat \<Rightarrow> nat option" where
  "first_from P i n =
     (if i < n then (if P i then Some i else first_from P (Suc i) n) else None)"
  by pat_completeness auto
termination
  by (relation "measure (\<lambda>(P, i, n). n - i)") auto

declare first_from.simps [simp del]

lemma first_from_Some_iff:
  "first_from P i n = Some k \<longleftrightarrow> i \<le> k \<and> k < n \<and> P k \<and> (\<forall>j. i \<le> j \<and> j < k \<longrightarrow> \<not> P j)"
proof (induction P i n rule: first_from.induct)
  case (1 P i n)
  show ?case
  proof (cases "i < n \<and> \<not> P i")
    case True
    then have "first_from P i n = first_from P (Suc i) n"
      by (simp add: first_from.simps [of P i n])
    moreover have "first_from P (Suc i) n = Some k \<longleftrightarrow>
        Suc i \<le> k \<and> k < n \<and> P k \<and> (\<forall>j. Suc i \<le> j \<and> j < k \<longrightarrow> \<not> P j)"
      using "1.IH" True by simp
    ultimately show ?thesis
      using True by (metis Suc_leD Suc_leI le_less)
  next
    case False
    then show ?thesis
      by (auto simp: first_from.simps [of P i n] le_less split: if_splits)
  qed
qed

lemma first_from_None_iff:
  "first_from P i n = None \<longleftrightarrow> (\<forall>j. i \<le> j \<and> j < n \<longrightarrow> \<not> P j)"
proof (induction P i n rule: first_from.induct)
  case (1 P i n)
  show ?case
  proof (cases "i < n \<and> \<not> P i")
    case True
    with "1.IH" have "first_from P (Suc i) n = None \<longleftrightarrow> (\<forall>j. Suc i \<le> j \<and> j < n \<longrightarrow> \<not> P j)"
      by simp
    with True show ?thesis
      by (metis first_from.simps Suc_leD Suc_leI le_less)
  next
    case False
    then show ?thesis
      by (auto simp: first_from.simps [of P i n] split: if_splits)
  qed
qed

lemma first_from_SomeD:
  assumes "first_from P i n = Some k"
  shows "i \<le> k" "k < n" "P k" "\<And>j. i \<le> j \<Longrightarrow> j < k \<Longrightarrow> \<not> P j"
  using assms by (auto simp: first_from_Some_iff)

lemma first_from_exists:
  assumes "P j" "i \<le> j" "j < n"
  shows "\<exists>k. first_from P i n = Some k"
  using assms first_from_None_iff [of P i n] by (cases "first_from P i n") auto

end
