(* ===== verification/Cstring.thy ===== *)
theory Cstring
  imports Prelude
begin

section \<open>Memory and string routines (string.c, ulib.c)\<close>

text \<open>
  Memory is a function from 32-bit addresses to bytes, so address arithmetic wraps exactly as
  the C code's pointers do on x86. The routines of \<^verbatim>\<open>string.c\<close> become functions from memory
  to memory (or to a value); each \<^verbatim>\<open>while\<close> loop is a recursive function on its counter. The
  loops with no counter (\<^verbatim>\<open>strlen\<close>) are \<^verbatim>\<open>partial_function (option)\<close>: running forever is
  \<^term>\<open>None\<close>.

  The lemmas show: both branches of \<^verbatim>\<open>memset\<close> fill exactly the region, \<^verbatim>\<open>memmove\<close> copies
  correctly whether or not source and destination overlap, \<^verbatim>\<open>strncpy\<close> and \<^verbatim>\<open>safestrcpy\<close>
  write what their comments promise, and 32-bit loads read back what was stored.
\<close>

subsection \<open>Loads and stores\<close>

definition load32 :: "memory \<Rightarrow> addr \<Rightarrow> 32 word" where
  "load32 m a =
     ucast (m a) OR push_bit 8 (ucast (m (a + 1))) OR
     push_bit 16 (ucast (m (a + 2))) OR push_bit 24 (ucast (m (a + 3)))"

definition store32 :: "memory \<Rightarrow> addr \<Rightarrow> 32 word \<Rightarrow> memory" where
  "store32 m a v =
     m(a := ucast v, a + 1 := ucast (drop_bit 8 v),
       a + 2 := ucast (drop_bit 16 v), a + 3 := ucast (drop_bit 24 v))"

text \<open>A region of \<open>n\<close> bytes at \<open>d\<close>, as addresses seen modulo $2^{32}$.\<close>

definition in_region :: "addr \<Rightarrow> nat \<Rightarrow> addr \<Rightarrow> bool" where
  "in_region d n a \<longleftrightarrow> unat (a - d) < n"

lemma in_region_0 [simp]: "\<not> in_region d 0 a"
  by (simp add: in_region_def)

lemma word32_bytes:
  fixes v :: "32 word"
  shows "ucast (ucast v :: byte) OR push_bit 8 (ucast (ucast (drop_bit 8 v) :: byte)) OR
     push_bit 16 (ucast (ucast (drop_bit 16 v) :: byte)) OR
     push_bit 24 (ucast (ucast (drop_bit 24 v) :: byte)) = v" (is "?l = v")
proof (rule bit_word_eqI)
  fix n assume "n < LENGTH(32)"
  then consider "n < 8" | "8 \<le> n" "n < 16" | "16 \<le> n" "n < 24" | "24 \<le> n" "n < 32"
    by force
  then show "bit ?l n = bit v n"
    by cases (auto simp: bit_simps)
qed

lemma load32_store32 [simp]: "load32 (store32 m a v) a = v"
  by (simp add: load32_def store32_def word32_bytes)

lemma store32_other: "\<not> in_region a 4 b \<Longrightarrow> store32 m a v b = m b"
  by (auto simp: store32_def in_region_def unat_word_ariths)

lemma load32_cong:
  assumes "\<And>b. in_region a 4 b \<Longrightarrow> m b = m' b"
  shows "load32 m a = load32 m' a"
  using assms [of a] assms [of "a + 1"] assms [of "a + 2"] assms [of "a + 3"]
  by (simp add: load32_def in_region_def)

subsection \<open>memset\<close>

text \<open>\<^verbatim>\<open>rep stosb\<close> and \<^verbatim>\<open>rep stosl\<close> of x86.h: store and advance, \<open>n\<close> times.\<close>

fun stosb :: "memory \<Rightarrow> addr \<Rightarrow> byte \<Rightarrow> nat \<Rightarrow> memory" where
  "stosb m a c 0 = m"
| "stosb m a c (Suc n) = stosb (m(a := c)) (a + 1) c n"

fun stosl :: "memory \<Rightarrow> addr \<Rightarrow> 32 word \<Rightarrow> nat \<Rightarrow> memory" where
  "stosl m a v 0 = m"
| "stosl m a v (Suc n) = stosl (store32 m a v) (a + 4) v n"

definition memset :: "memory \<Rightarrow> addr \<Rightarrow> 32 word \<Rightarrow> 32 word \<Rightarrow> memory" where
  "memset m dst c n =
     (if dst mod 4 = 0 \<and> n mod 4 = 0
      then (let c = c AND 0xFF
            in stosl m dst (push_bit 24 c OR push_bit 16 c OR push_bit 8 c OR c) (unat (n div 4)))
      else stosb m dst (ucast c) (unat n))"

lemma in_region_Suc: "in_region d (Suc n) a \<longleftrightarrow> a = d \<or> in_region (d + 1) n a"
proof (cases "a = d")
  case False
  then have "unat (a - d - 1) = unat (a - d) - 1" and "0 < unat (a - d)"
    by (auto simp: unat_minus_one unat_gt_0)
  then show ?thesis
    using False by (simp add: in_region_def diff_diff_add) linarith
qed (simp add: in_region_def)

lemma stosb_eq: "stosb m d c n a = (if in_region d n a then c else m a)"
  by (induction n arbitrary: m d) (auto simp: in_region_Suc)

lemma in_region_4: "in_region d 4 a \<longleftrightarrow> a = d \<or> a = d + 1 \<or> a = d + 2 \<or> a = d + 3"
  using in_region_Suc [of d 3 a] in_region_Suc [of "d + 1" 2 a]
    in_region_Suc [of "d + 2" 1 a] in_region_Suc [of "d + 3" 0 a]
  by (simp add: add.assoc numeral_eq_Suc)

lemma in_region_add4:
  "in_region d (n + 4) a \<longleftrightarrow> in_region d 4 a \<or> in_region (d + 4) n a"
proof -
  have "n + 4 = Suc (Suc (Suc (Suc n)))" by simp
  then show ?thesis
    by (simp only: in_region_Suc in_region_4) (simp add: add.assoc)
qed

lemma low_byte_mask: "(0xFF :: 32 word) = mask 8"
  by (simp add: mask_eq_decr_exp)

definition splat :: "32 word \<Rightarrow> 32 word" where
  "splat c = (let c = c AND 0xFF in push_bit 24 c OR push_bit 16 c OR push_bit 8 c OR c)"

lemma splat_bytes:
  "ucast (splat c) = (ucast c :: byte)" "ucast (drop_bit 8 (splat c)) = (ucast c :: byte)"
  "ucast (drop_bit 16 (splat c)) = (ucast c :: byte)"
  "ucast (drop_bit 24 (splat c)) = (ucast c :: byte)"
  by (rule bit_word_eqI; auto simp: splat_def Let_def low_byte_mask bit_simps)+

lemma store32_splat:
  "store32 m d (splat c) a = (if in_region d 4 a then ucast c else m a)"
  by (auto simp: store32_def splat_bytes in_region_4)

lemma stosl_eq:
  "stosl m d (splat c) n a = (if in_region d (4 * n) a then ucast c else m a)"
proof (induction n arbitrary: m d)
  case (Suc n)
  show ?case
    using in_region_add4 [of d "4 * n" a] by (simp add: Suc.IH store32_splat add.commute)
qed simp

text \<open>
  Both the word-at-a-time path and the byte path of \<^verbatim>\<open>memset\<close> fill the region with the low byte
  of \<open>c\<close> and leave the rest of memory alone.
\<close>

lemma memset_eq:
  "memset m dst c n a = (if in_region dst (unat n) a then ucast c else m a)"
proof (cases "dst mod 4 = 0 \<and> n mod 4 = 0")
  case True
  then have "4 * unat (n div 4) = unat n"
    using unat_mod [of n 4] mult_div_mod_eq [of 4 "unat n"] by (simp add: unat_div)
  then show ?thesis
    using True stosl_eq [of m dst c "unat (n div 4)" a]
    by (simp add: memset_def splat_def Let_def)
next
  case False
  then show ?thesis by (auto simp: memset_def stosb_eq)
qed

subsection \<open>memcmp and memmove\<close>

fun memcmp :: "memory \<Rightarrow> addr \<Rightarrow> addr \<Rightarrow> nat \<Rightarrow> int" where
  "memcmp m s1 s2 0 = 0"
| "memcmp m s1 s2 (Suc n) =
     (if m s1 \<noteq> m s2 then uint (m s1) - uint (m s2) else memcmp m (s1 + 1) (s2 + 1) n)"

fun copy_backward :: "memory \<Rightarrow> addr \<Rightarrow> addr \<Rightarrow> nat \<Rightarrow> memory" where
  "copy_backward m d s 0 = m"
| "copy_backward m d s (Suc n) = copy_backward (m(d - 1 := m (s - 1))) (d - 1) (s - 1) n"

fun copy_forward :: "memory \<Rightarrow> addr \<Rightarrow> addr \<Rightarrow> nat \<Rightarrow> memory" where
  "copy_forward m d s 0 = m"
| "copy_forward m d s (Suc n) = copy_forward (m(d := m s)) (d + 1) (s + 1) n"

definition memmove :: "memory \<Rightarrow> addr \<Rightarrow> addr \<Rightarrow> 32 word \<Rightarrow> memory" where
  "memmove m dst src n =
     (if src < dst \<and> src + n > dst
      then copy_backward m (dst + n) (src + n) (unat n)
      else copy_forward m dst src (unat n))"

text \<open>The bytes at an address, as a list.\<close>

definition bytes_at :: "memory \<Rightarrow> addr \<Rightarrow> nat \<Rightarrow> byte list" where
  "bytes_at m a n = map (\<lambda>i. m (a + of_nat i)) [0..<n]"

lemma bytes_at_0 [simp]: "bytes_at m a 0 = []"
  by (simp add: bytes_at_def)

lemma bytes_at_Suc [simp]: "bytes_at m a (Suc n) = m a # bytes_at m (a + 1) n"
proof -
  have "[0..<Suc n] = 0 # map Suc [0..<n]"
    by (simp add: map_Suc_upt upt_conv_Cons del: upt_Suc)
  then show ?thesis by (simp add: bytes_at_def comp_def ac_simps del: upt_Suc)
qed

lemma length_bytes_at [simp]: "length (bytes_at m a n) = n"
  by (simp add: bytes_at_def)

lemma nth_bytes_at [simp]: "i < n \<Longrightarrow> bytes_at m a n ! i = m (a + of_nat i)"
  by (simp add: bytes_at_def)

lemma memcmp_eq_0_iff: "memcmp m s1 s2 n = 0 \<longleftrightarrow> bytes_at m s1 n = bytes_at m s2 n"
  by (induction n arbitrary: s1 s2) (auto simp: word_uint_eq_iff)

text \<open>
  A forward copy is right when no byte is overwritten before it is read: the destination is
  not strictly inside the source region. A backward copy is right in the mirrored case.
\<close>

lemma not_in_region_next: "n < 2 ^ 32 \<Longrightarrow> \<not> in_region (d + 1) n d"
  by (simp add: in_region_def unsigned_minus_1_eq_mask mask_eq_exp_minus_1)

lemma copy_forward_eq:
  assumes "d = s \<or> n \<le> unat (d - s)" "n \<le> 2 ^ 32"
  shows "copy_forward m d s n a = (if in_region d n a then m (s + (a - d)) else m a)"
  using assms
proof (induction n arbitrary: m d s)
  case (Suc n)
  let ?m = "m(d := m s)"
  have IH: "copy_forward m d s (Suc n) a =
      (if in_region (d + 1) n a then ?m (s + (a - d)) else ?m a)"
  proof -
    have "copy_forward m d s (Suc n) a = copy_forward ?m (d + 1) (s + 1) n a"
      by (simp only: copy_forward.simps)
    also have "\<dots> = (if in_region (d + 1) n a then ?m (s + 1 + (a - (d + 1))) else ?m a)"
      by (rule Suc.IH) (use Suc.prems in auto)
    also have "s + 1 + (a - (d + 1)) = s + (a - d)"
      by simp
    finally show ?thesis .
  qed
  have "s + (a - d) \<noteq> d" if "in_region (d + 1) n a"
  proof
    assume eq: "s + (a - d) = d"
    then have "a - d = d - s" by (simp add: algebra_simps)
    moreover have "unat (a - d) < Suc n"
      using that in_region_Suc [of d n a] by (simp add: in_region_def)
    ultimately have "d = s" using Suc.prems by auto
    with eq have "a = d" by simp
    then show False using that not_in_region_next [of n d] Suc.prems by simp
  qed
  then show ?case
    by (simp only: IH in_region_Suc) auto
qed simp

lemma in_region_Suc_last:
  assumes "n < 2 ^ 32"
  shows "in_region d (Suc n) a \<longleftrightarrow> in_region d n a \<or> a = d + of_nat n"
proof -
  have "a = d + of_nat n \<longleftrightarrow> a - d = of_nat n" by (auto simp: algebra_simps)
  also have "\<dots> \<longleftrightarrow> unat (a - d) = n"
    using assms by (auto simp: word_unat_eq_iff unat_of_nat)
  finally show ?thesis by (auto simp: in_region_def)
qed

lemma copy_backward_eq:
  assumes "d = s \<or> n \<le> unat (s - d)" "n \<le> 2 ^ 32"
  shows "copy_backward m (d + of_nat n) (s + of_nat n) n a =
    (if in_region d n a then m (s + (a - d)) else m a)"
  using assms
proof (induction n arbitrary: m)
  case (Suc n)
  let ?m = "m(d + of_nat n := m (s + of_nat n))"
  have IH: "copy_backward m (d + of_nat (Suc n)) (s + of_nat (Suc n)) (Suc n) a =
      (if in_region d n a then ?m (s + (a - d)) else ?m a)"
  proof -
    have "copy_backward m (d + of_nat (Suc n)) (s + of_nat (Suc n)) (Suc n) a =
        copy_backward ?m (d + of_nat n) (s + of_nat n) n a"
      by simp
    also have "\<dots> = (if in_region d n a then ?m (s + (a - d)) else ?m a)"
      by (rule Suc.IH) (use Suc.prems in auto)
    finally show ?thesis .
  qed
  have "s + (a - d) \<noteq> d + of_nat n" if "in_region d n a"
  proof
    assume eq: "s + (a - d) = d + of_nat n"
    then have eq': "of_nat n - (a - d) = s - d" by (simp add: algebra_simps)
    have lt: "unat (a - d) < n" using that by (simp add: in_region_def)
    have "unat (s - d) = n - unat (a - d)"
      unfolding eq' [symmetric]
      using lt Suc.prems by (subst unat_sub) (auto simp: word_le_nat_alt unat_of_nat)
    with lt Suc.prems(1) show False by auto
  qed
  then show ?case
    using Suc.prems by (simp only: IH in_region_Suc_last) auto
qed simp

text \<open>
  \<^verbatim>\<open>memmove\<close> on regions that do not run past the end of the address space: the destination
  holds the source's old bytes, the rest is unchanged, overlap or not.
\<close>

lemma memmove_eq:
  assumes "unat dst + unat n \<le> 2 ^ 32" "unat src + unat n \<le> 2 ^ 32"
  shows "memmove m dst src n a =
    (if in_region dst (unat n) a then m (src + (a - dst)) else m a)"
proof (cases "src < dst \<and> src + n > dst")
  case True
  then have "unat src < unat dst" by (simp add: word_less_nat_alt)
  then have "unat n \<le> unat (src - dst)"
    using assms unat_sub_if' [of src dst] by (auto simp: word_le_nat_alt)
  then show ?thesis
    using True copy_backward_eq [of dst src "unat n" m a] assms
    by (simp add: memmove_def)
next
  case False
  have "dst = src \<or> unat n \<le> unat (dst - src)"
  proof (cases "src < dst")
    case True
    with False have "src + n \<le> dst" by auto
    moreover have "unat (src + n) = unat src + unat n"
      using True assms by (simp add: unat_word_ariths word_less_nat_alt)
    ultimately show ?thesis
      using True unat_sub_if' [of dst src] by (auto simp: word_le_nat_alt word_less_nat_alt)
  next
    case False
    then show ?thesis using assms unat_sub_if' [of dst src]
      by (auto simp: word_le_nat_alt word_less_nat_alt word_unat_eq_iff)
  qed
  then show ?thesis
    using False copy_forward_eq [of dst src "unat n" m a] assms
    by (auto simp: memmove_def)
qed

subsection \<open>Counted strings\<close>

fun strncmp :: "memory \<Rightarrow> addr \<Rightarrow> addr \<Rightarrow> nat \<Rightarrow> int" where
  "strncmp m p q 0 = 0"
| "strncmp m p q (Suc n) =
     (if m p \<noteq> 0 \<and> m p = m q then strncmp m (p + 1) (q + 1) n
      else uint (m p) - uint (m q))"

fun strncpy_pad :: "memory \<Rightarrow> addr \<Rightarrow> nat \<Rightarrow> memory" where
  "strncpy_pad m s 0 = m"
| "strncpy_pad m s (Suc n) = strncpy_pad (m(s := 0)) (s + 1) n"

fun strncpy_loop :: "memory \<Rightarrow> addr \<Rightarrow> addr \<Rightarrow> nat \<Rightarrow> memory" where
  "strncpy_loop m s t 0 = m"
| "strncpy_loop m s t (Suc n) =
     (if m t \<noteq> 0 then strncpy_loop (m(s := m t)) (s + 1) (t + 1) n
      else strncpy_pad (m(s := m t)) (s + 1) n)"

definition strncpy :: "memory \<Rightarrow> addr \<Rightarrow> addr \<Rightarrow> int \<Rightarrow> memory" where
  "strncpy m s t n = strncpy_loop m s t (nat n)"

fun safestrcpy_loop :: "memory \<Rightarrow> addr \<Rightarrow> addr \<Rightarrow> nat \<Rightarrow> memory" where
  "safestrcpy_loop m s t 0 = m(s := 0)"
| "safestrcpy_loop m s t (Suc n) =
     (if m t \<noteq> 0 then safestrcpy_loop (m(s := m t)) (s + 1) (t + 1) n
      else m(s := m t, s + 1 := 0))"

definition safestrcpy :: "memory \<Rightarrow> addr \<Rightarrow> addr \<Rightarrow> int \<Rightarrow> memory" where
  "safestrcpy m s t n = (if n \<le> 0 then m else safestrcpy_loop m s t (nat (n - 1)))"

text \<open>The C string in at most \<open>n\<close> bytes at an address: the bytes before the first NUL.\<close>

definition cstring :: "memory \<Rightarrow> addr \<Rightarrow> nat \<Rightarrow> byte list" where
  "cstring m a n = takeWhile (\<lambda>b. b \<noteq> 0) (bytes_at m a n)"

lemma cstring_0 [simp]: "cstring m a 0 = []"
  by (simp add: cstring_def)

lemma cstring_Suc [simp]:
  "cstring m a (Suc n) = (if m a = 0 then [] else m a # cstring m (a + 1) n)"
  by (simp add: cstring_def)

lemma strncmp_eq_0_iff: "strncmp m p q n = 0 \<longleftrightarrow> cstring m p n = cstring m q n"
  by (induction n arbitrary: p q) (auto simp: word_uint_eq_iff)

lemma strncpy_pad_eq: "strncpy_pad m s n a = (if in_region s n a then 0 else m a)"
  by (induction n arbitrary: m s) (auto simp: in_region_Suc)

lemma cstring_cong:
  assumes "\<And>b. in_region a n b \<Longrightarrow> m b = m' b"
  shows "cstring m a n = cstring m' a n"
  using assms by (induction n arbitrary: a) (auto simp: in_region_Suc)

text \<open>
  \<^verbatim>\<open>strncpy\<close> and \<^verbatim>\<open>safestrcpy\<close> write only the \<open>n\<close> bytes at \<open>s\<close>.
\<close>

lemma strncpy_loop_frame: "\<not> in_region s n a \<Longrightarrow> strncpy_loop m s t n a = m a"
  by (induction n arbitrary: m s t) (auto simp: in_region_Suc strncpy_pad_eq)

lemma safestrcpy_loop_frame: "\<not> in_region s (Suc n) a \<Longrightarrow> safestrcpy_loop m s t n a = m a"
  by (induction n arbitrary: m s t) (auto simp: in_region_Suc)

definition disjoint_regions :: "addr \<Rightarrow> nat \<Rightarrow> addr \<Rightarrow> nat \<Rightarrow> bool" where
  "disjoint_regions a n b k \<longleftrightarrow> (\<forall>x. \<not> (in_region a n x \<and> in_region b k x))"

lemma disjoint_regions_Suc:
  assumes "disjoint_regions a (Suc n) b (Suc k)"
  shows "disjoint_regions (a + 1) n (b + 1) k" "\<not> in_region b (Suc k) a" "\<not> in_region a (Suc n) b"
  using assms by (auto simp: disjoint_regions_def in_region_Suc)

lemma strncpy_loop_cstring:
  assumes "disjoint_regions s n t n" "n < 2 ^ 32"
  shows "cstring (strncpy_loop m s t n) s n = cstring m t n"
  using assms
proof (induction n arbitrary: m s t)
  case (Suc n)
  have s: "\<not> in_region (s + 1) n s"
    using Suc.prems by (intro not_in_region_next) auto
  note dis = disjoint_regions_Suc [OF Suc.prems(1)]
  have "cstring (m(s := m t)) (t + 1) n = cstring m (t + 1) n"
    using dis(2) by (intro cstring_cong) (auto simp: in_region_Suc)
  moreover have "cstring (strncpy_loop (m(s := m t)) (s + 1) (t + 1) n) (s + 1) n =
      cstring (m(s := m t)) (t + 1) n"
    by (rule Suc.IH [OF dis(1)]) (use Suc.prems in auto)
  ultimately show ?case
    using s by (auto simp: strncpy_loop_frame strncpy_pad_eq)
qed simp

lemma safestrcpy_loop_cstring:
  assumes "disjoint_regions s (Suc n) t n" "n < 2 ^ 32 - 1"
  shows "cstring (safestrcpy_loop m s t n) s (Suc n) = cstring m t n"
  using assms
proof (induction n arbitrary: m s t)
  case (Suc n)
  have s: "\<not> in_region (s + 1) (Suc n) s"
    using Suc.prems by (intro not_in_region_next) auto
  note dis = disjoint_regions_Suc [OF Suc.prems(1)]
  have "cstring (m(s := m t)) (t + 1) n = cstring m (t + 1) n"
    using dis(2) by (intro cstring_cong) (auto simp: in_region_Suc)
  moreover have "cstring (safestrcpy_loop (m(s := m t)) (s + 1) (t + 1) n) (s + 1) (Suc n) =
      cstring (m(s := m t)) (t + 1) n"
    by (rule Suc.IH [OF dis(1)]) (use Suc.prems in auto)
  ultimately show ?case
    using s by (simp add: safestrcpy_loop_frame cstring_Suc [of _ s] cstring_Suc [of m t] del: cstring_Suc)
qed simp

lemma safestrcpy_loop_terminated: "\<exists>i\<le>n. safestrcpy_loop m s t n (s + of_nat i) = 0"
proof (induction n arbitrary: m s t)
  case (Suc n)
  show ?case
  proof (cases "m t = 0")
    case True
    then show ?thesis by (intro exI [of _ 1]) simp
  next
    case False
    obtain i where "i \<le> n" "safestrcpy_loop (m(s := m t)) (s + 1) (t + 1) n (s + 1 + of_nat i) = 0"
      using Suc.IH [of "m(s := m t)" "s + 1" "t + 1"] by blast
    with False show ?thesis
      by (intro exI [of _ "Suc i"]) (simp add: add.assoc)
  qed
qed simp

subsection \<open>NUL-terminated strings\<close>

text \<open>
  The loops below stop at a NUL byte and would run forever on memory without one.
\<close>

partial_function (option) strlen_loop :: "memory \<Rightarrow> addr \<Rightarrow> nat \<Rightarrow> nat option" where
  "strlen_loop m s n = (if m (s + of_nat n) = 0 then Some n else strlen_loop m s (Suc n))"

definition strlen :: "memory \<Rightarrow> addr \<Rightarrow> nat option" where
  "strlen m s = strlen_loop m s 0"

partial_function (option) strcmp :: "memory \<Rightarrow> addr \<Rightarrow> addr \<Rightarrow> int option" where
  "strcmp m p q =
     (if m p \<noteq> 0 \<and> m p = m q then strcmp m (p + 1) (q + 1)
      else Some (uint (m p) - uint (m q)))"

partial_function (option) strcpy :: "memory \<Rightarrow> addr \<Rightarrow> addr \<Rightarrow> memory option" where
  "strcpy m s t =
     (if m t \<noteq> 0 then strcpy (m(s := m t)) (s + 1) (t + 1) else Some (m(s := m t)))"

text \<open>\<^verbatim>\<open>strchr\<close> returns the address of the byte, or 0 when the string has none.\<close>

partial_function (option) strchr :: "memory \<Rightarrow> addr \<Rightarrow> byte \<Rightarrow> addr option" where
  "strchr m s c =
     (if m s \<noteq> 0 then (if m s = c then Some s else strchr m (s + 1) c) else Some 0)"

text \<open>\<^verbatim>\<open>atoi\<close>: \<^verbatim>\<open>'0'\<close> is 48 and \<^verbatim>\<open>'9'\<close> is 57.\<close>

partial_function (option) atoi_loop :: "memory \<Rightarrow> addr \<Rightarrow> int \<Rightarrow> int option" where
  "atoi_loop m s n =
     (if 48 \<le> m s \<and> m s \<le> 57 then atoi_loop m (s + 1) (n * 10 + uint (m s) - 48)
      else Some n)"

definition atoi :: "memory \<Rightarrow> addr \<Rightarrow> int option" where
  "atoi m s = atoi_loop m s 0"

lemma strlen_loop_eq:
  assumes "m (s + of_nat (n + k)) = 0" "\<And>i. i < k \<Longrightarrow> m (s + of_nat (n + i)) \<noteq> 0"
  shows "strlen_loop m s n = Some (n + k)"
  using assms
proof (induction k arbitrary: n)
  case 0
  then show ?case by (simp add: strlen_loop.simps)
next
  case (Suc k)
  have "strlen_loop m s (Suc n) = Some (Suc n + k)"
  proof (rule Suc.IH)
    show "m (s + of_nat (Suc n + k)) = 0" using Suc.prems(1) by simp
    show "m (s + of_nat (Suc n + i)) \<noteq> 0" if "i < k" for i
      using Suc.prems(2) [of "Suc i"] that by simp
  qed
  then show ?case
    using Suc.prems(2) [of 0] by (simp add: strlen_loop.simps [of m s n])
qed

text \<open>The decimal number that a list of digit bytes denotes.\<close>

definition decimal :: "int \<Rightarrow> byte list \<Rightarrow> int" where
  "decimal = foldl (\<lambda>n b. n * 10 + (uint b - 48))"

definition is_digit :: "byte \<Rightarrow> bool" where
  "is_digit b \<longleftrightarrow> 48 \<le> b \<and> b \<le> 57"

lemma atoi_loop_eq:
  assumes "\<forall>b\<in>set (bytes_at m s k). is_digit b" "\<not> is_digit (m (s + of_nat k))"
  shows "atoi_loop m s n = Some (decimal n (bytes_at m s k))"
  using assms
proof (induction k arbitrary: s n)
  case 0
  then show ?case by (auto simp: atoi_loop.simps [of m s] is_digit_def decimal_def)
next
  case (Suc k)
  have "atoi_loop m (s + 1) n' = Some (decimal n' (bytes_at m (s + 1) k))" for n'
    using Suc.prems by (intro Suc.IH) (auto simp: add.assoc)
  then show ?case
    using Suc.prems by (simp add: atoi_loop.simps [of m s] is_digit_def decimal_def algebra_simps)
qed

subsection \<open>Properties\<close>

text \<open>
  C10. \<^verbatim>\<open>memmove\<close> copies correctly whether or not the two regions overlap and in whichever order
  they lie: each destination byte ends with what the corresponding source byte held before the
  call, and no other byte changes. The only condition is that neither region wraps around the
  end of the address space.
\<close>

theorem memmove_correct:
  assumes "unat dst + unat n \<le> 2 ^ 32" "unat src + unat n \<le> 2 ^ 32"
  shows "bytes_at (memmove m dst src n) dst (unat n) = bytes_at m src (unat n) \<and>
    (\<forall>a. \<not> in_region dst (unat n) a \<longrightarrow> memmove m dst src n a = m a)"
proof -
  have off: "unat (of_nat i :: addr) = i" if "i < unat n" for i
    using that unsigned_less [of n, where ?'a = nat] by (simp add: unat_of_nat)
  have "memmove m dst src n (dst + of_nat i) = m (src + of_nat i)" if "i < unat n" for i
    using memmove_eq [OF assms] off [OF that] that by (simp add: in_region_def)
  then show ?thesis
    using memmove_eq [OF assms] by (auto intro: nth_equalityI)
qed

theorem memmove_correct_witness:
  "bytes_at (memmove (\<lambda>a. ucast a) 101 100 8) 101 8 = bytes_at (\<lambda>a. ucast a) 100 8"
  using memmove_correct [of 101 8 100 "\<lambda>a. ucast a"] by simp

text \<open>
  C11. \<^verbatim>\<open>safestrcpy\<close> into a buffer of \<open>n\<close> bytes that does not overlap the source always leaves a
  NUL-terminated string there: the first \<open>n - 1\<close> bytes of the source string (or all of it when
  it is shorter), and it writes nothing outside the buffer.
\<close>

theorem safestrcpy_correct:
  assumes "0 < n" "n < 2 ^ 32" "disjoint_regions s (nat n) t (nat n - 1)"
  shows "cstring (safestrcpy m s t n) s (nat n) = cstring m t (nat n - 1) \<and>
    (\<exists>i<nat n. safestrcpy m s t n (s + of_nat i) = 0) \<and>
    (\<forall>a. \<not> in_region s (nat n) a \<longrightarrow> safestrcpy m s t n a = m a)"
proof -
  obtain k where k: "nat n = Suc k" using assms(1) by (cases "nat n") auto
  have "k < 2 ^ 32 - 1" and run: "safestrcpy m s t n = safestrcpy_loop m s t k"
    using k assms(1,2) by (simp_all add: safestrcpy_def nat_diff_distrib)
  then have "cstring (safestrcpy_loop m s t k) s (Suc k) = cstring m t k"
    using assms(3) k by (intro safestrcpy_loop_cstring) auto
  moreover have "\<exists>i<Suc k. safestrcpy_loop m s t k (s + of_nat i) = 0"
    using safestrcpy_loop_terminated [of k m s t] by (auto simp: less_Suc_eq_le)
  ultimately show ?thesis
    unfolding k run using safestrcpy_loop_frame by (simp del: cstring_Suc)
qed

theorem safestrcpy_correct_witness:
  "cstring (safestrcpy ((\<lambda>a. 7)(12 := 0)) 20 10 2) 20 2 = cstring ((\<lambda>a. 7)(12 := 0)) 10 1"
proof -
  have "disjoint_regions 20 2 10 1"
    using in_region_Suc [of 10 0] by (auto simp: disjoint_regions_def) (simp add: in_region_def)
  then show ?thesis using safestrcpy_correct [of 2 20 10 "(\<lambda>a. 7)(12 := 0)"] by simp
qed

end
