(* ===== verification/Spinlock.thy ===== *)
theory Spinlock
  imports Cstring
begin

section \<open>Spin locks (spinlock.c) and per-CPU state\<close>

text \<open>
  A \<^verbatim>\<open>struct spinlock\<close> and the part of \<^verbatim>\<open>struct cpu\<close> that locking uses: the nesting depth
  \<^verbatim>\<open>ncli\<close>, the saved interrupt flag \<^verbatim>\<open>intena\<close>, and the interrupt flag of the processor's
  \<^verbatim>\<open>eflags\<close>. A processor is named by its index in \<^verbatim>\<open>cpus[]\<close>, the value of \<^verbatim>\<open>mycpu()\<close>.

  \<^verbatim>\<open>pushcli\<close>, \<^verbatim>\<open>popcli\<close>, \<^verbatim>\<open>holding\<close> and the two halves of \<^verbatim>\<open>acquire\<close> and \<^verbatim>\<open>release\<close> are
  functions. What other processors do between the atomic instructions of an acquisition is the
  step relation \<open>lock_step\<close>: any number of processors compete for one lock, each at its own
  program point. The invariant \<open>lock_inv\<close> gives mutual exclusion, that interrupts are off from
  the first instruction of \<^verbatim>\<open>acquire\<close> to the last of \<^verbatim>\<open>release\<close>, and that no panic of the two
  routines is reachable.
\<close>

subsection \<open>Per-CPU interrupt state\<close>

record cpu =
  apicid :: "8 word"
  ncli :: int
  intena :: bool
  eflags_if :: bool

type_synonym cpus = "nat \<Rightarrow> cpu"

text \<open>\<^verbatim>\<open>mycpu\<close>: the entry of \<^verbatim>\<open>cpus[0..ncpu)\<close> whose APIC id is that of the running processor.\<close>

definition mycpu :: "nat \<Rightarrow> bool \<Rightarrow> 8 word \<Rightarrow> cpus \<Rightarrow> (nat, cpus) res" where
  "mycpu ncpu if_flag lapicid cs =
     (if if_flag then Panic ''mycpu called with interrupts enabled''
      else case first_from (\<lambda>i. apicid (cs i) = lapicid) 0 ncpu of
        Some i \<Rightarrow> Ret i cs
      | None \<Rightarrow> Panic ''unknown apicid'')"

definition pushcli :: "cpu \<Rightarrow> cpu" where
  "pushcli c =
     (let flags = eflags_if c;
          c = c\<lparr>eflags_if := False\<rparr>;
          c = (if ncli c = 0 then c\<lparr>intena := flags\<rparr> else c)
      in c\<lparr>ncli := ncli c + 1\<rparr>)"

definition popcli :: "cpu \<Rightarrow> (unit, cpu) res" where
  "popcli c =
     (if eflags_if c then Panic ''popcli - interruptible''
      else let c = c\<lparr>ncli := ncli c - 1\<rparr>
           in if ncli c < 0 then Panic ''popcli''
              else if ncli c = 0 \<and> intena c then Ret () (c\<lparr>eflags_if := True\<rparr>)
              else Ret () c)"

text \<open>A processor's interrupt state is consistent when interrupts are off under \<^verbatim>\<open>pushcli\<close>.\<close>

definition cli_ok :: "cpu \<Rightarrow> bool" where
  "cli_ok c \<longleftrightarrow> 0 \<le> ncli c \<and> (0 < ncli c \<longrightarrow> \<not> eflags_if c)"

fun pushcli_n :: "nat \<Rightarrow> cpu \<Rightarrow> cpu" where
  "pushcli_n 0 c = c"
| "pushcli_n (Suc n) c = pushcli_n n (pushcli c)"

fun popcli_n :: "nat \<Rightarrow> cpu \<Rightarrow> (unit, cpu) res" where
  "popcli_n 0 c = Ret () c"
| "popcli_n (Suc n) c = rbind (popcli c) (\<lambda>_ c. popcli_n n c)"

lemma pushcli_ok: "cli_ok c \<Longrightarrow> cli_ok (pushcli c)"
  by (simp add: cli_ok_def pushcli_def Let_def)

lemma popcli_pushcli:
  assumes "cli_ok c"
  shows "\<exists>c'. popcli (pushcli c) = Ret () c' \<and> ncli c' = ncli c \<and> eflags_if c' = eflags_if c"
  using assms by (auto simp: cli_ok_def pushcli_def popcli_def Let_def)

lemma pushcli_n_eq:
  assumes "0 < n" "0 \<le> ncli c"
  shows "pushcli_n n c = c\<lparr>ncli := ncli c + int n, eflags_if := False,
    intena := (if ncli c = 0 then eflags_if c else intena c)\<rparr>"
  using assms
proof (induction n arbitrary: c)
  case (Suc n)
  show ?case
  proof (cases "n = 0")
    case True
    then show ?thesis by (simp add: pushcli_def Let_def)
  next
    case False
    with Suc show ?thesis by (simp add: pushcli_def Let_def)
  qed
qed simp

lemma popcli_n_eq:
  assumes "0 < n" "\<not> eflags_if c" "ncli c = k + int n" "0 \<le> k"
  shows "popcli_n n c = Ret () (c\<lparr>ncli := k, eflags_if := (k = 0 \<and> intena c)\<rparr>)"
  using assms
proof (induction n arbitrary: c)
  case (Suc n)
  show ?case
  proof (cases "n = 0")
    case True
    with Suc.prems show ?thesis
      by (simp add: popcli_def Let_def)
  next
    case False
    with Suc.prems Suc.IH [of "c\<lparr>ncli := ncli c - 1\<rparr>"] show ?thesis
      by (simp add: popcli_def Let_def)
  qed
qed simp

subsection \<open>The lock\<close>

record spinlock =
  locked :: bool
  lcpu :: "nat option"

definition initlock :: spinlock where
  "initlock = \<lparr>locked = False, lcpu = None\<rparr>"

text \<open>\<^verbatim>\<open>xchg(&lk->locked, 1)\<close>: the old value and the new lock.\<close>

definition xchg_locked :: "spinlock \<Rightarrow> bool \<times> spinlock" where
  "xchg_locked lk = (locked lk, lk\<lparr>locked := True\<rparr>)"

text \<open>\<^verbatim>\<open>holding\<close> brackets its test with \<^verbatim>\<open>pushcli\<close> and \<^verbatim>\<open>popcli\<close>.\<close>

definition holding :: "nat \<Rightarrow> spinlock \<Rightarrow> cpu \<Rightarrow> (bool, cpu) res" where
  "holding c lk k = rbind (popcli (pushcli k)) (\<lambda>_ k. Ret (locked lk \<and> lcpu lk = Some c) k)"

text \<open>
  \<^verbatim>\<open>acquire\<close> up to its loop: interrupts off, then the check against acquiring twice. The loop
  body is \<^const>\<open>xchg_locked\<close>; after it the holder is recorded.
\<close>

definition acquire_enter :: "nat \<Rightarrow> spinlock \<Rightarrow> cpu \<Rightarrow> (unit, cpu) res" where
  "acquire_enter c lk k =
     rbind (holding c lk (pushcli k)) (\<lambda>h k. if h then Panic ''acquire'' else Ret () k)"

definition acquire_record :: "nat \<Rightarrow> spinlock \<Rightarrow> spinlock" where
  "acquire_record c lk = lk\<lparr>lcpu := Some c\<rparr>"

text \<open>\<^verbatim>\<open>release\<close>: the check and the clearing of the holder, then the store and \<^verbatim>\<open>popcli\<close>.\<close>

definition release_enter :: "nat \<Rightarrow> spinlock \<Rightarrow> cpu \<Rightarrow> (spinlock, cpu) res" where
  "release_enter c lk k =
     rbind (holding c lk k) (\<lambda>h k. if \<not> h then Panic ''release'' else Ret (lk\<lparr>lcpu := None\<rparr>) k)"

definition release_store :: "spinlock \<Rightarrow> spinlock" where
  "release_store lk = lk\<lparr>locked := False\<rparr>"

text \<open>
  \<^verbatim>\<open>getcallerpcs\<close> follows the chain of saved frame pointers on the stack, for at most ten
  frames, and pads with zeros.
\<close>

fun getcallerpcs_loop :: "memory \<Rightarrow> addr \<Rightarrow> nat \<Rightarrow> 32 word list" where
  "getcallerpcs_loop m ebp 0 = []"
| "getcallerpcs_loop m ebp (Suc n) =
     (if ebp = 0 \<or> ebp < 0x80000000 \<or> ebp = 0xFFFFFFFF then replicate (Suc n) 0
      else load32 m (ebp + 4) # getcallerpcs_loop m (load32 m ebp) n)"

definition getcallerpcs :: "memory \<Rightarrow> addr \<Rightarrow> 32 word list" where
  "getcallerpcs m v = getcallerpcs_loop m (v - 8) 10"

subsection \<open>Processors competing for the lock\<close>

text \<open>
  Where a processor is with respect to the lock: outside, in the loop of \<^verbatim>\<open>acquire\<close>, past the
  exchange but with the holder not recorded yet, in the critical section, in \<^verbatim>\<open>release\<close> with the
  holder already cleared, or stopped by a panic.
\<close>

datatype lock_pc = Outside | Spinning | Recording | Critical | Releasing | Panicked

record lock_sys =
  lk :: spinlock
  pcs :: "nat \<Rightarrow> lock_pc"
  lcpus :: cpus

definition lock_init :: "cpus \<Rightarrow> lock_sys" where
  "lock_init cs = \<lparr>lk = initlock, pcs = (\<lambda>_. Outside), lcpus = cs\<rparr>"

definition goto :: "nat \<Rightarrow> lock_pc \<Rightarrow> lock_sys \<Rightarrow> lock_sys" where
  "goto c p s = s\<lparr>pcs := (pcs s)(c := p)\<rparr>"

definition set_cpu :: "nat \<Rightarrow> cpu \<Rightarrow> lock_sys \<Rightarrow> lock_sys" where
  "set_cpu c k s = s\<lparr>lcpus := (lcpus s)(c := k)\<rparr>"

inductive lock_step :: "lock_sys \<Rightarrow> lock_sys \<Rightarrow> bool" where
  enter: "pcs s c = Outside \<Longrightarrow> acquire_enter c (lk s) (lcpus s c) = Ret () k \<Longrightarrow>
     lock_step s (goto c Spinning (set_cpu c k s))"
| enter_panic: "pcs s c = Outside \<Longrightarrow> acquire_enter c (lk s) (lcpus s c) = Panic m \<Longrightarrow>
     lock_step s (goto c Panicked s)"
| spin: "pcs s c = Spinning \<Longrightarrow> xchg_locked (lk s) = (True, l) \<Longrightarrow>
     lock_step s (s\<lparr>lk := l\<rparr>)"
| got: "pcs s c = Spinning \<Longrightarrow> xchg_locked (lk s) = (False, l) \<Longrightarrow>
     lock_step s (goto c Recording (s\<lparr>lk := l\<rparr>))"
| record_holder: "pcs s c = Recording \<Longrightarrow>
     lock_step s (goto c Critical (s\<lparr>lk := acquire_record c (lk s)\<rparr>))"
| leave: "pcs s c = Critical \<Longrightarrow> release_enter c (lk s) (lcpus s c) = Ret l k \<Longrightarrow>
     lock_step s (goto c Releasing (set_cpu c k (s\<lparr>lk := l\<rparr>)))"
| leave_panic: "pcs s c = Critical \<Longrightarrow> release_enter c (lk s) (lcpus s c) = Panic m \<Longrightarrow>
     lock_step s (goto c Panicked s)"
| store: "pcs s c = Releasing \<Longrightarrow> popcli (lcpus s c) = Ret () k \<Longrightarrow>
     lock_step s (goto c Outside (set_cpu c k (s\<lparr>lk := release_store (lk s)\<rparr>)))"
| store_panic: "pcs s c = Releasing \<Longrightarrow> popcli (lcpus s c) = Panic m \<Longrightarrow>
     lock_step s (goto c Panicked s)"

inductive lock_reachable :: "cpus \<Rightarrow> lock_sys \<Rightarrow> bool" for cs where
  start: "lock_reachable cs (lock_init cs)"
| step: "lock_reachable cs s \<Longrightarrow> lock_step s t \<Longrightarrow> lock_reachable cs t"

definition owner_pc :: "lock_pc \<Rightarrow> bool" where
  "owner_pc p \<longleftrightarrow> p = Recording \<or> p = Critical \<or> p = Releasing"

lemma owner_pc_simps [simp]:
  "\<not> owner_pc Outside" "\<not> owner_pc Spinning" "owner_pc Recording" "owner_pc Critical"
  "owner_pc Releasing" "\<not> owner_pc Panicked"
  by (simp_all add: owner_pc_def)

text \<open>
  \<open>ow\<close> is the processor between the successful exchange and the store that frees the lock.
\<close>

definition cpu_inv :: "nat option \<Rightarrow> lock_sys \<Rightarrow> nat \<Rightarrow> bool" where
  "cpu_inv ow s c \<longleftrightarrow>
     cli_ok (lcpus s c) \<and> pcs s c \<noteq> Panicked \<and>
     (pcs s c \<noteq> Outside \<longrightarrow> 0 < ncli (lcpus s c)) \<and>
     (owner_pc (pcs s c) \<longleftrightarrow> ow = Some c) \<and>
     (lcpu (lk s) = Some c \<longleftrightarrow> pcs s c = Critical)"

definition lock_inv :: "lock_sys \<Rightarrow> bool" where
  "lock_inv s \<longleftrightarrow> (\<exists>ow. (locked (lk s) \<longleftrightarrow> ow \<noteq> None) \<and> (\<forall>c. cpu_inv ow s c))"

text \<open>\<^verbatim>\<open>holding\<close> leaves the interrupt state as it was when it was consistent.\<close>

lemma holding_eq:
  assumes "cli_ok k" "0 < ncli k"
  shows "holding c l k = Ret (locked l \<and> lcpu l = Some c) k"
  using assms by (auto simp: holding_def popcli_def pushcli_def cli_ok_def Let_def)

lemma lock_inv_init: "(\<And>c. cli_ok (cs c)) \<Longrightarrow> lock_inv (lock_init cs)"
  by (simp add: lock_inv_def cpu_inv_def lock_init_def initlock_def)

lemma acquire_enter_eq:
  assumes "cli_ok k"
  shows "acquire_enter c l k =
    (if locked l \<and> lcpu l = Some c then Panic ''acquire'' else Ret () (pushcli k))"
proof -
  have "cli_ok (pushcli k)" "0 < ncli (pushcli k)"
    using assms by (auto simp: pushcli_ok pushcli_def cli_ok_def Let_def)
  then show ?thesis by (simp add: acquire_enter_def holding_eq)
qed

lemma release_enter_eq:
  assumes "cli_ok k" "0 < ncli k"
  shows "release_enter c l k =
    (if locked l \<and> lcpu l = Some c then Ret (l\<lparr>lcpu := None\<rparr>) k else Panic ''release'')"
  using assms by (simp add: release_enter_def holding_eq)

lemmas lock_defs = goto_def set_cpu_def xchg_locked_def acquire_record_def release_store_def

lemma pushcli_ncli: "cli_ok k \<Longrightarrow> 0 < ncli (pushcli k)"
  by (simp add: pushcli_def Let_def cli_ok_def)

lemma popcli_ok: "popcli k = Ret () k' \<Longrightarrow> cli_ok k \<Longrightarrow> cli_ok k'"
  by (auto simp: popcli_def cli_ok_def Let_def split: if_splits)

lemma lock_step_inv:
  assumes "lock_step s t" "lock_inv s"
  shows "lock_inv t"
proof -
  from assms(2) obtain ow where ow: "locked (lk s) \<longleftrightarrow> ow \<noteq> None" and inv: "\<And>c. cpu_inv ow s c"
    by (auto simp: lock_inv_def)
  have inv': "cli_ok (lcpus s c)" "pcs s c \<noteq> Panicked" "pcs s c \<noteq> Outside \<Longrightarrow> 0 < ncli (lcpus s c)"
    "owner_pc (pcs s c) \<longleftrightarrow> ow = Some c" "lcpu (lk s) = Some c \<longleftrightarrow> pcs s c = Critical" for c
    using inv [of c] by (auto simp: cpu_inv_def)
  show ?thesis
    using assms(1)
  proof cases
    case (enter c k)
    have "k = pushcli (lcpus s c)"
      using enter inv'(1) [of c] by (auto simp: acquire_enter_eq split: if_splits)
    moreover have "cpu_inv ow t d" for d
      using inv' [of d] inv' [of c] enter calculation
      by (auto simp: cpu_inv_def lock_defs pushcli_ok pushcli_ncli)
    ultimately show ?thesis using ow enter by (auto simp: lock_inv_def lock_defs)
  next
    case (enter_panic c m)
    then show ?thesis
      using inv' [of c] by (auto simp: acquire_enter_eq split: if_splits)
  next
    case (spin c l)
    then have "t = s" by (auto simp: xchg_locked_def)
    then show ?thesis using assms(2) by simp
  next
    case (got c l)
    have "cpu_inv (Some c) t d" for d
      using inv' [of d] inv' [of c] got ow by (auto simp: cpu_inv_def lock_defs)
    moreover have "locked (lk t)" using got by (auto simp: lock_defs)
    ultimately show ?thesis by (auto simp: lock_inv_def intro!: exI [of _ "Some c"])
  next
    case (record_holder c)
    have "cpu_inv ow t d" for d
      using inv' [of d] inv' [of c] record_holder by (auto simp: cpu_inv_def lock_defs)
    then show ?thesis using ow record_holder by (auto simp: lock_inv_def lock_defs)
  next
    case (leave c l k)
    then have "l = (lk s)\<lparr>lcpu := None\<rparr>" "k = lcpus s c"
      using inv' [of c] by (auto simp: release_enter_eq split: if_splits)
    moreover have "cpu_inv ow t d" for d
      using inv' [of d] inv' [of c] leave calculation by (auto simp: cpu_inv_def lock_defs)
    ultimately show ?thesis using ow leave by (auto simp: lock_inv_def lock_defs)
  next
    case (leave_panic c m)
    then show ?thesis
      using inv' [of c] ow by (auto simp: release_enter_eq split: if_splits)
  next
    case (store c k)
    have "cli_ok k" using store(3) inv'(1) by (rule popcli_ok)
    then have "cpu_inv None t d" for d
      using inv' [of d] inv' [of c] store by (auto simp: cpu_inv_def lock_defs)
    then show ?thesis using store by (auto simp: lock_inv_def lock_defs)
  next
    case (store_panic c m)
    then show ?thesis
      using inv' [of c] by (auto simp: popcli_def cli_ok_def Let_def split: if_splits)
  qed
qed

lemma lock_reachable_inv:
  assumes "lock_reachable cs s" "\<And>c. cli_ok (cs c)"
  shows "lock_inv s"
  using assms by (induction rule: lock_reachable.induct) (auto intro: lock_inv_init lock_step_inv)

subsection \<open>Properties\<close>

text \<open>
  C6. Spin locks give mutual exclusion. In every state that any number of processors running
  \<^verbatim>\<open>acquire\<close> and \<^verbatim>\<open>release\<close> can reach, at most one processor is between its successful
  exchange and the store that frees the lock; while it is there the lock word is set and its
  interrupts are off; and no processor has panicked.
\<close>

theorem spinlock_mutual_exclusion:
  assumes "lock_reachable cs s" and "\<forall>c. cli_ok (cs c)"
  shows "pcs s c \<noteq> Panicked \<and>
    (owner_pc (pcs s c) \<longrightarrow> locked (lk s) \<and> \<not> eflags_if (lcpus s c) \<and>
      (\<forall>d. owner_pc (pcs s d) \<longrightarrow> d = c))"
proof -
  have "lock_inv s" using assms lock_reachable_inv by blast
  then obtain ow where ow: "locked (lk s) \<longleftrightarrow> ow \<noteq> None" and inv: "\<And>c. cpu_inv ow s c"
    by (auto simp: lock_inv_def)
  have "\<not> eflags_if (lcpus s c)" if "owner_pc (pcs s c)"
    using that inv [of c] by (cases "pcs s c") (auto simp: cpu_inv_def cli_ok_def)
  then show ?thesis
    using ow inv by (auto simp: cpu_inv_def)
qed

text \<open>Two processors with interrupts on: processor 0 enters its critical section.\<close>

definition cpu0 :: cpu where
  "cpu0 = \<lparr>apicid = 0, ncli = 0, intena = False, eflags_if = True\<rparr>"

definition lock_example :: lock_sys where
  "lock_example = goto 0 Critical ((lock_init (\<lambda>_. cpu0))
     \<lparr>lk := \<lparr>locked = True, lcpu = Some 0\<rparr>, lcpus := (\<lambda>_. cpu0)(0 := pushcli cpu0)\<rparr>)"

lemma lock_example_reachable: "lock_reachable (\<lambda>_. cpu0) lock_example"
proof -
  let ?cs = "\<lambda>_ :: nat. cpu0"
  let ?s0 = "lock_init ?cs"
  let ?s1 = "goto 0 Spinning (set_cpu 0 (pushcli cpu0) ?s0)"
  let ?s2 = "goto 0 Recording (?s1\<lparr>lk := (initlock\<lparr>locked := True\<rparr>)\<rparr>)"
  let ?s3 = "goto 0 Critical (?s2\<lparr>lk := acquire_record 0 (lk ?s2)\<rparr>)"
  have "lock_step ?s0 ?s1"
    by (rule lock_step.enter) (simp_all add: lock_init_def acquire_enter_eq cli_ok_def cpu0_def initlock_def)
  moreover have "lock_step ?s1 ?s2"
    by (rule lock_step.got) (simp_all add: lock_init_def lock_defs initlock_def)
  moreover have "lock_step ?s2 ?s3"
    by (rule lock_step.record_holder) (simp add: lock_defs)
  moreover have "?s3 = lock_example"
    by (simp add: lock_example_def lock_init_def lock_defs initlock_def fun_upd_twist)
  ultimately show ?thesis
    by (metis lock_reachable.start lock_reachable.step)
qed

theorem spinlock_mutual_exclusion_witness:
  "locked (lk lock_example) \<and> \<not> eflags_if (lcpus lock_example 0) \<and>
   \<not> owner_pc (pcs lock_example 1)"
proof -
  have "\<forall>c. cli_ok ((\<lambda>_ :: nat. cpu0) c)" by (simp add: cli_ok_def cpu0_def)
  from spinlock_mutual_exclusion [OF lock_example_reachable this, of 0]
  show ?thesis by (auto simp: lock_example_def goto_def lock_init_def)
qed

text \<open>
  C9. \<^verbatim>\<open>pushcli\<close> and \<^verbatim>\<open>popcli\<close> are matched: after \<open>n\<close> calls of the one, \<open>n\<close> calls of the other
  return without a panic and give back the nesting depth and the interrupt flag, and after only
  \<open>k < n\<close> of them interrupts are still off.
\<close>

theorem pushcli_popcli_matched:
  assumes "cli_ok c" and "k < n"
  shows "(\<exists>d. popcli_n n (pushcli_n n c) = Ret () d \<and> ncli d = ncli c \<and> eflags_if d = eflags_if c) \<and>
    (\<exists>d. popcli_n k (pushcli_n n c) = Ret () d \<and> \<not> eflags_if d)"
proof -
  let ?p = "pushcli_n n c"
  have c: "0 \<le> ncli c" "0 < ncli c \<Longrightarrow> \<not> eflags_if c"
    using assms(1) by (auto simp: cli_ok_def)
  have p: "\<not> eflags_if ?p" "ncli ?p = ncli c + int n"
    "intena ?p = (if ncli c = 0 then eflags_if c else intena c)"
    using assms c by (auto simp: pushcli_n_eq)
  have "popcli_n n ?p = Ret () (?p\<lparr>ncli := ncli c, eflags_if := (ncli c = 0 \<and> intena ?p)\<rparr>)"
    using assms c p by (intro popcli_n_eq) auto
  moreover have "\<exists>d. popcli_n k ?p = Ret () d \<and> \<not> eflags_if d"
  proof (cases "k = 0")
    case False
    then show ?thesis
      using assms c p popcli_n_eq [of k ?p "ncli c + int (n - k)"] by auto
  qed (use p in simp)
  ultimately show ?thesis using c p by auto
qed

theorem pushcli_popcli_matched_witness:
  "\<exists>d. popcli_n 3 (pushcli_n 3 cpu0) = Ret () d \<and> ncli d = 0 \<and> eflags_if d"
  using pushcli_popcli_matched [of cpu0 2 3] by (auto simp: cli_ok_def cpu0_def)

end
