(* ===== verification/Kalloc.thy ===== *)
theory Kalloc
  imports Spinlock
begin

section \<open>The physical page allocator (kalloc.c)\<close>

text \<open>
  \<^verbatim>\<open>kmem.freelist\<close> is a list of free 4096-byte pages threaded through the pages themselves: the
  first word of a free page is the address of the next one. The state holds all of memory, the
  list head, the flag \<^verbatim>\<open>use_lock\<close> and the linker's symbols \<^verbatim>\<open>end\<close> and \<^verbatim>\<open>data\<close> (\<open>kend\<close> and
  \<open>kdata\<close>, parameters that no operation writes). The lock of \<^verbatim>\<open>kmem\<close> makes each operation one atomic step.

  The abstraction relation \<open>free_pages s xs\<close> says that the list in memory is \<open>xs\<close>, without
  repetition, every page aligned and inside the range that \<^verbatim>\<open>kfree\<close> accepts. Over it the
  allocator is a stack: \<^verbatim>\<open>kfree\<close> pushes, \<^verbatim>\<open>kalloc\<close> pops, \<^verbatim>\<open>freerange\<close> pushes a whole range. The
  locale \<open>page_allocator\<close> states this as an interface and derives what its clients use.
\<close>

subsection \<open>Addresses (mmu.h, memlayout.h)\<close>

abbreviation (input) PGSIZE :: addr where "PGSIZE \<equiv> 4096"
abbreviation (input) KERNBASE :: addr where "KERNBASE \<equiv> 0x80000000"
abbreviation (input) PHYSTOP :: addr where "PHYSTOP \<equiv> 0xE000000"

definition V2P :: "addr \<Rightarrow> addr" where "V2P a = a - KERNBASE"

definition P2V :: "addr \<Rightarrow> addr" where "P2V a = a + KERNBASE"

definition PGROUNDUP :: "addr \<Rightarrow> addr" where
  "PGROUNDUP sz = (sz + PGSIZE - 1) AND NOT (PGSIZE - 1)"

definition PGROUNDDOWN :: "addr \<Rightarrow> addr" where
  "PGROUNDDOWN a = a AND NOT (PGSIZE - 1)"

lemma page_mask: "PGSIZE - 1 = mask 12"
  by (simp add: mask_eq_decr_exp)

lemma unat_PGROUNDDOWN: "unat (PGROUNDDOWN a) = 4096 * (unat a div 4096)"
proof -
  have "PGROUNDDOWN a = push_bit 12 (drop_bit 12 a)"
    unfolding PGROUNDDOWN_def page_mask
    by (rule bit_word_eqI) (auto simp: bit_simps)
  moreover have "take_bit 32 (unat a) = unat a"
    using unsigned_less [of a, where ?'a = nat] by (simp add: take_bit_nat_eq_self)
  ultimately have "unat (PGROUNDDOWN a) = take_bit 32 (push_bit 12 (drop_bit 12 (unat a)))"
    by (simp add: unsigned_push_bit_eq unsigned_drop_bit_eq)
  also have "\<dots> = take_bit 32 (4096 * (unat a div 4096))"
    by (simp add: push_bit_eq_mult drop_bit_eq_div mult.commute)
  also have "\<dots> = 4096 * (unat a div 4096)"
  proof -
    have "4096 * (unat a div 4096) \<le> unat a" by simp
    also have "unat a < 2 ^ 32" using unsigned_less [of a, where ?'a = nat] by simp
    finally show ?thesis by (simp add: take_bit_nat_eq_self)
  qed
  finally show ?thesis .
qed

lemma unat_PGROUNDUP:
  assumes "unat a + 4095 < 2 ^ 32"
  shows "unat (PGROUNDUP a) = 4096 * ((unat a + 4095) div 4096)"
proof -
  have "PGROUNDUP a = PGROUNDDOWN (a + 4095)"
    by (simp add: PGROUNDUP_def PGROUNDDOWN_def algebra_simps)
  moreover have "unat (a + 4095) = unat a + 4095"
    using assms by (simp add: unat_word_ariths)
  ultimately show ?thesis by (simp add: unat_PGROUNDDOWN)
qed

lemma page_aligned_iff: "v mod PGSIZE = 0 \<longleftrightarrow> unat v mod 4096 = 0"
  by (simp add: word_unat_eq_iff unat_mod)

subsection \<open>State and operations\<close>

record kmem_st =
  mem :: memory
  use_lock :: bool
  freelist :: addr
  kend :: addr
  kdata :: addr

definition kfree :: "addr \<Rightarrow> kmem_st \<Rightarrow> (unit, kmem_st) res" where
  "kfree v s =
     (if v mod PGSIZE \<noteq> 0 \<or> v < kend s \<or> V2P v \<ge> PHYSTOP then Panic ''kfree''
      else let m = memset (mem s) v 1 PGSIZE;
               m = store32 m v (freelist s)
           in Ret () (s\<lparr>mem := m, freelist := v\<rparr>))"

definition kalloc :: "kmem_st \<Rightarrow> addr \<times> kmem_st" where
  "kalloc s =
     (let r = freelist s
      in if r \<noteq> 0 then (r, s\<lparr>freelist := load32 (mem s) r\<rparr>) else (r, s))"

text \<open>
  The loop of \<^verbatim>\<open>freerange\<close> ends because \<^verbatim>\<open>kfree\<close> panics on addresses from \<^verbatim>\<open>PHYSTOP\<close> up, so the
  pointer cannot wrap around.
\<close>

function freerange_loop :: "addr \<Rightarrow> addr \<Rightarrow> kmem_st \<Rightarrow> (unit, kmem_st) res" where
  "freerange_loop p vend s =
     (if p + PGSIZE \<le> vend
      then rbind (kfree p s) (\<lambda>_ s. freerange_loop (p + PGSIZE) vend s)
      else Ret () s)"
  by pat_completeness auto
termination
proof (relation "measure (\<lambda>(p, vend, s). 2 ^ 32 - unat p)", goal_cases)
  case (2 p vend s u s')
  then have "V2P p < PHYSTOP" by (auto simp: kfree_def Let_def split: if_splits)
  then have "unat p < 0x8E000000"
    by (simp add: V2P_def) unat_arith
  then show ?case by (simp add: unat_word_ariths)
qed simp

declare freerange_loop.simps [simp del]

definition freerange :: "addr \<Rightarrow> addr \<Rightarrow> kmem_st \<Rightarrow> (unit, kmem_st) res" where
  "freerange vstart vend s = freerange_loop (PGROUNDUP vstart) vend s"

definition kinit1 :: "addr \<Rightarrow> addr \<Rightarrow> kmem_st \<Rightarrow> (unit, kmem_st) res" where
  "kinit1 vstart vend s = freerange vstart vend (s\<lparr>use_lock := False\<rparr>)"

definition kinit2 :: "addr \<Rightarrow> addr \<Rightarrow> kmem_st \<Rightarrow> (unit, kmem_st) res" where
  "kinit2 vstart vend s =
     rbind (freerange vstart vend s) (\<lambda>_ s. Ret () (s\<lparr>use_lock := True\<rparr>))"

subsection \<open>The free list as a list of pages\<close>

fun chain :: "memory \<Rightarrow> addr \<Rightarrow> addr list \<Rightarrow> bool" where
  "chain m p [] \<longleftrightarrow> p = 0"
| "chain m p (x # xs) \<longleftrightarrow> p = x \<and> x \<noteq> 0 \<and> chain m (load32 m x) xs"

definition page_ok :: "kmem_st \<Rightarrow> addr \<Rightarrow> bool" where
  "page_ok s v \<longleftrightarrow> v mod PGSIZE = 0 \<and> kend s \<le> v \<and> V2P v < PHYSTOP"

definition free_pages :: "kmem_st \<Rightarrow> addr list \<Rightarrow> bool" where
  "free_pages s xs \<longleftrightarrow> chain (mem s) (freelist s) xs \<and> distinct xs \<and> (\<forall>x\<in>set xs. page_ok s x)"

definition in_page :: "addr \<Rightarrow> addr \<Rightarrow> bool" where
  "in_page v a \<longleftrightarrow> in_region v 4096 a"

lemma in_page_div:
  assumes "v mod PGSIZE = 0"
  shows "in_page v a \<longleftrightarrow> unat a div 4096 = unat v div 4096"
proof -
  have v: "unat v mod 4096 = 0"
    using assms unat_mod [of v PGSIZE] by simp
  have v_eq: "4096 * (unat v div 4096) = unat v" and a_eq: "4096 * (unat a div 4096) + unat a mod 4096 = unat a"
    using v mult_div_mod_eq [of 4096 "unat v"] mult_div_mod_eq [of 4096 "unat a"] by simp_all
  have mod: "unat a mod 4096 < 4096" by simp
  have "unat v < 4096 * 1048576" and "unat a < 4096 * 1048576"
    using unsigned_less [of v, where ?'a = nat] unsigned_less [of a, where ?'a = nat] by simp_all
  then have lt: "unat v div 4096 < 1048576" "unat a div 4096 < 1048576"
    by (simp_all add: div_less_iff_less_mult)
  show ?thesis
  proof (cases "v \<le> a")
    case True
    then have "unat (a - v) = unat a - unat v" and "unat v \<le> unat a"
      by (auto simp: unat_sub word_le_nat_alt)
    then show ?thesis
      using v_eq a_eq mod unfolding in_page_def in_region_def by linarith
  next
    case False
    then have "unat (a - v) = unat a + 4096 * 1048576 - unat v" and "unat a < unat v"
      using unat_sub_if' [of a v] by (auto simp: word_le_nat_alt)
    then show ?thesis
      using v_eq a_eq mod lt unfolding in_page_def in_region_def by linarith
  qed
qed

lemma page_ok_nonzero: "page_ok s v \<Longrightarrow> v \<noteq> 0"
  by (auto simp: page_ok_def V2P_def)

lemma pages_disjoint:
  assumes "page_ok s v" "page_ok s x" "in_page v a" "in_page x a"
  shows "v = x"
proof -
  have "unat v div 4096 = unat x div 4096"
    using assms by (simp add: page_ok_def in_page_div)
  moreover have "unat v mod 4096 = 0" "unat x mod 4096 = 0"
    using assms unat_mod [of v PGSIZE] unat_mod [of x PGSIZE] by (simp_all add: page_ok_def)
  ultimately show ?thesis
    by (metis mult_div_mod_eq word_unat_eq_iff)
qed

lemma in_region_mono: "in_region d n a \<Longrightarrow> n \<le> k \<Longrightarrow> in_region d k a"
  by (simp add: in_region_def)

lemma page_head: "in_region v 4 a \<Longrightarrow> in_page v a"
  unfolding in_page_def by (erule in_region_mono) simp

lemma chain_cong:
  assumes "\<And>x. x \<in> set xs \<Longrightarrow> load32 m x = load32 m' x"
  shows "chain m p xs = chain m' p xs"
  using assms by (induction xs arbitrary: p) auto

text \<open>Writing outside the free pages leaves the free list alone.\<close>

lemma free_pages_frame:
  assumes "free_pages s xs" "\<And>x a. x \<in> set xs \<Longrightarrow> in_page x a \<Longrightarrow> m a = mem s a"
  shows "free_pages (s\<lparr>mem := m\<rparr>) xs"
proof -
  have "load32 m x = load32 (mem s) x" if "x \<in> set xs" for x
    using assms(2) [OF that] page_head by (intro load32_cong) auto
  then have "chain m (freelist s) xs = chain (mem s) (freelist s) xs"
    by (rule chain_cong)
  then show ?thesis
    using assms(1) by (simp add: free_pages_def page_ok_def)
qed

text \<open>What \<^verbatim>\<open>kfree\<close> does to memory: the link in the first word, 1 in every other byte.\<close>

lemma kfree_Ret:
  assumes "page_ok s v"
  shows "kfree v s = Ret () (s\<lparr>mem := store32 (memset (mem s) v 1 PGSIZE) v (freelist s), freelist := v\<rparr>)"
  using assms by (simp add: kfree_def page_ok_def Let_def linorder_not_less linorder_not_le)

lemma kfree_panics: "\<not> page_ok s v \<Longrightarrow> kfree v s = Panic ''kfree''"
  unfolding kfree_def page_ok_def by (simp only: de_Morgan_conj not_le not_less if_True)

lemma kfree_mem_other:
  assumes "\<not> in_page v a"
  shows "store32 (memset m v 1 PGSIZE) v l a = m a"
proof -
  have "\<not> in_region v 4 a" using assms page_head by blast
  then show ?thesis using assms by (simp add: store32_other memset_eq in_page_def)
qed

lemma kfree_pushes:
  assumes "free_pages s xs" "page_ok s v" "v \<notin> set xs"
  shows "\<exists>s'. kfree v s = Ret () s' \<and> free_pages s' (v # xs) \<and> kend s' = kend s \<and>
    use_lock s' = use_lock s"
proof -
  let ?m = "store32 (memset (mem s) v 1 PGSIZE) v (freelist s)"
  have "free_pages (s\<lparr>mem := ?m\<rparr>) xs"
    using assms pages_disjoint [of s v]
    by (intro free_pages_frame) (auto simp: free_pages_def intro!: kfree_mem_other)
  then have "free_pages (s\<lparr>mem := ?m, freelist := v\<rparr>) (v # xs)"
    using assms page_ok_nonzero [of s v] by (auto simp: free_pages_def page_ok_def)
  then show ?thesis using kfree_Ret [OF assms(2)] by auto
qed

lemma kalloc_pops: "free_pages s (x # xs) \<Longrightarrow> kalloc s = (x, s\<lparr>freelist := load32 (mem s) x\<rparr>) \<and>
    free_pages (s\<lparr>freelist := load32 (mem s) x\<rparr>) xs"
  by (auto simp: free_pages_def kalloc_def Let_def page_ok_def)

lemma kalloc_empty: "free_pages s [] \<Longrightarrow> kalloc s = (0, s)"
  by (simp add: free_pages_def kalloc_def Let_def)

subsection \<open>The allocator's interface\<close>

fun alloc_list :: "('s \<Rightarrow> addr \<times> 's) \<Rightarrow> nat \<Rightarrow> 's \<Rightarrow> addr list \<times> 's" where
  "alloc_list alloc 0 s = ([], s)"
| "alloc_list alloc (Suc n) s =
     (let (x, s) = alloc s; (xs, s) = alloc_list alloc n s in (x # xs, s))"

text \<open>
  \<open>pages s xs\<close> is the abstract view of a state (the free pages, next one first) and
  \<open>valid v\<close> says which addresses may be handed back.
\<close>

locale page_allocator =
  fixes alloc :: "'s \<Rightarrow> addr \<times> 's"
    and free :: "addr \<Rightarrow> 's \<Rightarrow> (unit, 's) res"
    and pages :: "'s \<Rightarrow> addr list \<Rightarrow> bool"
    and valid :: "'s \<Rightarrow> addr \<Rightarrow> bool"
  assumes pages_ok: "pages s xs \<Longrightarrow> distinct xs \<and> (\<forall>x\<in>set xs. valid s x \<and> x \<noteq> 0)"
    and alloc_empty: "pages s [] \<Longrightarrow> alloc s = (0, s)"
    and alloc_pops: "pages s (x # xs) \<Longrightarrow> \<exists>s'. alloc s = (x, s') \<and> pages s' xs \<and> valid s' = valid s"
    and free_pushes: "pages s xs \<Longrightarrow> valid s v \<Longrightarrow> v \<notin> set xs \<Longrightarrow>
      \<exists>s'. free v s = Ret () s' \<and> pages s' (v # xs) \<and> valid s' = valid s"
begin

lemma alloc_cases:
  assumes "pages s xs"
  shows "fst (alloc s) = 0 \<longleftrightarrow> xs = []"
proof (cases xs)
  case Nil
  then show ?thesis using assms alloc_empty by simp
next
  case (Cons x ys)
  then show ?thesis using assms alloc_pops [of s x ys] pages_ok [of s xs] by auto
qed

lemma alloc_list_pops:
  assumes "pages s xs" "n \<le> length xs"
  shows "\<exists>s'. alloc_list alloc n s = (take n xs, s') \<and> pages s' (drop n xs) \<and> valid s' = valid s"
  using assms
proof (induction n arbitrary: s xs)
  case (Suc n)
  then obtain x ys where xs: "xs = x # ys" by (cases xs) auto
  then obtain s' where s': "alloc s = (x, s')" "pages s' ys" "valid s' = valid s"
    using alloc_pops Suc.prems(1) by blast
  then obtain s'' where "alloc_list alloc n s' = (take n ys, s'')" "pages s'' (drop n ys)"
      "valid s'' = valid s'"
    using Suc.IH [of s' ys] Suc.prems xs by auto
  then show ?case using s' xs by simp
qed simp

lemma alloc_list_distinct:
  assumes "pages s xs" "n \<le> length xs"
  shows "distinct (fst (alloc_list alloc n s))" "0 \<notin> set (fst (alloc_list alloc n s))"
    "set (fst (alloc_list alloc n s)) \<subseteq> set xs"
  using alloc_list_pops [OF assms] pages_ok [OF assms(1)] set_take_subset [of n xs]
  by (auto simp: distinct_take)

lemma free_then_alloc:
  assumes "pages s xs" "valid s v" "v \<notin> set xs"
  shows "\<exists>s' s''. free v s = Ret () s' \<and> alloc s' = (v, s'') \<and> pages s'' xs"
  using free_pushes [OF assms] alloc_pops by blast

lemma alloc_then_free:
  assumes "pages s (x # xs)"
  shows "\<exists>s' s''. alloc s = (x, s') \<and> free x s' = Ret () s'' \<and> pages s'' (x # xs)"
proof -
  obtain s' where s': "alloc s = (x, s')" "pages s' xs" "valid s' = valid s"
    using alloc_pops [OF assms] by blast
  moreover have "valid s' x" "x \<notin> set xs" using pages_ok [OF assms] s' by auto
  ultimately show ?thesis using free_pushes by blast
qed

end

interpretation km: page_allocator kalloc kfree free_pages page_ok
proof
  fix s :: kmem_st and x v xs
  show "free_pages s xs \<Longrightarrow> distinct xs \<and> (\<forall>x\<in>set xs. page_ok s x \<and> x \<noteq> 0)"
    using page_ok_nonzero by (auto simp: free_pages_def)
  show "free_pages s [] \<Longrightarrow> kalloc s = (0, s)"
    by (rule kalloc_empty)
  show "\<exists>s'. kalloc s = (x, s') \<and> free_pages s' xs \<and> page_ok s' = page_ok s"
    if "free_pages s (x # xs)"
    using kalloc_pops [OF that] by (auto simp: page_ok_def)
  show "\<exists>s'. kfree v s = Ret () s' \<and> free_pages s' (v # xs) \<and> page_ok s' = page_ok s"
    if "free_pages s xs" "page_ok s v" "v \<notin> set xs"
    using kfree_pushes [OF that] by (auto simp: page_ok_def fun_eq_iff)
qed

subsection \<open>Freeing a range\<close>

text \<open>The pages \<open>p\<close>, \<open>p + 4096\<close>, \dots\ of a range, in the order in which they are freed.\<close>

definition page_seq :: "addr \<Rightarrow> nat \<Rightarrow> addr list" where
  "page_seq p n = map (\<lambda>i. p + PGSIZE * of_nat i) [0..<n]"

lemma page_seq_Suc: "page_seq p (Suc n) = p # page_seq (p + PGSIZE) n"
proof -
  have "[0..<Suc n] = 0 # map Suc [0..<n]"
    by (simp add: map_Suc_upt upt_conv_Cons del: upt_Suc)
  then show ?thesis by (simp add: page_seq_def comp_def algebra_simps del: upt_Suc)
qed

lemma freerange_loop_pushes:
  assumes "free_pages s xs" "\<forall>x\<in>set (page_seq p n). page_ok s x \<and> x \<notin> set xs"
    "unat p + 4096 * n \<le> unat vend" "unat vend < unat p + 4096 * Suc n"
    "distinct (page_seq p n)" "unat p + 4096 * Suc n < 2 ^ 32"
  shows "\<exists>s'. freerange_loop p vend s = Ret () s' \<and> free_pages s' (rev (page_seq p n) @ xs) \<and>
    use_lock s' = use_lock s"
  using assms
proof (induction n arbitrary: p s xs)
  case 0
  then have "\<not> p + PGSIZE \<le> vend"
    using unat_word_ariths(1) [of p PGSIZE] by (auto simp: word_le_nat_alt mod_if)
  with 0 show ?case by (simp add: freerange_loop.simps page_seq_def)
next
  case (Suc n)
  have p: "page_ok s p" "p \<notin> set xs" using Suc.prems by (auto simp: page_seq_Suc)
  obtain s1 where s1: "kfree p s = Ret () s1" "free_pages s1 (p # xs)" "kend s1 = kend s"
      "use_lock s1 = use_lock s"
    using kfree_pushes [OF Suc.prems(1) p] by blast
  have ok: "page_ok s1 = page_ok s" using s1(3) by (simp add: page_ok_def fun_eq_iff)
  have next_p: "unat (p + PGSIZE) = unat p + 4096"
    using Suc.prems(6) by (simp add: unat_word_ariths)
  then have "p + PGSIZE \<le> vend"
    using Suc.prems(3) by (simp add: word_le_nat_alt)
  then have "freerange_loop p vend s = freerange_loop (p + PGSIZE) vend s1"
    using s1(1) by (simp add: freerange_loop.simps [of p])
  moreover have "\<exists>s'. freerange_loop (p + PGSIZE) vend s1 = Ret () s' \<and>
      free_pages s' (rev (page_seq (p + PGSIZE) n) @ p # xs) \<and> use_lock s' = use_lock s1"
    using Suc.prems s1(2) next_p ok by (intro Suc.IH) (auto simp: page_seq_Suc)
  ultimately show ?case using s1(4) by (simp add: page_seq_Suc)
qed

lemma unat_page_seq:
  assumes "unat p + 4096 * n < 2 ^ 32" "i \<le> n"
  shows "unat (p + PGSIZE * of_nat i) = unat p + 4096 * i"
proof -
  have i: "4096 * i < 2 ^ 32" "unat p + 4096 * i < 2 ^ 32" "i < 2 ^ 32" using assms by auto
  then have "unat (PGSIZE * of_nat i) = 4096 * i"
    by (simp add: unat_word_ariths unat_of_nat)
  then show ?thesis using i by (simp add: unat_word_ariths)
qed

text \<open>
  \<^verbatim>\<open>freerange\<close> puts exactly the whole pages between its bounds on the free list.
\<close>

lemma freerange_pushes:
  assumes "free_pages s xs" "kend s \<le> vstart" "KERNBASE \<le> kend s"
    "vstart \<le> vend" "PGROUNDUP vstart \<le> vend" "vend \<le> P2V PHYSTOP"
    "\<forall>x\<in>set xs. x < vstart \<or> vend \<le> x"
  shows "\<exists>s'. freerange vstart vend s = Ret () s' \<and> use_lock s' = use_lock s \<and>
    free_pages s' (rev (page_seq (PGROUNDUP vstart) ((unat vend - unat (PGROUNDUP vstart)) div 4096)) @ xs)"
proof -
  let ?p = "PGROUNDUP vstart"
  define n where "n = (unat vend - unat ?p) div 4096"
  have n: "4096 * n \<le> unat vend - unat ?p" "unat vend - unat ?p < 4096 * Suc n"
    by (simp_all add: n_def)
  have vend: "unat vend \<le> 0x8E000000" and pv: "unat ?p \<le> unat vend"
    using assms(5,6) by (simp_all add: P2V_def word_le_nat_alt)
  have vs: "unat vstart \<le> 0x8E000000"
    using assms(4) vend by (simp add: word_le_nat_alt)
  have up: "unat ?p = 4096 * ((unat vstart + 4095) div 4096)"
    using vs by (intro unat_PGROUNDUP) simp
  then have le: "unat vstart \<le> unat ?p" by simp
  have seq: "unat (?p + PGSIZE * of_nat i) = unat ?p + 4096 * i" if "i < n" for i
    using that n vend pv by (intro unat_page_seq [of _ n]) auto
  have "page_ok s x \<and> x \<notin> set xs" if x_in: "x \<in> set (page_seq ?p n)" for x
  proof -
    obtain i where i: "i < n" "x = ?p + PGSIZE * of_nat i"
      using x_in by (auto simp: page_seq_def)
    then have x: "unat x = unat ?p + 4096 * i" using seq by simp
    have "unat x mod 4096 = 0" using x up by simp
    moreover have ge: "unat vstart \<le> unat x" "unat x + 4096 \<le> unat vend"
      using x le i n pv by auto
    moreover have "unat (kend s) \<le> unat x" "0x80000000 \<le> unat x"
      using ge assms(2,3) by (simp_all add: word_le_nat_alt)
    moreover have "unat (V2P x) = unat x - 0x80000000"
      using calculation(5) by (simp add: V2P_def unat_sub word_le_nat_alt)
    ultimately have "page_ok s x"
      using vend by (simp add: page_ok_def page_aligned_iff word_le_nat_alt word_less_nat_alt)
    moreover have "x \<notin> set xs"
      using assms(7) ge by (auto simp: word_le_nat_alt word_less_nat_alt)
    ultimately show ?thesis by simp
  qed
  moreover have "distinct (page_seq ?p n)"
    unfolding page_seq_def distinct_map
    using seq by (auto simp: inj_on_def) (metis add_left_cancel mult_cancel1 zero_neq_numeral)
  ultimately have "\<exists>s'. freerange_loop ?p vend s = Ret () s' \<and>
      free_pages s' (rev (page_seq ?p n) @ xs) \<and> use_lock s' = use_lock s"
    using assms(1) n vend pv by (intro freerange_loop_pushes) auto
  then show ?thesis by (auto simp: freerange_def n_def)
qed

subsection \<open>Properties\<close>

text \<open>
  C8. After \<^verbatim>\<open>freerange\<close> has given a range of memory to the allocator, any number of \<^verbatim>\<open>kalloc\<close>
  calls up to the number of whole pages in the range return pairwise different, non-null, page
  aligned pages of that range, last freed first, and the call after the last page returns null.
\<close>

theorem freerange_then_kalloc:
  assumes "free_pages s []" "kend s \<le> vstart" "KERNBASE \<le> kend s"
    "vstart \<le> vend" "PGROUNDUP vstart \<le> vend" "vend \<le> P2V PHYSTOP"
    "n = (unat vend - unat (PGROUNDUP vstart)) div 4096" "k \<le> n"
  shows "\<exists>s' s'' got. freerange vstart vend s = Ret () s' \<and> alloc_list kalloc k s' = (got, s'') \<and>
    got = take k (rev (page_seq (PGROUNDUP vstart) n)) \<and> length got = k \<and> distinct got \<and>
    (\<forall>x\<in>set got. page_ok s'' x \<and> x \<noteq> 0) \<and> (fst (kalloc s'') = 0 \<longleftrightarrow> k = n)"
proof -
  let ?xs = "rev (page_seq (PGROUNDUP vstart) n)"
  obtain s' where s': "freerange vstart vend s = Ret () s'" "free_pages s' ?xs"
    using freerange_pushes [OF assms(1-6)] assms(7) by auto
  have len: "length ?xs = n" by (simp add: page_seq_def)
  then obtain s'' where s'': "alloc_list kalloc k s' = (take k ?xs, s'')" "free_pages s'' (drop k ?xs)"
      "page_ok s'' = page_ok s'"
    using km.alloc_list_pops [OF s'(2), of k] assms(8) by auto
  have "distinct ?xs" "\<forall>x\<in>set ?xs. page_ok s' x \<and> x \<noteq> 0"
    using km.pages_ok [OF s'(2)] by auto
  then have "distinct (take k ?xs)" "\<forall>x\<in>set (take k ?xs). page_ok s'' x \<and> x \<noteq> 0"
    using s''(3) set_take_subset [of k ?xs] by auto
  then show ?thesis
    using s' s'' len assms(8) km.alloc_cases [OF s''(2)] by auto
qed

definition kmem_example :: kmem_st where
  "kmem_example = \<lparr>mem = (\<lambda>a. 0), use_lock = False, freelist = 0,
     kend = 0x80100000, kdata = 0x80100000\<rparr>"

theorem freerange_then_kalloc_witness:
  "\<exists>s' s'' got. freerange 0x80100000 0x80104000 kmem_example = Ret () s' \<and>
    alloc_list kalloc 3 s' = (got, s'') \<and> length got = 3 \<and> distinct got \<and> fst (kalloc s'') \<noteq> 0"
proof -
  have up: "PGROUNDUP 0x80100000 = 0x80100000" and top: "P2V PHYSTOP = 0x8E000000"
    by (simp_all add: PGROUNDUP_def P2V_def)
  have "free_pages kmem_example []" "kend kmem_example = 0x80100000"
    by (simp_all add: kmem_example_def free_pages_def)
  then have "\<exists>s' s'' got. freerange 0x80100000 0x80104000 kmem_example = Ret () s' \<and>
      alloc_list kalloc 3 s' = (got, s'') \<and> got = take 3 (rev (page_seq (PGROUNDUP 0x80100000) 4)) \<and>
      length got = 3 \<and> distinct got \<and> (\<forall>x\<in>set got. page_ok s'' x \<and> x \<noteq> 0) \<and>
      (fst (kalloc s'') = 0 \<longleftrightarrow> 3 = (4 :: nat))"
    by (intro freerange_then_kalloc) (simp_all add: up top)
  then show ?thesis by auto
qed

end
