(* ===== verification/Vm.thy ===== *)
theory Vm
  imports Kalloc
begin

section \<open>Page tables and user memory (vm.c)\<close>

text \<open>
  Page directories and page tables are pages of the allocator's memory, read and written as
  32-bit entries. Every routine of \<^verbatim>\<open>vm.c\<close> that touches them is a function over the allocator's
  state. Return codes are the C ones (0 and -1, sizes, addresses with 0 for a null pointer).

  The loops over pages advance a 32-bit address by a page per round; where the address would
  wrap around the model says \<^const>\<open>Diverge\<close>. The callers keep every bound below \<^verbatim>\<open>KERNBASE\<close>, so
  this is never reached from them.
\<close>

subsection \<open>Entries (mmu.h)\<close>

abbreviation (input) PTE_P :: "32 word" where "PTE_P \<equiv> 1"
abbreviation (input) PTE_W :: "32 word" where "PTE_W \<equiv> 2"
abbreviation (input) PTE_U :: "32 word" where "PTE_U \<equiv> 4"

definition PDX :: "addr \<Rightarrow> 32 word" where "PDX va = drop_bit 22 va AND 0x3FF"

definition PTX :: "addr \<Rightarrow> 32 word" where "PTX va = drop_bit 12 va AND 0x3FF"

definition PGADDR :: "32 word \<Rightarrow> 32 word \<Rightarrow> 32 word \<Rightarrow> addr" where
  "PGADDR d t off = push_bit 22 d OR push_bit 12 t OR off"

definition PTE_ADDR :: "32 word \<Rightarrow> addr" where "PTE_ADDR pte = pte AND NOT 0xFFF"

definition PTE_FLAGS :: "32 word \<Rightarrow> 32 word" where "PTE_FLAGS pte = pte AND 0xFFF"

subsection \<open>Walking and mapping\<close>

abbreviation (input) set_mem :: "memory \<Rightarrow> kmem_st \<Rightarrow> kmem_st" where
  "set_mem m s \<equiv> s\<lparr>mem := m\<rparr>"

definition walkpgdir :: "addr \<Rightarrow> addr \<Rightarrow> bool \<Rightarrow> kmem_st \<Rightarrow> addr \<times> kmem_st" where
  "walkpgdir pgdir va alloc s =
     (let pde = pgdir + 4 * PDX va;
          e = load32 (mem s) pde
      in if e AND PTE_P \<noteq> 0 then (P2V (PTE_ADDR e) + 4 * PTX va, s)
         else if \<not> alloc then (0, s)
         else let (pgtab, s) = kalloc s
              in if pgtab = 0 then (0, s)
                 else let s = set_mem (memset (mem s) pgtab 0 PGSIZE) s;
                          s = set_mem (store32 (mem s) pde (V2P pgtab OR PTE_P OR PTE_W OR PTE_U)) s
                      in (pgtab + 4 * PTX va, s))"

text \<open>
  The loop of \<^verbatim>\<open>mappages\<close> leaves at \<^verbatim>\<open>a == last\<close>. Both addresses are page aligned, so this is
  after exactly \<open>n\<close> more pages, the counter of the recursion.
\<close>

fun mappages_loop :: "addr \<Rightarrow> addr \<Rightarrow> addr \<Rightarrow> 32 word \<Rightarrow> nat \<Rightarrow> kmem_st \<Rightarrow> (int, kmem_st) res" where
  "mappages_loop pgdir a pa perm n s =
     (let (pte, s) = walkpgdir pgdir a True s
      in if pte = 0 then Ret (-1) s
         else if load32 (mem s) pte AND PTE_P \<noteq> 0 then Panic ''remap''
         else let s = set_mem (store32 (mem s) pte (pa OR perm OR PTE_P)) s
              in case n of
                   0 \<Rightarrow> Ret 0 s
                 | Suc k \<Rightarrow> mappages_loop pgdir (a + PGSIZE) (pa + PGSIZE) perm k s)"

declare mappages_loop.simps [simp del]

definition mappages :: "addr \<Rightarrow> addr \<Rightarrow> 32 word \<Rightarrow> addr \<Rightarrow> 32 word \<Rightarrow> kmem_st \<Rightarrow> (int, kmem_st) res" where
  "mappages pgdir va sz pa perm s =
     (let a = PGROUNDDOWN va; last = PGROUNDDOWN (va + sz - 1)
      in mappages_loop pgdir a pa perm (unat (last - a) div 4096) s)"

subsection \<open>Freeing\<close>

function deallocuvm_loop :: "addr \<Rightarrow> addr \<Rightarrow> addr \<Rightarrow> kmem_st \<Rightarrow> (unit, kmem_st) res" where
  "deallocuvm_loop pgdir a oldsz s =
     (if a < oldsz then
        let (pte, s) = walkpgdir pgdir a False s
        in if pte = 0 then
             (let a' = PGADDR (PDX a + 1) 0 0 - PGSIZE + PGSIZE
              in if a' \<le> a then Diverge else deallocuvm_loop pgdir a' oldsz s)
           else if load32 (mem s) pte AND PTE_P \<noteq> 0 then
             (let pa = PTE_ADDR (load32 (mem s) pte)
              in if pa = 0 then Panic ''kfree''
                 else rbind (kfree (P2V pa) s) (\<lambda>_ s.
                   let s = set_mem (store32 (mem s) pte 0) s
                   in if a + PGSIZE \<le> a then Diverge
                      else deallocuvm_loop pgdir (a + PGSIZE) oldsz s))
           else (if a + PGSIZE \<le> a then Diverge
                 else deallocuvm_loop pgdir (a + PGSIZE) oldsz s)
      else Ret () s)"
  by pat_completeness auto
termination
  by (relation "measure (\<lambda>(pgdir, a, oldsz, s). 2 ^ 32 - unat a)")
    (auto simp: word_less_nat_alt not_le intro!: diff_less_mono2 unsigned_less [where ?'a = nat and ?'b = 32, simplified])

declare deallocuvm_loop.simps [simp del]

definition deallocuvm :: "addr \<Rightarrow> addr \<Rightarrow> addr \<Rightarrow> kmem_st \<Rightarrow> (addr, kmem_st) res" where
  "deallocuvm pgdir oldsz newsz s =
     (if newsz \<ge> oldsz then Ret oldsz s
      else rbind (deallocuvm_loop pgdir (PGROUNDUP newsz) oldsz s) (\<lambda>_ s. Ret newsz s))"

definition freevm :: "addr \<Rightarrow> kmem_st \<Rightarrow> (unit, kmem_st) res" where
  "freevm pgdir s =
     (if pgdir = 0 then Panic ''freevm: no pgdir''
      else rbind (deallocuvm pgdir KERNBASE 0 s) (\<lambda>_ s.
        rbind (for_each (\<lambda>i s.
            let e = load32 (mem s) (pgdir + 4 * of_nat i)
            in if e AND PTE_P \<noteq> 0 then kfree (P2V (PTE_ADDR e)) s else Ret () s)
          [0..<1024] s) (\<lambda>_ s.
        kfree pgdir s)))"

subsection \<open>The kernel's part of a page table\<close>

text \<open>The table \<^verbatim>\<open>kmap[]\<close>: virtual address, physical start and end, permissions.\<close>

definition kmap :: "kmem_st \<Rightarrow> (addr \<times> addr \<times> addr \<times> 32 word) list" where
  "kmap s =
     [(KERNBASE, 0, 0x100000, PTE_W),
      (KERNBASE + 0x100000, V2P (KERNBASE + 0x100000), V2P (kdata s), 0),
      (kdata s, V2P (kdata s), PHYSTOP, PTE_W),
      (0xFE000000, 0xFE000000, 0, PTE_W)]"

fun setupkvm_loop :: "addr \<Rightarrow> (addr \<times> addr \<times> addr \<times> 32 word) list \<Rightarrow> kmem_st \<Rightarrow> (addr, kmem_st) res" where
  "setupkvm_loop pgdir [] s = Ret pgdir s"
| "setupkvm_loop pgdir ((virt, phys_start, phys_end, perm) # ks) s =
     rbind (mappages pgdir virt (phys_end - phys_start) phys_start perm s) (\<lambda>r s.
       if r < 0 then rbind (freevm pgdir s) (\<lambda>_ s. Ret 0 s)
       else setupkvm_loop pgdir ks s)"

definition setupkvm :: "kmem_st \<Rightarrow> (addr, kmem_st) res" where
  "setupkvm s =
     (let (pgdir, s) = kalloc s
      in if pgdir = 0 then Ret 0 s
         else let s = set_mem (memset (mem s) pgdir 0 PGSIZE) s
              in if P2V PHYSTOP > 0xFE000000 then Panic ''PHYSTOP too high''
                 else setupkvm_loop pgdir (kmap s) s)"

subsection \<open>Processor registers that select an address space\<close>

record hw =
  cr3 :: addr
  ts_ss0 :: "32 word"
  ts_esp0 :: addr
  ts_iomb :: "16 word"
  tr :: "32 word"

definition switchkvm :: "addr \<Rightarrow> hw \<Rightarrow> hw" where
  "switchkvm kpgdir h = h\<lparr>cr3 := V2P kpgdir\<rparr>"

text \<open>
  \<^verbatim>\<open>switchuvm(p, t)\<close>, given whether \<open>p\<close> is null, \<^verbatim>\<open>t->kstack\<close> and \<^verbatim>\<open>p->pgdir\<close>.
\<close>

definition switchuvm :: "bool \<Rightarrow> addr \<Rightarrow> addr \<Rightarrow> hw \<Rightarrow> (unit, hw) res" where
  "switchuvm p_null kstk pgdir h =
     (if p_null then Panic ''switchuvm: no process''
      else if kstk = 0 then Panic ''switchuvm: no kstack''
      else if pgdir = 0 then Panic ''switchuvm: no pgdir''
      else Ret () (h\<lparr>ts_ss0 := push_bit 3 2, ts_esp0 := kstk + 4096, ts_iomb := 0xFFFF,
                      tr := push_bit 3 5, cr3 := V2P pgdir\<rparr>))"

definition kvmalloc :: "kmem_st \<Rightarrow> hw \<Rightarrow> (addr \<times> hw, kmem_st) res" where
  "kvmalloc s h = rbind (setupkvm s) (\<lambda>kpgdir s. Ret (kpgdir, switchkvm kpgdir h) s)"

subsection \<open>User memory\<close>

fun write_bytes :: "memory \<Rightarrow> addr \<Rightarrow> byte list \<Rightarrow> memory" where
  "write_bytes m a [] = m"
| "write_bytes m a (b # bs) = write_bytes (m(a := b)) (a + 1) bs"

text \<open>\<^verbatim>\<open>inituvm\<close> does not check \<^verbatim>\<open>kalloc\<close>'s result or that of \<^verbatim>\<open>mappages\<close>.\<close>

definition inituvm :: "addr \<Rightarrow> byte list \<Rightarrow> kmem_st \<Rightarrow> (unit, kmem_st) res" where
  "inituvm pgdir init s =
     (if 4096 \<le> length init then Panic ''inituvm: more than a page''
      else let (page, s) = kalloc s;
               s = set_mem (memset (mem s) page 0 PGSIZE) s
           in rbind (mappages pgdir 0 PGSIZE (V2P page) (PTE_W OR PTE_U) s) (\<lambda>_ s.
                Ret () (set_mem (write_bytes (mem s) page init) s)))"

function allocuvm_loop :: "addr \<Rightarrow> addr \<Rightarrow> addr \<Rightarrow> addr \<Rightarrow> kmem_st \<Rightarrow> (addr, kmem_st) res" where
  "allocuvm_loop pgdir oldsz newsz a s =
     (if a < newsz then
        let (page, s) = kalloc s
        in if page = 0 then rbind (deallocuvm pgdir newsz oldsz s) (\<lambda>_ s. Ret 0 s)
           else let s = set_mem (memset (mem s) page 0 PGSIZE) s
                in rbind (mappages pgdir a PGSIZE (V2P page) (PTE_W OR PTE_U) s) (\<lambda>r s.
                     if r < 0 then
                       rbind (deallocuvm pgdir newsz oldsz s) (\<lambda>_ s.
                         rbind (kfree page s) (\<lambda>_ s. Ret 0 s))
                     else if a + PGSIZE \<le> a then Diverge
                     else allocuvm_loop pgdir oldsz newsz (a + PGSIZE) s)
      else Ret newsz s)"
  by pat_completeness auto
termination
  by (relation "measure (\<lambda>(pgdir, oldsz, newsz, a, s). 2 ^ 32 - unat a)")
    (auto simp: word_less_nat_alt not_le intro!: diff_less_mono2 unsigned_less [where ?'a = nat and ?'b = 32, simplified])

declare allocuvm_loop.simps [simp del]

definition allocuvm :: "addr \<Rightarrow> addr \<Rightarrow> addr \<Rightarrow> kmem_st \<Rightarrow> (addr, kmem_st) res" where
  "allocuvm pgdir oldsz newsz s =
     (if newsz \<ge> KERNBASE then Ret 0 s
      else if newsz < oldsz then Ret oldsz s
      else allocuvm_loop pgdir oldsz newsz (PGROUNDUP oldsz) s)"

definition clearpteu :: "addr \<Rightarrow> addr \<Rightarrow> kmem_st \<Rightarrow> (unit, kmem_st) res" where
  "clearpteu pgdir uva s =
     (let (pte, s) = walkpgdir pgdir uva False s
      in if pte = 0 then Panic ''clearpteu''
         else Ret () (set_mem (store32 (mem s) pte (load32 (mem s) pte AND NOT PTE_U)) s))"

function copyuvm_loop :: "addr \<Rightarrow> addr \<Rightarrow> addr \<Rightarrow> addr \<Rightarrow> kmem_st \<Rightarrow> (addr, kmem_st) res" where
  "copyuvm_loop pgdir sz d i s =
     (if i < sz then
        let (pte, s) = walkpgdir pgdir i False s
        in if pte = 0 then Panic ''copyuvm: pte should exist''
           else let e = load32 (mem s) pte
                in if e AND PTE_P = 0 then Panic ''copyuvm: page not present''
                   else let (page, s) = kalloc s
                        in if page = 0 then rbind (freevm d s) (\<lambda>_ s. Ret 0 s)
                           else let s = set_mem (memmove (mem s) page (P2V (PTE_ADDR e)) PGSIZE) s
                                in rbind (mappages d i PGSIZE (V2P page) (PTE_FLAGS e) s) (\<lambda>r s.
                                     if r < 0 then
                                       rbind (kfree page s) (\<lambda>_ s.
                                         rbind (freevm d s) (\<lambda>_ s. Ret 0 s))
                                     else if i + PGSIZE \<le> i then Diverge
                                     else copyuvm_loop pgdir sz d (i + PGSIZE) s)
      else Ret d s)"
  by pat_completeness auto
termination
  by (relation "measure (\<lambda>(pgdir, sz, d, i, s). 2 ^ 32 - unat i)")
    (auto simp: word_less_nat_alt not_le intro!: diff_less_mono2 unsigned_less [where ?'a = nat and ?'b = 32, simplified])

declare copyuvm_loop.simps [simp del]

definition copyuvm :: "addr \<Rightarrow> addr \<Rightarrow> kmem_st \<Rightarrow> (addr, kmem_st) res" where
  "copyuvm pgdir sz s =
     rbind (setupkvm s) (\<lambda>d s. if d = 0 then Ret 0 s else copyuvm_loop pgdir sz d 0 s)"

text \<open>
  \<^verbatim>\<open>uva2ka\<close> reads \<^verbatim>\<open>*pte\<close> without testing the pointer that \<^verbatim>\<open>walkpgdir\<close> returns. A null pointer
  here is undefined behaviour in C; the model marks it as a panic of its own.
\<close>

definition uva2ka :: "addr \<Rightarrow> addr \<Rightarrow> kmem_st \<Rightarrow> (addr, kmem_st) res" where
  "uva2ka pgdir uva s =
     (let (pte, s) = walkpgdir pgdir uva False s
      in if pte = 0 then Panic ''null pointer dereference''
         else let e = load32 (mem s) pte
              in if e AND PTE_P = 0 then Ret 0 s
                 else if e AND PTE_U = 0 then Ret 0 s
                 else Ret (P2V (PTE_ADDR e)) s)"

lemma page_offset_lt [simp]: "unat (va - PGROUNDDOWN va) < 4096"
proof -
  have "PGROUNDDOWN va \<le> va"
    by (simp add: word_le_nat_alt unat_PGROUNDDOWN)
  then have "unat (va - PGROUNDDOWN va) = unat va - 4096 * (unat va div 4096)"
    by (simp add: unat_sub unat_PGROUNDDOWN)
  also have "\<dots> = unat va mod 4096"
    by (simp add: minus_mult_div_eq_mod)
  finally show ?thesis by simp
qed

text \<open>\<^verbatim>\<open>copyout\<close>, with the bytes to copy given as a list.\<close>

function copyout :: "addr \<Rightarrow> addr \<Rightarrow> byte list \<Rightarrow> kmem_st \<Rightarrow> (int, kmem_st) res" where
  "copyout pgdir va bs s =
     (if bs = [] then Ret 0 s
      else let va0 = PGROUNDDOWN va
           in rbind (uva2ka pgdir va0 s) (\<lambda>pa0 s.
                if pa0 = 0 then Ret (-1) s
                else let n = min (4096 - unat (va - va0)) (length bs)
                     in copyout pgdir (va0 + PGSIZE) (drop n bs)
                          (set_mem (write_bytes (mem s) (pa0 + (va - va0)) (take n bs)) s)))"
  by pat_completeness auto
termination
  by (relation "measure (\<lambda>(pgdir, va, bs, s). length bs)") (auto simp: page_offset_lt)

declare copyout.simps [simp del]

end
