(* ===== verification/Pagetable.thy ===== *)
theory Pagetable
  imports Vm
begin

section \<open>A page table as a map\<close>

text \<open>
  What the entries of \<^verbatim>\<open>vm.c\<close> mean: a page directory is a partial map from virtual pages to
  entries, and the routines that walk and fill it are lookups and updates of that map.
\<close>

subsection \<open>Entries of a page\<close>

lemma low_mask: "(0x3FF :: 32 word) = mask 10" "(0xFFF :: 32 word) = mask 12"
  by (simp_all add: mask_eq_decr_exp)

lemma PDX_lt [simp]: "unat (PDX va) < 1024" and PTX_lt [simp]: "unat (PTX va) < 1024"
proof -
  have "x AND mask 10 < 2 ^ 10" for x :: "32 word"
    by (rule and_mask_less') simp
  from this [of "drop_bit 22 va"] this [of "drop_bit 12 va"]
  show "unat (PDX va) < 1024" "unat (PTX va) < 1024"
    by (simp_all add: PDX_def PTX_def low_mask word_less_nat_alt)
qed

lemma PGADDR_split: "PGADDR (PDX va) (PTX va) (va AND 0xFFF) = va"
proof (rule bit_word_eqI)
  fix n assume "n < LENGTH(32)"
  then consider "n < 12" | "12 \<le> n" "n < 22" | "22 \<le> n" "n < 32"
    by force
  then show "bit (PGADDR (PDX va) (PTX va) (va AND 0xFFF)) n = bit va n"
    unfolding PGADDR_def PDX_def PTX_def low_mask by cases (auto simp: bit_simps)
qed

lemma unat_entry:
  fixes i k :: "32 word"
  assumes "unat i < 1024" "unat k < 4"
  shows "unat (4 * i + k) = 4 * unat i + unat k"
  using assms by (simp add: unat_word_ariths)

lemma entry_off:
  assumes "unat i < 1024" "in_region (p + 4 * i) 4 a"
  shows "\<exists>k<4. unat (a - p) = 4 * unat i + k"
proof -
  let ?k = "a - (p + 4 * i)"
  have k: "unat ?k < 4" using assms(2) by (simp add: in_region_def)
  have "a - p = 4 * i + ?k" by (simp add: algebra_simps)
  then have "unat (a - p) = 4 * unat i + unat ?k"
    using unat_entry [OF assms(1) k] by simp
  then show ?thesis using k by blast
qed

lemma entry_in_page: "unat i < 1024 \<Longrightarrow> in_region (p + 4 * i) 4 a \<Longrightarrow> in_page p a"
  using entry_off [of i p a] by (auto simp: in_page_def in_region_def)

lemma entries_disjoint:
  assumes "unat i < 1024" "unat j < 1024" "in_region (p + 4 * i) 4 a" "in_region (p + 4 * j) 4 a"
  shows "i = j"
proof -
  obtain k l where "k < 4" "l < 4" "4 * unat i + k = 4 * unat j + l"
    using entry_off [OF assms(1,3)] entry_off [OF assms(2,4)] by auto
  then have "unat i = unat j" by arith
  then show ?thesis by (simp add: word_unat_eq_iff)
qed

lemma load32_other:
  assumes "\<And>a. in_region p 4 a \<Longrightarrow> \<not> in_region q 4 a"
  shows "load32 (store32 m q v) p = load32 m p"
  using assms by (intro load32_cong) (auto intro: store32_other)

lemma load32_entry:
  assumes "unat i < 1024" "unat j < 1024"
  shows "load32 (store32 m (p + 4 * i) v) (p + 4 * j) = (if i = j then v else load32 m (p + 4 * j))"
  using entries_disjoint [OF assms] by (auto intro: load32_other)

lemma load32_other_page:
  assumes "page_ok s p" "page_ok s q" "p \<noteq> q" "unat i < 1024" "unat j < 1024"
  shows "load32 (store32 m (p + 4 * i) v) (q + 4 * j) = load32 m (q + 4 * j)"
  using pages_disjoint [OF assms(1,2)] entry_in_page [OF assms(4), of p] entry_in_page [OF assms(5), of q] assms(3)
  by (intro load32_other) blast

lemma load32_memset_page:
  assumes "page_ok s p" "page_ok s q" "unat j < 1024"
  shows "load32 (memset m p 0 PGSIZE) (q + 4 * j) = (if p = q then 0 else load32 m (q + 4 * j))"
proof (cases "p = q")
  case True
  have "memset m p 0 PGSIZE a = 0" if "in_region (q + 4 * j) 4 a" for a
    using entry_in_page [OF assms(3) that] True by (simp add: memset_eq in_page_def)
  then have "load32 (memset m p 0 PGSIZE) (q + 4 * j) = load32 (\<lambda>_. 0) (q + 4 * j)"
    by (intro load32_cong) auto
  then show ?thesis using True by (simp add: load32_def)
next
  case False
  have "memset m p 0 PGSIZE a = m a" if "in_region (q + 4 * j) 4 a" for a
    using entry_in_page [OF assms(3) that] False pages_disjoint [OF assms(1,2)]
    by (auto simp: memset_eq in_page_def)
  then show ?thesis using False by (auto intro: load32_cong)
qed

lemma take_bit_V2P:
  assumes "x mod PGSIZE = 0"
  shows "take_bit 12 (V2P x) = 0"
proof -
  have x: "unat x mod 4096 = 0" using assms by (simp add: page_aligned_iff)
  have "unat (V2P x) = unat x - 4096 * 524288 \<or> unat (V2P x) = unat x + 4096 * 524288"
    unfolding V2P_def using unat_sub_if' [of x "KERNBASE"] by (auto split: if_splits)
  then have "unat (V2P x) mod 4096 = 0" using x by (auto simp: mod_eq_0_iff_dvd)
  then have "V2P x mod PGSIZE = 0" by (simp add: page_aligned_iff)
  then show ?thesis by (simp add: take_bit_eq_mod)
qed

lemma PTE_ADDR_OR:
  assumes "take_bit 12 y = 0" "f AND NOT 0xFFF = 0"
  shows "PTE_ADDR (y OR f) = y"
proof -
  have "\<not> bit y n" if "n < 12" for n
    using assms(1) that bit_take_bit_iff [of 12 y n] by simp
  moreover have "bit f n \<Longrightarrow> n < 12" for n
    using arg_cong [OF assms(2), of "\<lambda>w. bit w n"]
    by (auto simp: low_mask bit_simps dest: bit_imp_le_length)
  ultimately show ?thesis
    unfolding PTE_ADDR_def low_mask
    by (intro bit_word_eqI) (auto simp: bit_simps simp flip: not_less)
qed

lemma frame_addr:
  assumes "x mod PGSIZE = 0" "f AND NOT 0xFFF = 0"
  shows "P2V (PTE_ADDR (V2P x OR f)) = x"
  using PTE_ADDR_OR [OF take_bit_V2P [OF assms(1)] assms(2)] by (simp add: P2V_def V2P_def)

subsection \<open>Translation\<close>

text \<open>
  \<open>pgtab m pgdir va\<close> is the page of the table that covers \<open>va\<close>, if there is one, and
  \<open>translate m pgdir va\<close> is the page table entry that the hardware would use.
\<close>

definition pgtab_of :: "memory \<Rightarrow> addr \<Rightarrow> 32 word \<Rightarrow> addr option" where
  "pgtab_of m pgdir i =
     (let e = load32 m (pgdir + 4 * i)
      in if e AND PTE_P \<noteq> 0 then Some (P2V (PTE_ADDR e)) else None)"

definition translate :: "memory \<Rightarrow> addr \<Rightarrow> addr \<Rightarrow> 32 word option" where
  "translate m pgdir va =
     (case pgtab_of m pgdir (PDX va) of
        None \<Rightarrow> None
      | Some t \<Rightarrow> let e = load32 m (t + 4 * PTX va) in if e AND PTE_P \<noteq> 0 then Some e else None)"

definition same_page :: "addr \<Rightarrow> addr \<Rightarrow> bool" where
  "same_page va vb \<longleftrightarrow> PDX va = PDX vb \<and> PTX va = PTX vb"

text \<open>
  A page table is well formed when the directory and its tables are different allocated pages.
\<close>

definition pt_ok :: "kmem_st \<Rightarrow> addr list \<Rightarrow> addr \<Rightarrow> bool" where
  "pt_ok s xs pgdir \<longleftrightarrow>
     free_pages s xs \<and> page_ok s pgdir \<and> pgdir \<notin> set xs \<and>
     (\<forall>i t. unat i < 1024 \<longrightarrow> pgtab_of (mem s) pgdir i = Some t \<longrightarrow>
        page_ok s t \<and> t \<noteq> pgdir \<and> t \<notin> set xs) \<and>
     (\<forall>i j t. unat i < 1024 \<longrightarrow> unat j < 1024 \<longrightarrow> pgtab_of (mem s) pgdir i = Some t \<longrightarrow>
        pgtab_of (mem s) pgdir j = Some t \<longrightarrow> i = j)"

lemma pt_okD:
  assumes "pt_ok s xs pgdir" "unat i < 1024" "pgtab_of (mem s) pgdir i = Some t"
  shows "page_ok s t" "t \<noteq> pgdir" "t \<notin> set xs"
  using assms by (auto simp: pt_ok_def)

lemma pt_ok_inj:
  assumes "pt_ok s xs pgdir" "unat i < 1024" "unat j < 1024"
    "pgtab_of (mem s) pgdir i = Some t" "pgtab_of (mem s) pgdir j = Some t"
  shows "i = j"
  using assms unfolding pt_ok_def by blast

text \<open>\<^verbatim>\<open>walkpgdir\<close> finds an existing table without changing anything.\<close>

lemma walkpgdir_found:
  "pgtab_of (mem s) pgdir (PDX va) = Some t \<Longrightarrow> walkpgdir pgdir va alloc s = (t + 4 * PTX va, s)"
  by (auto simp: pgtab_of_def walkpgdir_def Let_def split: if_splits)

lemma walkpgdir_none:
  "pgtab_of (mem s) pgdir (PDX va) = None \<Longrightarrow> walkpgdir pgdir va False s = (0, s)"
  by (auto simp: pgtab_of_def walkpgdir_def Let_def split: if_splits)

lemma walkpgdir_full:
  assumes "free_pages s []" "pgtab_of (mem s) pgdir (PDX va) = None"
  shows "walkpgdir pgdir va True s = (0, s)"
  using assms kalloc_empty [OF assms(1)] by (auto simp: pgtab_of_def walkpgdir_def Let_def split: if_splits)

text \<open>
  Installing the zeroed page \<open>x\<close> as the table number \<open>d\<close> of a directory: what each directory
  entry and each word of another page reads afterwards.
\<close>

lemma present_iff: "e AND 1 \<noteq> 0 \<longleftrightarrow> odd (e :: 32 word)"
  by (simp add: and_one_eq even_iff_mod_2_eq_zero)

definition install_pgtab :: "memory \<Rightarrow> addr \<Rightarrow> 32 word \<Rightarrow> addr \<Rightarrow> memory" where
  "install_pgtab m pgdir d x =
     store32 (memset m x 0 PGSIZE) (pgdir + 4 * d) (V2P x OR PTE_P OR PTE_W OR PTE_U)"

lemma pgtab_of_install:
  assumes "page_ok s x" "page_ok s pgdir" "x \<noteq> pgdir" "unat d < 1024" "unat i < 1024"
  shows "pgtab_of (install_pgtab m pgdir d x) pgdir i = (if i = d then Some x else pgtab_of m pgdir i)"
proof -
  have "(V2P x OR 1 OR 2 OR 4) AND 1 \<noteq> 0"
    by (simp add: present_iff even_or_iff)
  moreover have "P2V (PTE_ADDR (V2P x OR 1 OR 2 OR 4)) = x"
    using frame_addr [of x "1 OR 2 OR 4"] assms(1) by (simp add: page_ok_def)
  ultimately show ?thesis
    using assms load32_memset_page [OF assms(1,2,5), of m]
    by (simp add: pgtab_of_def install_pgtab_def load32_entry Let_def)
qed

lemma load32_install:
  assumes "page_ok s x" "page_ok s pgdir" "page_ok s q" "q \<noteq> pgdir" "unat d < 1024" "unat j < 1024"
  shows "load32 (install_pgtab m pgdir d x) (q + 4 * j) = (if q = x then 0 else load32 m (q + 4 * j))"
  using assms load32_other_page [OF assms(2,3)] load32_memset_page [OF assms(1,3,6), of m]
  by (simp add: install_pgtab_def)

lemma install_pgtab_frame:
  assumes "page_ok s x" "page_ok s pgdir" "page_ok s y" "y \<noteq> x" "y \<noteq> pgdir" "unat d < 1024" "in_page y a"
  shows "install_pgtab m pgdir d x a = m a"
proof -
  have "\<not> in_page x a" "\<not> in_page pgdir a"
    using assms pages_disjoint by blast+
  then have "\<not> in_region (pgdir + 4 * d) 4 a" using entry_in_page [OF assms(6)] by blast
  then show ?thesis
    using \<open>\<not> in_page x a\<close> by (simp add: install_pgtab_def store32_other memset_eq in_page_def)
qed

lemma walkpgdir_alloc:
  assumes ok: "pt_ok s (x # xs) pgdir" and none: "pgtab_of (mem s) pgdir (PDX va) = None"
  shows "\<exists>s'. walkpgdir pgdir va True s = (x + 4 * PTX va, s') \<and> pt_ok s' xs pgdir \<and>
    pgtab_of (mem s') pgdir (PDX va) = Some x \<and> page_ok s' = page_ok s \<and>
    translate (mem s') pgdir = translate (mem s) pgdir"
proof -
  let ?m = "install_pgtab (mem s) pgdir (PDX va) x"
  let ?s1 = "s\<lparr>freelist := load32 (mem s) x\<rparr>"
  let ?s' = "?s1\<lparr>mem := ?m\<rparr>"
  have x: "page_ok s x" "x \<noteq> 0" "x \<noteq> pgdir" "x \<notin> set xs" and d: "page_ok s pgdir"
    and fp: "free_pages s (x # xs)" and xs: "\<And>y. y \<in> set xs \<Longrightarrow> page_ok s y \<and> y \<noteq> pgdir"
    using ok km.pages_ok [of s "x # xs"] by (auto simp: pt_ok_def)
  have ok': "page_ok ?s' = page_ok s" by (simp add: page_ok_def fun_eq_iff)
  have walk: "walkpgdir pgdir va True s = (x + 4 * PTX va, ?s')"
    using none x kalloc_pops [OF fp]
    by (auto simp: walkpgdir_def pgtab_of_def install_pgtab_def Let_def split: if_splits)
  have tab: "pgtab_of ?m pgdir i = (if i = PDX va then Some x else pgtab_of (mem s) pgdir i)"
    if "unat i < 1024" for i
    using pgtab_of_install [OF x(1) d x(3) PDX_lt that] .
  have "free_pages ?s1 xs" using kalloc_pops [OF fp] by simp
  moreover have "?m a = mem ?s1 a" if "y \<in> set xs" "in_page y a" for y a
    using install_pgtab_frame [OF x(1) d, of y "PDX va" a "mem s"] xs [OF that(1)] x(4) that by auto
  ultimately have "free_pages ?s' xs"
    by (rule free_pages_frame)
  moreover have "page_ok s t \<and> t \<noteq> pgdir \<and> t \<notin> set xs"
    if "unat i < 1024" "pgtab_of ?m pgdir i = Some t" for i t
    using that tab [of i] x pt_okD [OF ok, of i t] by (auto split: if_splits)
  moreover have "i = j" if "unat i < 1024" "unat j < 1024" "pgtab_of ?m pgdir i = Some t"
      "pgtab_of ?m pgdir j = Some t" for i j t
  proof -
    have "t \<noteq> x" if "unat k < 1024" "pgtab_of (mem s) pgdir k = Some t" for k
      using pt_okD(3) [OF ok that] by auto
    then show ?thesis
      using that tab [of i] tab [of j] pt_ok_inj [OF ok that(1,2), of t] by (fastforce split: if_splits)
  qed
  ultimately have "pt_ok ?s' xs pgdir"
    unfolding pt_ok_def ok' using d ok by (auto simp: pt_ok_def)
  moreover have "translate ?m pgdir vb = translate (mem s) pgdir vb" for vb
  proof (cases "pgtab_of (mem s) pgdir (PDX vb)")
    case None
    then show ?thesis
      using tab [of "PDX vb"] x load32_install [OF x(1) d x(1) x(3) PDX_lt PTX_lt]
      by (auto simp: translate_def)
  next
    case (Some t)
    then have "t \<noteq> x" "page_ok s t" "t \<noteq> pgdir" using pt_okD [OF ok PDX_lt Some] by auto
    then show ?thesis
      using Some none tab [of "PDX vb"] load32_install [OF x(1) d, of t "PDX va" "PTX vb"]
      by (auto simp: translate_def)
  qed
  ultimately show ?thesis using walk tab [of "PDX va"] ok' by (auto simp: fun_eq_iff)
qed

text \<open>Writing an entry of an existing table changes the translation of its page only.\<close>

lemma store_pte:
  fixes e :: "32 word"
  assumes ok: "pt_ok s xs pgdir" and tab: "pgtab_of (mem s) pgdir (PDX va) = Some t"
  defines "s' \<equiv> s\<lparr>mem := store32 (mem s) (t + 4 * PTX va) e\<rparr>"
  shows "pt_ok s' xs pgdir"
    and "translate (mem s') pgdir vb =
      (if same_page va vb then (if e AND PTE_P \<noteq> 0 then Some e else None) else translate (mem s) pgdir vb)"
proof -
  let ?m = "store32 (mem s) (t + 4 * PTX va) e"
  have t: "page_ok s t" "t \<noteq> pgdir" "t \<notin> set xs" and d: "page_ok s pgdir"
    using pt_okD [OF ok PDX_lt tab] ok by (auto simp: pt_ok_def)
  have ok': "page_ok s' = page_ok s" by (simp add: s'_def page_ok_def fun_eq_iff)
  have tab': "pgtab_of ?m pgdir i = pgtab_of (mem s) pgdir i" if "unat i < 1024" for i
    using that load32_other_page [OF t(1) d t(2) PTX_lt that] by (simp add: pgtab_of_def)
  have "?m a = mem s a" if "y \<in> set xs" "in_page y a" for y a
  proof -
    have "page_ok s y" "y \<noteq> t" using that ok t(3) by (auto simp: pt_ok_def free_pages_def)
    then have "\<not> in_region (t + 4 * PTX va) 4 a"
      using that pages_disjoint [OF t(1), of y] entry_in_page [OF PTX_lt] by blast
    then show ?thesis by (rule store32_other)
  qed
  then have "free_pages s' xs"
    unfolding s'_def using ok by (intro free_pages_frame) (auto simp: pt_ok_def)
  then show "pt_ok s' xs pgdir"
    using ok tab' unfolding pt_ok_def ok' by (auto simp: s'_def)
  show "translate (mem s') pgdir vb =
      (if same_page va vb then (if e AND PTE_P \<noteq> 0 then Some e else None) else translate (mem s) pgdir vb)"
  proof (cases "pgtab_of (mem s) pgdir (PDX vb)")
    case None
    then show ?thesis using tab tab' [of "PDX vb"] by (auto simp: translate_def s'_def same_page_def)
  next
    case (Some u)
    show ?thesis
    proof (cases "u = t")
      case True
      then have "PDX va = PDX vb" using Some tab pt_ok_inj [OF ok PDX_lt PDX_lt tab] by auto
      then show ?thesis
        using True Some tab' [of "PDX vb"] by (auto simp: translate_def s'_def same_page_def load32_entry Let_def)
    next
      case False
      then have "load32 ?m (u + 4 * PTX vb) = load32 (mem s) (u + 4 * PTX vb)"
        using pt_okD(1) [OF ok PDX_lt Some] t load32_other_page [of s t u] by auto
      moreover have "PDX va \<noteq> PDX vb" using False Some tab by auto
      ultimately show ?thesis
        using Some tab' [of "PDX vb"] by (auto simp: translate_def s'_def same_page_def)
    qed
  qed
qed

lemma page_ok_entry_nonzero:
  assumes "page_ok s t" "unat i < 1024"
  shows "t + 4 * i \<noteq> 0"
proof
  assume 0: "t + 4 * i = 0"
  have "in_page t (t + 4 * i)"
    using assms(2) by (intro entry_in_page [of i]) (auto simp: in_region_def)
  then have "unat t div 4096 = 0"
    using assms(1) 0 in_page_div [of t 0] by (simp add: page_ok_def)
  then have "unat t < 4096" by (simp add: div_eq_0_iff)
  moreover have "unat (V2P t) < 234881024" using assms(1) by (simp add: page_ok_def word_less_nat_alt)
  ultimately show False
    unfolding V2P_def using unat_sub_if' [of t "KERNBASE"] by (auto split: if_splits)
qed

lemma walkpgdir_True_cases:
  assumes ok: "pt_ok s xs pgdir"
  obtains (full) "walkpgdir pgdir va True s = (0, s)" "xs = []"
  | (found) t s1 ys where "walkpgdir pgdir va True s = (t + 4 * PTX va, s1)" "t + 4 * PTX va \<noteq> 0"
      "pt_ok s1 ys pgdir" "pgtab_of (mem s1) pgdir (PDX va) = Some t"
      "translate (mem s1) pgdir = translate (mem s) pgdir" "length xs \<le> Suc (length ys)"
proof (cases "pgtab_of (mem s) pgdir (PDX va)")
  case None
  show thesis
  proof (cases xs)
    case Nil
    then show ?thesis using full walkpgdir_full [OF _ None] ok by (simp add: pt_ok_def)
  next
    case (Cons x ys)
    then have "pt_ok s (x # ys) pgdir" "page_ok s x"
      using ok by (auto simp: pt_ok_def free_pages_def)
    from walkpgdir_alloc [OF this(1) None] page_ok_entry_nonzero [OF this(2) PTX_lt]
    show ?thesis using found \<open>xs = x # ys\<close> by (metis length_Cons order_refl)
  qed
next
  case (Some t)
  then show thesis
    using found [of t s xs] walkpgdir_found [OF Some] ok pt_okD(1) [OF ok PDX_lt Some]
      page_ok_entry_nonzero [of s t "PTX va"] by auto
qed

text \<open>
  \<^verbatim>\<open>mappages\<close> when it returns 0: every page of the range was unmapped, now translates to its
  frame with the given permissions, and no other translation changed.
\<close>

lemma mappages_step:
  assumes ok: "pt_ok s xs pgdir"
  obtains (full) "mappages_loop pgdir a pa perm n s = Ret (-1) s" "xs = []"
  | (remap) "mappages_loop pgdir a pa perm n s = Panic ''remap''" "translate (mem s) pgdir a \<noteq> None"
  | (step) s1 ys where "pt_ok s1 ys pgdir" "translate (mem s) pgdir a = None" "length xs \<le> Suc (length ys)"
    "\<forall>vb. translate (mem s1) pgdir vb =
       (if same_page a vb then Some (pa OR perm OR PTE_P) else translate (mem s) pgdir vb)"
    "mappages_loop pgdir a pa perm n s =
       (case n of 0 \<Rightarrow> Ret 0 s1 | Suc k \<Rightarrow> mappages_loop pgdir (a + PGSIZE) (pa + PGSIZE) perm k s1)"
  using ok
proof (cases rule: walkpgdir_True_cases [where va = a])
  case full
  then show thesis using that(1) by (simp add: mappages_loop.simps)
next
  case (found t s1 ys)
  let ?e = "pa OR perm OR PTE_P"
  let ?s2 = "s1\<lparr>mem := store32 (mem s1) (t + 4 * PTX a) ?e\<rparr>"
  have e: "?e AND PTE_P \<noteq> 0" by (simp add: present_iff even_or_iff)
  have tr: "translate (mem s) pgdir a = (let e = load32 (mem s1) (t + 4 * PTX a) in
      if e AND PTE_P \<noteq> 0 then Some e else None)"
    using found(4) by (simp add: translate_def flip: found(5))
  show thesis
  proof (cases "load32 (mem s1) (t + 4 * PTX a) AND PTE_P = 0")
    case False
    then show ?thesis using that(2) found(1,2) tr by (simp add: mappages_loop.simps Let_def)
  next
    case True
    have "mappages_loop pgdir a pa perm n s =
        (case n of 0 \<Rightarrow> Ret 0 ?s2 | Suc k \<Rightarrow> mappages_loop pgdir (a + PGSIZE) (pa + PGSIZE) perm k ?s2)"
      using True found(1,2) by (simp add: mappages_loop.simps [of _ _ _ _ n] Let_def)
    moreover have "\<forall>vb. translate (mem ?s2) pgdir vb =
         (if same_page a vb then Some ?e else translate (mem s) pgdir vb)"
      using store_pte(2) [OF found(3,4), of ?e] e found(5) by simp
    moreover have "translate (mem s) pgdir a = None" using tr True by (simp add: Let_def)
    ultimately show thesis
      using that(3) [OF store_pte(1) [OF found(3,4), of ?e]] found(6) by blast
  qed
qed

lemma same_page_refl [simp]: "same_page a a"
  by (simp add: same_page_def)

lemma translate_same_page: "same_page a b \<Longrightarrow> translate m pgdir a = translate m pgdir b"
  unfolding translate_def same_page_def by metis

lemma mappages_loop_maps:
  assumes "pt_ok s xs pgdir" "mappages_loop pgdir a pa perm n s = Ret 0 s'"
  shows "(\<exists>ys. pt_ok s' ys pgdir) \<and>
    (\<forall>i\<le>n. translate (mem s) pgdir (a + PGSIZE * of_nat i) = None \<and>
       translate (mem s') pgdir (a + PGSIZE * of_nat i) = Some ((pa + PGSIZE * of_nat i) OR perm OR PTE_P)) \<and>
    (\<forall>vb. (\<forall>i\<le>n. \<not> same_page (a + PGSIZE * of_nat i) vb) \<longrightarrow>
       translate (mem s') pgdir vb = translate (mem s) pgdir vb)"
  using assms
proof (induction n arbitrary: a pa s xs)
  case 0
  from 0(1) show ?case
  proof (cases rule: mappages_step [where a = a and pa = pa and perm = perm and n = 0])
    case (step s1 ys)
    then have "s' = s1" using 0(2) by simp
    then show ?thesis using step by auto
  qed (use 0(2) in auto)
next
  case (Suc n)
  from Suc.prems(1) obtain s1 ys where s1: "pt_ok s1 ys pgdir" "translate (mem s) pgdir a = None"
    "\<forall>vb. translate (mem s1) pgdir vb =
       (if same_page a vb then Some (pa OR perm OR PTE_P) else translate (mem s) pgdir vb)"
    "mappages_loop pgdir (a + PGSIZE) (pa + PGSIZE) perm n s1 = Ret 0 s'"
  proof (cases rule: mappages_step [where a = a and pa = pa and perm = perm and n = "Suc n"])
    case (step s1 ys)
    then show ?thesis using that Suc.prems(2) by auto
  qed (use Suc.prems(2) in auto)
  let ?b = "\<lambda>j. a + PGSIZE + PGSIZE * of_nat j"
  note IH = Suc.IH [OF s1(1,4)]
  have IH1: "translate (mem s1) pgdir (?b j) = None"
      "translate (mem s') pgdir (?b j) = Some ((pa + PGSIZE + PGSIZE * of_nat j) OR perm OR PTE_P)"
    if "j \<le> n" for j using IH that by blast+
  have IH2: "translate (mem s') pgdir vb = translate (mem s1) pgdir vb"
    if "\<And>j. j \<le> n \<Longrightarrow> \<not> same_page (?b j) vb" for vb using IH that by blast
  have later: "\<not> same_page a (?b j)" if "j \<le> n" for j
    using IH1(1) [OF that] s1(3) [rule_format, of "?b j"] by auto
  have shift: "x + PGSIZE * of_nat (Suc j) = x + PGSIZE + PGSIZE * of_nat j" for j and x :: addr
    by (simp add: algebra_simps)
  show ?case
  proof (intro conjI allI impI)
    show "\<exists>ys. pt_ok s' ys pgdir" using IH by blast
  next
    fix i assume i: "i \<le> Suc n"
    show "translate (mem s) pgdir (a + PGSIZE * of_nat i) = None"
    proof (cases i)
      case 0
      then show ?thesis using s1(2) by simp
    next
      case (Suc j)
      then show ?thesis
        using IH1(1) [of j] i s1(3) [rule_format, of "?b j"] later [of j] unfolding Suc shift by simp
    qed
  next
    fix i assume i: "i \<le> Suc n"
    show "translate (mem s') pgdir (a + PGSIZE * of_nat i) = Some ((pa + PGSIZE * of_nat i) OR perm OR PTE_P)"
    proof (cases i)
      case 0
      have "translate (mem s') pgdir a = translate (mem s1) pgdir a"
        by (rule IH2) (use later in \<open>fastforce simp: same_page_def\<close>)
      then show ?thesis using 0 s1(3) [rule_format, of a] by simp
    next
      case (Suc j)
      then show ?thesis using IH1(2) [of j] i unfolding Suc shift by simp
    qed
  next
    fix vb assume other: "\<forall>i\<le>Suc n. \<not> same_page (a + PGSIZE * of_nat i) vb"
    have "\<not> same_page (?b j) vb" if "j \<le> n" for j
      using other [rule_format, of "Suc j"] that unfolding shift by simp
    then show "translate (mem s') pgdir vb = translate (mem s) pgdir vb"
      using IH2 [of vb] s1(3) [rule_format, of vb] other [rule_format, of 0] by simp
  qed
qed

text \<open>
  With a free page for every page of the range and nothing mapped there, \<^verbatim>\<open>mappages\<close> does
  return 0.
\<close>

lemma mappages_loop_returns:
  assumes "pt_ok s xs pgdir" "n < length xs"
    "\<forall>i\<le>n. translate (mem s) pgdir (a + PGSIZE * of_nat i) = None"
    "\<forall>i\<le>n. \<forall>j\<le>n. i \<noteq> j \<longrightarrow> \<not> same_page (a + PGSIZE * of_nat i) (a + PGSIZE * of_nat j)"
  shows "\<exists>s'. mappages_loop pgdir a pa perm n s = Ret 0 s'"
  using assms
proof (induction n arbitrary: a pa s xs)
  case 0
  from 0(1) show ?case
    by (cases rule: mappages_step [where a = a and pa = pa and perm = perm and n = 0]) (use 0 in auto)
next
  case (Suc n)
  have shift: "a + PGSIZE + PGSIZE * of_nat j = a + PGSIZE * of_nat (Suc j)" for j
    by (simp add: algebra_simps)
  from Suc.prems(1) show ?case
  proof (cases rule: mappages_step [where a = a and pa = pa and perm = perm and n = "Suc n"])
    case full
    then show ?thesis using Suc.prems(2) by simp
  next
    case remap
    then show ?thesis using Suc.prems(3) [rule_format, of 0] by simp
  next
    case (step s1 ys)
    have "translate (mem s1) pgdir (a + PGSIZE * of_nat (Suc j)) = None" if "j \<le> n" for j
      using that step(4) [rule_format, of "a + PGSIZE * of_nat (Suc j)"]
        Suc.prems(3) [rule_format, of "Suc j"] Suc.prems(4) [rule_format, of 0 "Suc j"] by auto
    moreover have "\<not> same_page (a + PGSIZE * of_nat (Suc i)) (a + PGSIZE * of_nat (Suc j))"
      if "i \<le> n" "j \<le> n" "i \<noteq> j" for i j
      using Suc.prems(4) that by blast
    moreover have "n < length ys" using Suc.prems(2) step(3) by simp
    ultimately have "\<exists>s'. mappages_loop pgdir (a + PGSIZE) (pa + PGSIZE) perm n s1 = Ret 0 s'"
      using Suc.IH [OF step(1), of "a + PGSIZE" "pa + PGSIZE"] unfolding shift by blast
    then show ?thesis using step(5) by simp
  qed
qed

text \<open>Distinct multiples of the page size from an aligned address are different pages.\<close>

lemma same_page_aligned:
  assumes "same_page x y" "take_bit 12 x = 0" "take_bit 12 y = 0"
  shows "x = y"
  using assms PGADDR_split [of x] PGADDR_split [of y] by (simp add: same_page_def low_mask flip: take_bit_eq_mask)

lemma take_bit_page_add:
  fixes a k :: "32 word"
  assumes "take_bit 12 a = 0"
  shows "take_bit 12 (a + PGSIZE * k) = 0"
proof -
  have iff: "take_bit 12 x = 0 \<longleftrightarrow> unat x mod 4096 = 0" for x :: "32 word"
    using page_aligned_iff [of x] by (simp add: take_bit_eq_mod)
  have "unat (a + PGSIZE * k) mod 4096 = (unat a + 4096 * unat k) mod 4096"
    by (simp add: unat_word_ariths mod_mod_cancel mod_simps)
  then show ?thesis using assms by (simp add: iff)
qed

lemma pages_apart:
  fixes a :: addr
  assumes "take_bit 12 a = 0" "i < 2 ^ 20" "j < 2 ^ 20" "i \<noteq> j"
  shows "\<not> same_page (a + PGSIZE * of_nat i) (a + PGSIZE * of_nat j)"
proof
  assume "same_page (a + PGSIZE * of_nat i) (a + PGSIZE * of_nat j)"
  then have "PGSIZE * of_nat i = (PGSIZE * of_nat j :: addr)"
    using same_page_aligned [OF _ take_bit_page_add [OF assms(1)] take_bit_page_add [OF assms(1)]]
    by fastforce
  moreover have "unat (PGSIZE * of_nat k :: addr) = 4096 * k" if "k < 2 ^ 20" for k :: nat
    using that unat_page_seq [of 0 k k] by simp
  ultimately show False using assms by (metis mult_cancel1 zero_neq_numeral)
qed

subsection \<open>Properties\<close>

text \<open>
  C7. \<^verbatim>\<open>mappages\<close> is an update of the translation map. When the pages from \<open>va\<close> to
  \<open>va + sz - 1\<close> are unmapped and the allocator has a free page for each of them, the call returns
  0, the page of the range at distance \<open>i\<close> from the first translates to \<open>pa + 4096 * i\<close> with the
  permissions given and the present bit, every other address translates as before, and the page
  table stays well formed.
\<close>

theorem mappages_correct:
  assumes "pt_ok s xs pgdir" "a = PGROUNDDOWN va" "n = unat (PGROUNDDOWN (va + sz - 1) - a) div 4096"
    "n < length xs" "\<forall>i\<le>n. translate (mem s) pgdir (a + PGSIZE * of_nat i) = None"
  shows "\<exists>s' ys. mappages pgdir va sz pa perm s = Ret 0 s' \<and> pt_ok s' ys pgdir \<and>
    (\<forall>i\<le>n. translate (mem s') pgdir (a + PGSIZE * of_nat i) =
       Some ((pa + PGSIZE * of_nat i) OR perm OR PTE_P)) \<and>
    (\<forall>vb. (\<forall>i\<le>n. \<not> same_page (a + PGSIZE * of_nat i) vb) \<longrightarrow>
       translate (mem s') pgdir vb = translate (mem s) pgdir vb)"
proof -
  have al: "take_bit 12 a = 0"
    using unat_PGROUNDDOWN [of va] page_aligned_iff [of a] assms(2) by (simp add: take_bit_eq_mod)
  have n: "n < 2 ^ 20"
    using unsigned_less [of "PGROUNDDOWN (va + sz - 1) - a", where ?'a = nat] assms(3)
    by (simp add: less_mult_imp_div_less)
  then have "\<not> same_page (a + PGSIZE * of_nat i) (a + PGSIZE * of_nat j)"
    if "i \<le> n" "j \<le> n" "i \<noteq> j" for i j
    using that by (intro pages_apart [OF al]) auto
  then obtain s' where s': "mappages_loop pgdir a pa perm n s = Ret 0 s'"
    using mappages_loop_returns [OF assms(1,4,5)] by blast
  moreover have "mappages pgdir va sz pa perm s = mappages_loop pgdir a pa perm n s"
    using assms(2,3) by (simp add: mappages_def Let_def)
  ultimately show ?thesis using mappages_loop_maps [OF assms(1) s'] by auto
qed

text \<open>A directory page of zeroes with one free page besides it.\<close>

definition pt_example :: kmem_st where
  "pt_example = \<lparr>mem = (\<lambda>a. 0), use_lock = False, freelist = 0x80102000,
     kend = 0x80100000, kdata = 0x80100000\<rparr>"

lemma pt_example_ok:
  "pt_ok pt_example [0x80102000] 0x80101000" "translate (mem pt_example) 0x80101000 va = None"
proof -
  have "load32 (\<lambda>a. 0) b = 0" for b by (simp add: load32_def)
  then have none: "pgtab_of (mem pt_example) p i = None" for p i
    by (simp add: pt_example_def pgtab_of_def)
  have "free_pages pt_example [0x80102000]"
    by (simp add: free_pages_def pt_example_def page_ok_def V2P_def load32_def)
  moreover have "page_ok pt_example 0x80101000"
    by (simp add: pt_example_def page_ok_def V2P_def)
  ultimately show "pt_ok pt_example [0x80102000] 0x80101000" by (simp add: pt_ok_def none)
  show "translate (mem pt_example) 0x80101000 va = None" by (simp add: translate_def none)
qed

theorem mappages_correct_witness:
  "\<exists>s'. mappages 0x80101000 0x5000 PGSIZE 0x7000 (PTE_W OR PTE_U) pt_example = Ret 0 s' \<and>
    translate (mem s') 0x80101000 0x5000 = Some (0x7000 OR (PTE_W OR PTE_U) OR PTE_P)"
proof -
  have "PGROUNDDOWN 0x5000 = 0x5000" "PGROUNDDOWN (0x5000 + PGSIZE - 1) = 0x5000"
    by (simp_all add: PGROUNDDOWN_def)
  then show ?thesis
    using mappages_correct [OF pt_example_ok(1) refl refl, of "0x5000" PGSIZE "0x7000" "PTE_W OR PTE_U"]
    by (auto simp: pt_example_ok(2))
qed

end
