(* ===== verification/Proc.thy ===== *)
theory Proc
  imports Vm
begin

section \<open>Processes, kernel threads and mutexes: the operations of proc.c\<close>

text \<open>
  The process table, the thread slots inside each process, the mutex table and every routine of
  \<^verbatim>\<open>proc.c\<close> that works on them. Pointers into the tables are indices: a process is its index in
  \<^verbatim>\<open>ptable.proc\<close>, a thread is the pair of its process and its index in \<^verbatim>\<open>threads\<close>, a mutex its
  index in \<^verbatim>\<open>mtable.mutex\<close>; a null pointer is \<^const>\<open>None\<close>. Identifiers are C \<^verbatim>\<open>int\<close>s whose overflow is
  undefined; they are unbounded here.

  A routine runs with \<^verbatim>\<open>ptable.lock\<close> or \<^verbatim>\<open>mtable.mlock\<close> held from its \<^verbatim>\<open>acquire\<close> to the matching
  \<^verbatim>\<open>release\<close> or to \<^verbatim>\<open>sched\<close>, so each such stretch is one function here. A routine that gives up the
  processor in the middle, or that releases one lock and takes another, is several functions: the
  outcome says where the thread stands when the stretch ends.
\<close>

datatype procstate = PUNUSED | PEMBRYO | PUSED | PZOMBIE

datatype threadstate = TUNUSED | TEMBRYO | TSLEEPING | TRUNNABLE | TRUNNING | TZOMBIE | TINVALID

datatype mutexstate = MUNLOCKED | MLOCKED

abbreviation (input) NPROC :: nat where "NPROC \<equiv> 64"
abbreviation (input) NTHREAD :: nat where "NTHREAD \<equiv> 16"
abbreviation (input) MAX_MUTEXES :: nat where "MAX_MUTEXES \<equiv> 64"
abbreviation (input) KSTACKSIZE :: "32 word" where "KSTACKSIZE \<equiv> 4096"
abbreviation (input) MAX_STACK_SIZE :: "32 word" where "MAX_STACK_SIZE \<equiv> 4000"

text \<open>
  Where a thread resumes when it is next given a processor, or what it does next after a stretch
  that ended without giving the processor up. This stands for the return addresses on its kernel
  stack: \<open>Forkret\<close> is the context that \<^verbatim>\<open>allocthread\<close> and \<^verbatim>\<open>kthread_create\<close> build.
\<close>

datatype kpc =
    User                    \<comment> \<open>outside \<^verbatim>\<open>proc.c\<close>\<close>
  | Forkret                 \<comment> \<open>first scheduling, in \<^verbatim>\<open>forkret\<close>\<close>
  | YieldAwake              \<comment> \<open>in \<^verbatim>\<open>yield\<close>, after \<^verbatim>\<open>sched\<close>\<close>
  | SleepAwake kpc          \<comment> \<open>in a \<^verbatim>\<open>sleep\<close> called from elsewhere in the kernel\<close>
  | LockAwake nat           \<comment> \<open>in \<^verbatim>\<open>kthread_mutex_lock\<close>'s \<^verbatim>\<open>sleep\<close>, after \<^verbatim>\<open>sched\<close>\<close>
  | LockAcquire nat         \<comment> \<open>there, before \<^verbatim>\<open>acquire(lk)\<close>\<close>
  | UnlockWakeup nat        \<comment> \<open>in \<^verbatim>\<open>kthread_mutex_unlock\<close>, before \<^verbatim>\<open>wakeup(m)\<close>\<close>
  | JoinAwake nat int       \<comment> \<open>in \<^verbatim>\<open>kthread_join\<close>'s \<^verbatim>\<open>sleep\<close>, after \<^verbatim>\<open>sched\<close>\<close>
  | Join2Awake nat nat      \<comment> \<open>in \<^verbatim>\<open>kthread_join2\<close>'s \<^verbatim>\<open>sleep\<close>, after \<^verbatim>\<open>sched\<close>\<close>
  | WaitAwake               \<comment> \<open>in \<^verbatim>\<open>wait\<close>'s \<^verbatim>\<open>sleep\<close>, after \<^verbatim>\<open>sched\<close>\<close>
  | KillAwake bool          \<comment> \<open>in \<^verbatim>\<open>kill_other_threads\<close>, after \<^verbatim>\<open>sched\<close>; called from \<^verbatim>\<open>exit\<close>?\<close>
  | ExitEntry               \<comment> \<open>\<^verbatim>\<open>kthread_exit\<close> has decided to call \<^verbatim>\<open>exit\<close>\<close>
  | ExitTail                \<comment> \<open>in \<^verbatim>\<open>safe_exit\<close>, before \<^verbatim>\<open>acquire(&ptable.lock)\<close>\<close>
  | Dead                    \<comment> \<open>after the \<^verbatim>\<open>sched\<close> that does not return\<close>

record thread =
  tid :: int
  tstate :: threadstate
  kstack :: addr
  tparent :: "nat option"
  tf :: addr
  tcontext :: addr
  chan :: chan
  tkilled :: bool
  mutex :: "nat option"
  tpc :: kpc

record proc =
  sz :: "32 word"
  pgdir :: addr
  pstate :: procstate
  pid :: int
  parent :: "nat option"
  killed :: bool
  ofile :: "nat \<Rightarrow> nat option"
  cwd :: "nat option"
  name :: "byte list"
  threads :: "nat \<Rightarrow> thread"
  num_of_threads :: int
  invalid :: int

record kthread_mutex_t =
  mythread :: "(nat \<times> nat) option"
  myproc :: "nat option"
  mid :: int
  mstate :: mutexstate

text \<open>
  The globals of \<^verbatim>\<open>proc.c\<close> over the allocator's state. The addresses of \<^verbatim>\<open>forkret\<close> and \<^verbatim>\<open>trapret\<close>
  come from the linker.
\<close>

record proc_st =
  km :: kmem_st
  ptable :: "nat \<Rightarrow> proc"
  mtable :: "nat \<Rightarrow> kthread_mutex_t"
  nextpid :: int
  nexttid :: int
  nextmid :: int
  helper :: nat
  initproc :: "nat option"
  forkret_addr :: addr
  trapret_addr :: addr

text \<open>How a stretch of a thread ends: the call returned, the thread goes on at \<open>q\<close> without any
  lock, or it has called \<^verbatim>\<open>sched\<close> and resumes at \<open>q\<close>.\<close>

datatype kout = Done int | Gap kpc | Off kpc

subsection \<open>Reading and writing the tables\<close>

definition upd_proc :: "nat \<Rightarrow> (proc \<Rightarrow> proc) \<Rightarrow> proc_st \<Rightarrow> proc_st" where
  "upd_proc i f s = s\<lparr>ptable := (ptable s)(i := f (ptable s i))\<rparr>"

definition upd_thread :: "nat \<Rightarrow> nat \<Rightarrow> (thread \<Rightarrow> thread) \<Rightarrow> proc_st \<Rightarrow> proc_st" where
  "upd_thread i j f s = upd_proc i (\<lambda>p. p\<lparr>threads := (threads p)(j := f (threads p j))\<rparr>) s"

definition upd_mutex :: "nat \<Rightarrow> (kthread_mutex_t \<Rightarrow> kthread_mutex_t) \<Rightarrow> proc_st \<Rightarrow> proc_st" where
  "upd_mutex k f s = s\<lparr>mtable := (mtable s)(k := f (mtable s k))\<rparr>"

definition thr :: "proc_st \<Rightarrow> nat \<Rightarrow> nat \<Rightarrow> thread" where
  "thr s i j = threads (ptable s i) j"

definition on_km :: "(kmem_st \<Rightarrow> ('a, kmem_st) res) \<Rightarrow> proc_st \<Rightarrow> ('a, proc_st) res" where
  "on_km = on_part km (\<lambda>k s. s\<lparr>km := k\<rparr>)"

abbreviation (input) set_tstate :: "nat \<Rightarrow> nat \<Rightarrow> threadstate \<Rightarrow> proc_st \<Rightarrow> proc_st" where
  "set_tstate i j st s \<equiv> upd_thread i j (\<lambda>t. t\<lparr>tstate := st\<rparr>) s"

subsection \<open>Waking up\<close>

definition wake_thread :: "chan \<Rightarrow> thread \<Rightarrow> thread" where
  "wake_thread c t = (if tstate t = TSLEEPING \<and> chan t = c then t\<lparr>tstate := TRUNNABLE\<rparr> else t)"

definition wakeup1 :: "chan \<Rightarrow> proc_st \<Rightarrow> proc_st" where
  "wakeup1 c s =
     s\<lparr>ptable := \<lambda>i. if i < NPROC
          then (ptable s i)\<lparr>threads := \<lambda>j. if j < NTHREAD then wake_thread c (threads (ptable s i) j)
                                            else threads (ptable s i) j\<rparr>
          else ptable s i\<rparr>"

definition wakeup2 :: "nat \<Rightarrow> chan \<Rightarrow> proc_st \<Rightarrow> proc_st" where
  "wakeup2 i c s =
     upd_proc i (\<lambda>p. p\<lparr>threads := \<lambda>j. if j < NTHREAD then wake_thread c (threads p j) else threads p j\<rparr>) s"

definition wakeup :: "chan \<Rightarrow> proc_st \<Rightarrow> proc_st" where
  "wakeup c s = wakeup1 c s"

text \<open>The two halves of \<^verbatim>\<open>sleep\<close>: up to \<^verbatim>\<open>sched\<close>, and after it.\<close>

definition sleep :: "nat \<Rightarrow> nat \<Rightarrow> chan \<Rightarrow> proc_st \<Rightarrow> proc_st" where
  "sleep i j c s = upd_thread i j (\<lambda>t. t\<lparr>chan := c, tstate := TSLEEPING\<rparr>) s"

definition sleep_tidy :: "nat \<Rightarrow> nat \<Rightarrow> proc_st \<Rightarrow> proc_st" where
  "sleep_tidy i j s = upd_thread i j (\<lambda>t. t\<lparr>chan := NoChan\<rparr>) s"

subsection \<open>Allocating a process with its first thread\<close>

text \<open>
  Offsets in \<^verbatim>\<open>struct trapframe\<close> (76 bytes) and \<^verbatim>\<open>struct context\<close> (20 bytes); both live on the
  kernel stack, which is a page of the allocator's memory.
\<close>

abbreviation (input) TF_SIZE :: "32 word" where "TF_SIZE \<equiv> 76"
abbreviation (input) TF_EAX :: "32 word" where "TF_EAX \<equiv> 28"
abbreviation (input) TF_ES :: "32 word" where "TF_ES \<equiv> 40"
abbreviation (input) TF_DS :: "32 word" where "TF_DS \<equiv> 44"
abbreviation (input) TF_EIP :: "32 word" where "TF_EIP \<equiv> 56"
abbreviation (input) TF_CS :: "32 word" where "TF_CS \<equiv> 60"
abbreviation (input) TF_EFLAGS :: "32 word" where "TF_EFLAGS \<equiv> 64"
abbreviation (input) TF_ESP :: "32 word" where "TF_ESP \<equiv> 68"
abbreviation (input) TF_SS :: "32 word" where "TF_SS \<equiv> 72"
abbreviation (input) CONTEXT_SIZE :: "32 word" where "CONTEXT_SIZE \<equiv> 20"
abbreviation (input) CONTEXT_EIP :: "32 word" where "CONTEXT_EIP \<equiv> 16"

definition store16 :: "memory \<Rightarrow> addr \<Rightarrow> 16 word \<Rightarrow> memory" where
  "store16 m a v = m(a := ucast v, a + 1 := ucast (drop_bit 8 v))"

definition upd_mem :: "(memory \<Rightarrow> memory) \<Rightarrow> proc_st \<Rightarrow> proc_st" where
  "upd_mem f s = s\<lparr>km := (km s)\<lparr>mem := f (mem (km s))\<rparr>\<rparr>"

text \<open>
  The frame and the context of a new kernel stack: the code that \<^verbatim>\<open>allocthread\<close> and
  \<^verbatim>\<open>kthread_create\<close> share.
\<close>

definition init_kstack :: "nat \<Rightarrow> nat \<Rightarrow> proc_st \<Rightarrow> proc_st" where
  "init_kstack i j s =
     (let sp = kstack (thr s i j) + KSTACKSIZE;
          sp = sp - TF_SIZE;
          s = upd_thread i j (\<lambda>t. t\<lparr>tf := sp\<rparr>) s;
          sp = sp - 4;
          s = upd_mem (\<lambda>m. store32 m sp (trapret_addr s)) s;
          sp = sp - CONTEXT_SIZE;
          s = upd_thread i j (\<lambda>t. t\<lparr>tcontext := sp, tpc := Forkret\<rparr>) s
      in upd_mem (\<lambda>m. store32 (memset m sp 0 CONTEXT_SIZE) (sp + CONTEXT_EIP) (forkret_addr s)) s)"

definition find_unused :: "proc_st \<Rightarrow> nat option" where
  "find_unused s =
     (case first_from (\<lambda>i. pstate (ptable s i) = PUNUSED) (helper s) NPROC of
        Some i \<Rightarrow> Some i
      | None \<Rightarrow> first_from (\<lambda>i. pstate (ptable s i) = PUNUSED) 0 NPROC)"

text \<open>\<^verbatim>\<open>allocthread\<close> returns thread 0 of the process whose index is given.\<close>

definition allocthread :: "proc_st \<Rightarrow> nat option \<times> proc_st" where
  "allocthread s =
     (case find_unused s of
        None \<Rightarrow> (None, s)
      | Some i \<Rightarrow>
          let s = s\<lparr>helper := if helper s = NPROC - 1 then 0 else helper s + 1\<rparr>;
              s = upd_proc i (\<lambda>p. p\<lparr>pid := nextpid s, pstate := PEMBRYO\<rparr>) s\<lparr>nextpid := nextpid s + 1\<rparr>;
              s = upd_thread i 0 (\<lambda>t. t\<lparr>tstate := TEMBRYO, tid := nexttid s, tparent := Some i\<rparr>) s
                    \<lparr>nexttid := nexttid s + 1\<rparr>;
              (ks, k) = kalloc (km s);
              s = upd_thread i 0 (\<lambda>t. t\<lparr>kstack := ks\<rparr>) s\<lparr>km := k\<rparr>
          in if ks = 0
             then (None, upd_thread i 0 (\<lambda>t. t\<lparr>tstate := TUNUSED\<rparr>) (upd_proc i (\<lambda>p. p\<lparr>pstate := PUNUSED\<rparr>) s))
             else (Some i, init_kstack i 0 s))"

text \<open>
  \<^verbatim>\<open>userinit\<close>, given the bytes of \<^verbatim>\<open>initcode\<close> (linked into the kernel) and the inode that
  \<^verbatim>\<open>namei("/")\<close> returns. A null result of \<^verbatim>\<open>allocthread\<close> is dereferenced by the C code.
\<close>

definition userinit :: "byte list \<Rightarrow> nat option \<Rightarrow> proc_st \<Rightarrow> (unit, proc_st) res" where
  "userinit initcode root s =
     (case allocthread s of
        (None, s) \<Rightarrow> Panic ''null pointer dereference''
      | (Some i, s) \<Rightarrow>
          let s = s\<lparr>initproc := Some i\<rparr>
          in rbind (on_km setupkvm s) (\<lambda>pg s.
             let s = upd_proc i (\<lambda>p. p\<lparr>pgdir := pg\<rparr>) s
             in if pg = 0 then Panic ''userinit: out of memory?''
                else rbind (on_km (inituvm pg initcode) s) (\<lambda>_ s.
                  let f = tf (thr s i 0);
                      s = upd_proc i (\<lambda>p. p\<lparr>sz := PGSIZE\<rparr>) s;
                      s = upd_mem (\<lambda>m. memset m f 0 TF_SIZE) s;
                      s = upd_mem (\<lambda>m. store16 m (f + TF_CS) 0x1B) s;
                      s = upd_mem (\<lambda>m. store16 m (f + TF_DS) 0x23) s;
                      s = upd_mem (\<lambda>m. store16 m (f + TF_ES) 0x23) s;
                      s = upd_mem (\<lambda>m. store16 m (f + TF_SS) 0x23) s;
                      s = upd_mem (\<lambda>m. store32 m (f + TF_EFLAGS) 0x200) s;
                      s = upd_mem (\<lambda>m. store32 m (f + TF_ESP) PGSIZE) s;
                      s = upd_mem (\<lambda>m. store32 m (f + TF_EIP) 0) s;
                      s = upd_proc i (\<lambda>p. p\<lparr>name := map (of_nat \<circ> of_char) ''initcode'', cwd := root,
                                             pstate := PUSED\<rparr>) s
                  in Ret () (set_tstate i 0 TRUNNABLE s))))"

subsection \<open>Growing and forking\<close>

text \<open>\<^verbatim>\<open>switchuvm\<close> also loads the registers of the processor; here only its checks matter.\<close>

definition check_switchuvm :: "nat \<Rightarrow> nat \<Rightarrow> proc_st \<Rightarrow> (unit, proc_st) res" where
  "check_switchuvm i j s =
     (case switchuvm False (kstack (thr s i j)) (pgdir (ptable s i)) \<lparr>cr3 = 0, ts_ss0 = 0, ts_esp0 = 0, ts_iomb = 0, tr = 0\<rparr> of
        Panic m \<Rightarrow> Panic m
      | _ \<Rightarrow> Ret () s)"

definition growproc :: "nat \<Rightarrow> nat \<Rightarrow> int \<Rightarrow> proc_st \<Rightarrow> (int, proc_st) res" where
  "growproc i j n s =
     (let old = sz (ptable s i);
          pg = pgdir (ptable s i);
          commit = (\<lambda>new s. let s = upd_proc i (\<lambda>p. p\<lparr>sz := new\<rparr>) s
                             in rbind (check_switchuvm i j s) (\<lambda>_ s. Ret 0 s))
      in if n > 0 then
           rbind (on_km (allocuvm pg old (old + of_int n)) s) (\<lambda>new s.
             if new = 0 then Ret (-1) s else commit new s)
         else if n < 0 then
           rbind (on_km (deallocuvm pg old (old + of_int n)) s) (\<lambda>new s.
             if new = 0 then Ret (-1) s else commit new s)
         else commit old s)"

text \<open>
  \<^verbatim>\<open>fork\<close>, called by thread \<open>(i, j)\<close>. The reference counts of the open files and of the current
  directory belong to the file layer; here the child gets the parent's pointers. Besides the
  returned pid the result names the child.
\<close>

definition fork :: "nat \<Rightarrow> nat \<Rightarrow> proc_st \<Rightarrow> (int \<times> nat option, proc_st) res" where
  "fork i j s =
     (case allocthread s of
        (None, s) \<Rightarrow> Ret (-1, None) s
      | (Some c, s) \<Rightarrow>
          rbind (on_km (copyuvm (pgdir (ptable s i)) (sz (ptable s i))) s) (\<lambda>pg s.
            let s = upd_proc c (\<lambda>p. p\<lparr>pgdir := pg\<rparr>) s
            in if pg = 0 then
                 rbind (on_km (kfree (kstack (thr s c 0))) s) (\<lambda>_ s.
                   let s = upd_thread c 0 (\<lambda>t. t\<lparr>kstack := 0, tstate := TUNUSED\<rparr>) s
                   in Ret (-1, None) (upd_proc c (\<lambda>p. p\<lparr>pstate := PUNUSED\<rparr>) s))
               else
                 let p = ptable s i;
                     s = upd_proc c (\<lambda>q. q\<lparr>sz := sz p, parent := Some i\<rparr>) s;
                     f = tf (thr s c 0);
                     s = upd_mem (\<lambda>m. memmove m f (tf (thr s i j)) TF_SIZE) s;
                     s = upd_mem (\<lambda>m. store32 m (f + TF_EAX) 0) s;
                     s = upd_proc c (\<lambda>q. q\<lparr>ofile := \<lambda>fd. if fd < 16 \<and> ofile p fd \<noteq> None then ofile p fd else ofile q fd,
                                           cwd := cwd p, name := name p, pstate := PUSED\<rparr>) s
                 in Ret (pid (ptable s c), Some c) (set_tstate c 0 TRUNNABLE s)))"

subsection \<open>Mutexes\<close>

definition find_mutex :: "int \<Rightarrow> proc_st \<Rightarrow> nat option" where
  "find_mutex k s = first_from (\<lambda>m. mid (mtable s m) = k) 0 MAX_MUTEXES"

definition kthread_mutex_alloc :: "nat \<Rightarrow> nat \<Rightarrow> proc_st \<Rightarrow> int \<times> proc_st" where
  "kthread_mutex_alloc i j s =
     (case find_mutex 0 s of
        None \<Rightarrow> (-1, s)
      | Some m \<Rightarrow>
          let s = upd_mutex m (\<lambda>x. x\<lparr>mid := nextmid s, mythread := None, myproc := Some i\<rparr>) s
                    \<lparr>nextmid := nextmid s + 1\<rparr>;
              s = upd_thread i j (\<lambda>t. t\<lparr>mutex := Some m\<rparr>) s;
              s = upd_mutex m (\<lambda>x. x\<lparr>mstate := MUNLOCKED\<rparr>) s
          in (mid (mtable s m), s))"

definition kthread_mutex_dealloc :: "nat \<Rightarrow> nat \<Rightarrow> int \<Rightarrow> proc_st \<Rightarrow> int \<times> proc_st" where
  "kthread_mutex_dealloc i j k s =
     (case find_mutex k s of
        None \<Rightarrow> (-1, s)
      | Some m \<Rightarrow>
          if mstate (mtable s m) = MLOCKED then (-1, s)
          else (0, upd_thread i j (\<lambda>t. t\<lparr>mutex := None\<rparr>)
                     (upd_mutex m (\<lambda>x. x\<lparr>mid := 0, mythread := None, mstate := MUNLOCKED\<rparr>) s)))"

text \<open>
  The loop \<^verbatim>\<open>while(xchg(&m->state, MLOCKED) != 0) sleep(m, &mtable.mlock)\<close> and what follows it,
  from a point where \<^verbatim>\<open>mlock\<close> is held. \<^verbatim>\<open>sleep\<close> takes \<^verbatim>\<open>ptable.lock\<close> before it releases \<^verbatim>\<open>mlock\<close>, so
  nothing comes between the exchange and the change to \<^verbatim>\<open>TSLEEPING\<close>.
\<close>

definition mutex_lock_loop :: "nat \<Rightarrow> nat \<Rightarrow> nat \<Rightarrow> proc_st \<Rightarrow> kout \<times> proc_st" where
  "mutex_lock_loop i j m s =
     (let old = mstate (mtable s m);
          s = upd_mutex m (\<lambda>x. x\<lparr>mstate := MLOCKED\<rparr>) s
      in if old \<noteq> MUNLOCKED then (Off (LockAwake m), sleep i j (MutexChan m) s)
         else (Done 0, upd_mutex m (\<lambda>x. x\<lparr>mythread := Some (i, j)\<rparr>) s))"

definition kthread_mutex_lock :: "nat \<Rightarrow> nat \<Rightarrow> int \<Rightarrow> proc_st \<Rightarrow> kout \<times> proc_st" where
  "kthread_mutex_lock i j k s =
     (case find_mutex k s of
        None \<Rightarrow> (Done (-1), s)
      | Some m \<Rightarrow>
          if mstate (mtable s m) = MLOCKED \<and> mythread (mtable s m) = Some (i, j) then (Done (-1), s)
          else mutex_lock_loop i j m s)"

text \<open>\<^verbatim>\<open>kthread_mutex_unlock\<close> up to the release of \<^verbatim>\<open>mlock\<close>; \<^verbatim>\<open>wakeup(m)\<close> follows without it.\<close>

definition kthread_mutex_unlock :: "nat \<Rightarrow> nat \<Rightarrow> int \<Rightarrow> proc_st \<Rightarrow> (kout, proc_st) res" where
  "kthread_mutex_unlock i j k s =
     (case find_mutex k s of
        None \<Rightarrow> Ret (Done (-1)) s
      | Some m \<Rightarrow>
          if mstate (mtable s m) = MUNLOCKED then Ret (Done (-1)) s
          else case mythread (mtable s m) of
                 None \<Rightarrow> Panic ''null pointer dereference''
               | Some (i', j') \<Rightarrow>
                   if tid (thr s i' j') \<noteq> tid (thr s i j) then Ret (Done (-1)) s
                   else Ret (Gap (UnlockWakeup m))
                          (upd_mutex m (\<lambda>x. x\<lparr>mythread := None, mstate := MUNLOCKED\<rparr>) s))"

subsection \<open>Removing threads\<close>

text \<open>
  \<^verbatim>\<open>remove_thread(t)\<close> with \<open>t = (i, k)\<close>, called by thread \<open>(ci, cj)\<close>: the mutex that \<open>t\<close> allocated
  last is deallocated if it is not locked, and it is the caller's \<^verbatim>\<open>mutex\<close> field, not \<open>t\<close>'s, that
  \<^verbatim>\<open>kthread_mutex_dealloc\<close> clears.
\<close>

definition drop_mutex :: "nat \<Rightarrow> nat \<Rightarrow> nat \<Rightarrow> nat \<Rightarrow> proc_st \<Rightarrow> proc_st" where
  "drop_mutex ci cj i k s =
     (case mutex (thr s i k) of
        None \<Rightarrow> s
      | Some m \<Rightarrow> snd (kthread_mutex_dealloc ci cj (mid (mtable s m)) s))"

definition remove_thread :: "nat \<Rightarrow> nat \<Rightarrow> nat \<Rightarrow> nat \<Rightarrow> proc_st \<Rightarrow> (unit, proc_st) res" where
  "remove_thread ci cj i k s =
     rbind (if kstack (thr s i k) \<noteq> 0 then on_km (kfree (kstack (thr s i k))) s else Ret () s) (\<lambda>_ s.
       Ret () (upd_thread i k (\<lambda>t. t\<lparr>kstack := 0, tid := 0, tstate := TUNUSED, tparent := None,
                                    tkilled := False\<rparr>) (drop_mutex ci cj i k s)))"

text \<open>The inner \<^verbatim>\<open>for\<close> loop of \<^verbatim>\<open>kill_other_threads\<close>, over the thread slots that are left.\<close>

fun kill_loop :: "nat \<Rightarrow> nat \<Rightarrow> nat list \<Rightarrow> bool \<Rightarrow> proc_st \<Rightarrow> (bool, proc_st) res" where
  "kill_loop i j [] found s = Ret found s"
| "kill_loop i j (k # ks) found s =
     (if tid (thr s i k) \<noteq> tid (thr s i j) \<and> tstate (thr s i k) \<noteq> TUNUSED then
        let s = upd_thread i k (\<lambda>t. t\<lparr>tkilled := True\<rparr>) s
        in rbind (if tstate (thr s i k) = TSLEEPING \<or> tstate (thr s i k) = TZOMBIE
                  then remove_thread i j i k s else Ret () s)
             (\<lambda>_ s. kill_loop i j ks True s)
      else kill_loop i j ks found s)"

text \<open>The body of its \<^verbatim>\<open>for(;;)\<close>; \<open>from_exit\<close> says whether \<^verbatim>\<open>exit\<close> or \<^verbatim>\<open>exec\<close> called it.\<close>

definition kill_round :: "bool \<Rightarrow> nat \<Rightarrow> nat \<Rightarrow> proc_st \<Rightarrow> (kout, proc_st) res" where
  "kill_round from_exit i j s =
     rbind (kill_loop i j [0..<NTHREAD] False s) (\<lambda>found s.
       if \<not> found then Ret (if from_exit then Gap ExitTail else Done 0) s
       else Ret (Off (KillAwake from_exit)) (set_tstate i j TRUNNABLE s))"

definition kill_other_threads :: "bool \<Rightarrow> nat \<Rightarrow> nat \<Rightarrow> proc_st \<Rightarrow> (kout, proc_st) res" where
  "kill_other_threads from_exit i j s =
     (if tkilled (thr s i j)
      then Ret (Off Dead) (set_tstate i j TZOMBIE (wakeup1 (ThreadChan i j) s))
      else kill_round from_exit i j s)"

subsection \<open>Exit, wait and kill\<close>

definition exit :: "nat \<Rightarrow> nat \<Rightarrow> proc_st \<Rightarrow> (kout, proc_st) res" where
  "exit i j s =
     (if initproc s = Some i then Panic ''init exiting'' else kill_other_threads True i j s)"

text \<open>
  \<^verbatim>\<open>safe_exit\<close> from its \<^verbatim>\<open>acquire(&ptable.lock)\<close> on; the part before it closes the files and drops
  the current directory.
\<close>

definition proc_chan :: "nat option \<Rightarrow> chan" where
  "proc_chan p = (case p of None \<Rightarrow> NoChan | Some i \<Rightarrow> ProcChan i)"

definition reparent_one :: "nat \<Rightarrow> nat \<Rightarrow> proc_st \<Rightarrow> proc_st" where
  "reparent_one i c s =
     (if parent (ptable s c) = Some i then
        let s = upd_proc c (\<lambda>p. p\<lparr>parent := initproc s\<rparr>) s
        in if pstate (ptable s c) = PZOMBIE then wakeup1 (proc_chan (initproc s)) s else s
      else s)"

definition safe_exit_tail :: "nat \<Rightarrow> nat \<Rightarrow> proc_st \<Rightarrow> kout \<times> proc_st" where
  "safe_exit_tail i j s =
     (let s = wakeup1 (proc_chan (parent (ptable s i))) s;
          s = fold (reparent_one i) [0..<NPROC] s;
          s = upd_proc i (\<lambda>p. p\<lparr>pstate := PZOMBIE\<rparr>) s
      in (Off Dead, set_tstate i j TUNUSED s))"

text \<open>One pass of the \<^verbatim>\<open>for(;;)\<close> of \<^verbatim>\<open>wait\<close>.\<close>

definition reap :: "nat \<Rightarrow> nat \<Rightarrow> nat \<Rightarrow> proc_st \<Rightarrow> (int, proc_st) res" where
  "reap i j c s =
     rbind (for_each (\<lambda>k. remove_thread i j c k) [0..<NTHREAD] s) (\<lambda>_ s.
       let r = pid (ptable s c)
       in rbind (on_km (freevm (pgdir (ptable s c))) s) (\<lambda>_ s.
            Ret r (upd_proc c (\<lambda>p. p\<lparr>pid := 0, parent := None, name := [], killed := False,
                                    pstate := PUNUSED\<rparr>) s)))"

definition wait :: "nat \<Rightarrow> nat \<Rightarrow> proc_st \<Rightarrow> (kout, proc_st) res" where
  "wait i j s =
     (case first_from (\<lambda>c. parent (ptable s c) = Some i \<and> pstate (ptable s c) = PZOMBIE) 0 NPROC of
        Some c \<Rightarrow> rbind (reap i j c s) (\<lambda>r s. Ret (Done r) s)
      | None \<Rightarrow>
          let havekids = (\<exists>c\<in>{..<NPROC}. parent (ptable s c) = Some i)
          in if \<not> havekids \<or> killed (ptable s i) then Ret (Done (-1)) s
             else Ret (Off WaitAwake) (sleep i j (ProcChan i) s))"

definition kill :: "int \<Rightarrow> proc_st \<Rightarrow> int \<times> proc_st" where
  "kill k s =
     (case first_from (\<lambda>i. pid (ptable s i) = k) 0 NPROC of
        None \<Rightarrow> (-1, s)
      | Some i \<Rightarrow> (0, upd_proc i (\<lambda>p. p\<lparr>killed := True\<rparr>) s))"

definition yield :: "nat \<Rightarrow> nat \<Rightarrow> proc_st \<Rightarrow> kout \<times> proc_st" where
  "yield i j s = (Off YieldAwake, set_tstate i j TRUNNABLE s)"

subsection \<open>Kernel threads\<close>

definition kthread_create :: "nat \<Rightarrow> nat \<Rightarrow> addr \<Rightarrow> addr \<Rightarrow> proc_st \<Rightarrow> int \<times> proc_st" where
  "kthread_create i j start_func stack s =
     (case first_from (\<lambda>k. tstate (thr s i k) = TUNUSED) 0 NTHREAD of
        None \<Rightarrow> (-1, s)
      | Some k \<Rightarrow>
          let s = upd_thread i k (\<lambda>t. t\<lparr>tstate := TEMBRYO, tid := nexttid s, tparent := Some i\<rparr>) s
                    \<lparr>nexttid := nexttid s + 1\<rparr>;
              (ks, mm) = kalloc (km s);
              s = upd_thread i k (\<lambda>t. t\<lparr>kstack := ks\<rparr>) s\<lparr>km := mm\<rparr>
          in if ks = 0 then (-1, set_tstate i k TUNUSED s)
             else let s = init_kstack i k s;
                      f = tf (thr s i k);
                      s = upd_mem (\<lambda>m. memmove m f (tf (thr s i j)) TF_SIZE) s;
                      s = upd_mem (\<lambda>m. store32 m (f + TF_EIP) start_func) s;
                      s = upd_mem (\<lambda>m. store32 m (f + TF_ESP) (stack + MAX_STACK_SIZE)) s;
                      s = set_tstate i k TRUNNABLE s
                  in (tid (thr s i k), s))"

definition kthread_id :: "(nat \<times> nat) option \<Rightarrow> proc_st \<Rightarrow> int" where
  "kthread_id cur s = (case cur of Some (i, j) \<Rightarrow> tid (thr s i j) | None \<Rightarrow> -1)"

definition kthread_exit :: "nat \<Rightarrow> nat \<Rightarrow> proc_st \<Rightarrow> kout \<times> proc_st" where
  "kthread_exit i j s =
     (let found = (\<exists>k\<in>{..<NTHREAD}. k \<noteq> j \<and> tstate (thr s i k) \<noteq> TUNUSED \<and> tstate (thr s i k) \<noteq> TZOMBIE)
      in if \<not> found then (Gap ExitEntry, s)
         else (Off Dead, wakeup2 i (ThreadChan i j) (set_tstate i j TZOMBIE s)))"

text \<open>
  \<^verbatim>\<open>kthread_join\<close> looks at \<^verbatim>\<open>*t\<close> also when its search has run past the last slot: then \<^verbatim>\<open>t->tid\<close>
  and \<^verbatim>\<open>t->state\<close> are the two words behind the array, the fields \<^verbatim>\<open>num_of_threads\<close> and \<^verbatim>\<open>invalid\<close>
  of the process. Neither is ever written, so they read as 0 and \<^verbatim>\<open>TUNUSED\<close>.
\<close>

definition state_of_int :: "int \<Rightarrow> threadstate" where
  "state_of_int n =
     (if n = 0 then TUNUSED else if n = 1 then TEMBRYO else if n = 2 then TSLEEPING
      else if n = 3 then TRUNNABLE else if n = 4 then TRUNNING else if n = 5 then TZOMBIE else TINVALID)"

definition join_view :: "proc_st \<Rightarrow> nat \<Rightarrow> nat \<Rightarrow> int \<times> threadstate" where
  "join_view s i k =
     (if k < NTHREAD then (tid (thr s i k), tstate (thr s i k))
      else (num_of_threads (ptable s i), state_of_int (invalid (ptable s i))))"

definition join_loop :: "nat \<Rightarrow> nat \<Rightarrow> nat \<Rightarrow> int \<Rightarrow> proc_st \<Rightarrow> (kout, proc_st) res" where
  "join_loop i j k thread_id s =
     (let (n, st) = join_view s i k
      in if n = thread_id \<and> st \<noteq> TZOMBIE \<and> st \<noteq> TUNUSED
         then Ret (Off (JoinAwake k thread_id)) (sleep i j (ThreadChan i k) s)
         else if st = TZOMBIE then rbind (remove_thread i j i k s) (\<lambda>_ s. Ret (Done 0) s)
         else Ret (Done (-1)) s)"

definition kthread_join :: "nat \<Rightarrow> nat \<Rightarrow> int \<Rightarrow> proc_st \<Rightarrow> (kout, proc_st) res" where
  "kthread_join i j thread_id s =
     (let k = (case first_from (\<lambda>k. tid (thr s i k) = thread_id) 0 NTHREAD of Some k \<Rightarrow> k | None \<Rightarrow> NTHREAD)
      in join_loop i j k thread_id s)"

text \<open>\<^verbatim>\<open>kthread_join2(t)\<close> with \<open>t = (ti, tk)\<close> waits in the same way and does not free the slot.\<close>

definition kthread_join2 :: "nat \<Rightarrow> nat \<Rightarrow> nat \<Rightarrow> nat \<Rightarrow> proc_st \<Rightarrow> kout \<times> proc_st" where
  "kthread_join2 i j ti tk s =
     (let st = tstate (thr s ti tk)
      in if st \<noteq> TZOMBIE \<and> st \<noteq> TUNUSED then (Off (Join2Awake ti tk), sleep i j (ThreadChan ti tk) s)
         else if st = TZOMBIE then (Done 0, s)
         else (Done (-1), s))"

subsection \<open>The scheduler\<close>

text \<open>
  Where a processor's \<^verbatim>\<open>scheduler\<close> stands: about to look at process \<open>i\<close>, or in the inner loop of
  process \<open>i\<close> about to look at thread \<open>j\<close>. A sleeping thread that has been killed is made runnable
  when the loop reaches it, and is then chosen at once.
\<close>

datatype spos = AtProc nat | InProc nat nat

definition can_run :: "thread \<Rightarrow> bool" where
  "can_run t \<longleftrightarrow> tstate t = TRUNNABLE \<or> (tstate t = TSLEEPING \<and> tkilled t)"

definition sched_in :: "proc_st \<Rightarrow> nat \<Rightarrow> nat \<Rightarrow> nat option" where
  "sched_in s i j = first_from (\<lambda>j. can_run (thr s i j)) j NTHREAD"

definition sched_from :: "proc_st \<Rightarrow> nat \<Rightarrow> (nat \<times> nat) option" where
  "sched_from s i =
     (case first_from (\<lambda>i. pstate (ptable s i) = PUSED \<and> sched_in s i 0 \<noteq> None) i NPROC of
        None \<Rightarrow> None
      | Some i \<Rightarrow> (case sched_in s i 0 of None \<Rightarrow> None | Some j \<Rightarrow> Some (i, j)))"

fun scheduler_next :: "proc_st \<Rightarrow> spos \<Rightarrow> (nat \<times> nat) option" where
  "scheduler_next s (AtProc i) = sched_from s i"
| "scheduler_next s (InProc i j) =
     (case sched_in s i j of Some k \<Rightarrow> Some (i, k) | None \<Rightarrow> sched_from s (Suc i))"

text \<open>Where the scheduler goes on when thread \<open>(i, j)\<close> has switched back to it.\<close>

definition scheduler_after :: "proc_st \<Rightarrow> nat \<Rightarrow> nat \<Rightarrow> spos" where
  "scheduler_after s i j = (if pstate (ptable s i) \<noteq> PUSED then AtProc (Suc i) else InProc i (Suc j))"

text \<open>The checks of \<^verbatim>\<open>sched\<close>, on the processor and the state of the thread that calls it.\<close>

definition sched :: "bool \<Rightarrow> cpu \<Rightarrow> threadstate \<Rightarrow> (bool, unit) res" where
  "sched holding_ptable c st =
     (if \<not> holding_ptable then Panic ''sched ptable.lock''
      else if ncli c \<noteq> 1 then Panic ''sched locks''
      else if st = TRUNNING then Panic ''sched running''
      else if eflags_if c then Panic ''sched interruptible''
      else Ret (intena c) ())"

subsection \<open>What an update leaves alone\<close>

lemma thr_upd_thread [simp]:
  "thr (upd_thread i j f s) i' j' = (if i' = i \<and> j' = j then f (thr s i j) else thr s i' j')"
  by (simp add: thr_def upd_thread_def upd_proc_def)

lemma thr_upd_proc [simp]: "(\<And>p. threads (f p) = threads p) \<Longrightarrow> thr (upd_proc i f s) = thr s"
  by (auto simp: thr_def upd_proc_def fun_eq_iff)

lemma thr_frame [simp]:
  "thr (s\<lparr>km := k\<rparr>) = thr s" "thr (s\<lparr>mtable := mt\<rparr>) = thr s" "thr (s\<lparr>nextpid := n\<rparr>) = thr s"
  "thr (s\<lparr>nexttid := n\<rparr>) = thr s" "thr (s\<lparr>nextmid := n\<rparr>) = thr s" "thr (s\<lparr>helper := h\<rparr>) = thr s"
  "thr (s\<lparr>initproc := ip\<rparr>) = thr s" "thr (upd_mem g s) = thr s" "thr (upd_mutex m u s) = thr s"
  by (simp_all add: thr_def fun_eq_iff upd_mem_def upd_mutex_def)

lemma ptable_upd_proc [simp]: "ptable (upd_proc i f s) = (ptable s)(i := f (ptable s i))"
  by (simp add: upd_proc_def)

lemma ptable_upd_thread [simp]:
  "pstate (ptable (upd_thread i j f s) k) = pstate (ptable s k)"
  "parent (ptable (upd_thread i j f s) k) = parent (ptable s k)"
  "pid (ptable (upd_thread i j f s) k) = pid (ptable s k)"
  "killed (ptable (upd_thread i j f s) k) = killed (ptable s k)"
  "pgdir (ptable (upd_thread i j f s) k) = pgdir (ptable s k)"
  "num_of_threads (ptable (upd_thread i j f s) k) = num_of_threads (ptable s k)"
  "invalid (ptable (upd_thread i j f s) k) = invalid (ptable s k)"
  by (simp_all add: upd_thread_def upd_proc_def)

lemma ptable_frame [simp]: "ptable (upd_mem g s) = ptable s" "ptable (upd_mutex m u s) = ptable s"
  by (simp_all add: upd_mem_def upd_mutex_def)

lemma scalars_frame [simp]:
  "nexttid (upd_thread i j f s) = nexttid s" "nexttid (upd_proc i g s) = nexttid s"
  "nexttid (upd_mem h s) = nexttid s" "nexttid (upd_mutex m u s) = nexttid s"
  "nextmid (upd_thread i j f s) = nextmid s" "nextmid (upd_proc i g s) = nextmid s"
  "nextmid (upd_mem h s) = nextmid s" "nextmid (upd_mutex m u s) = nextmid s"
  "nextpid (upd_thread i j f s) = nextpid s" "nextpid (upd_proc i g s) = nextpid s"
  "nextpid (upd_mem h s) = nextpid s" "nextpid (upd_mutex m u s) = nextpid s"
  "mtable (upd_thread i j f s) = mtable s" "mtable (upd_proc i g s) = mtable s"
  "mtable (upd_mem h s) = mtable s" "mtable (upd_mutex m u s) = (mtable s)(m := u (mtable s m))"
  "km (upd_thread i j f s) = km s" "km (upd_proc i g s) = km s" "km (upd_mutex m u s) = km s"
  "initproc (upd_thread i j f s) = initproc s" "initproc (upd_proc i g s) = initproc s"
  "initproc (upd_mem h s) = initproc s" "initproc (upd_mutex m u s) = initproc s"
  "trapret_addr (upd_thread i j f s) = trapret_addr s" "forkret_addr (upd_thread i j f s) = forkret_addr s"
  "trapret_addr (upd_mem h s) = trapret_addr s" "forkret_addr (upd_mem h s) = forkret_addr s"
  "trapret_addr (upd_proc i g s) = trapret_addr s" "forkret_addr (upd_proc i g s) = forkret_addr s"
  by (simp_all add: upd_thread_def upd_proc_def upd_mem_def upd_mutex_def)

lemma on_km_eq_Ret: "on_km f s = Ret x s' \<longleftrightarrow> (\<exists>k. f (km s) = Ret x k \<and> s' = s\<lparr>km := k\<rparr>)"
  by (simp add: on_km_def on_part_eq_Ret)

lemma thr_wakeup1: "thr (wakeup1 c s) i j = (if i < NPROC \<and> j < NTHREAD then wake_thread c (thr s i j) else thr s i j)"
  by (simp add: thr_def wakeup1_def)

lemma thr_wakeup2:
  "thr (wakeup2 i c s) i' j = (if i' = i \<and> j < NTHREAD then wake_thread c (thr s i j) else thr s i' j)"
  by (simp add: thr_def wakeup2_def upd_proc_def)

lemma wakeup_frame [simp]:
  "pstate (ptable (wakeup1 c s) k) = pstate (ptable s k)" "parent (ptable (wakeup1 c s) k) = parent (ptable s k)"
  "nexttid (wakeup1 c s) = nexttid s" "mtable (wakeup1 c s) = mtable s" "initproc (wakeup1 c s) = initproc s"
  "nextmid (wakeup1 c s) = nextmid s" "km (wakeup1 c s) = km s"
  "pstate (ptable (wakeup2 i c s) k) = pstate (ptable s k)" "nexttid (wakeup2 i c s) = nexttid s"
  "mtable (wakeup2 i c s) = mtable s" "nextmid (wakeup2 i c s) = nextmid s"
  by (simp_all add: wakeup1_def wakeup2_def upd_proc_def)

lemma wake_thread_simps [simp]:
  "tid (wake_thread c t) = tid t" "tpc (wake_thread c t) = tpc t" "chan (wake_thread c t) = chan t"
  "tkilled (wake_thread c t) = tkilled t" "kstack (wake_thread c t) = kstack t" "mutex (wake_thread c t) = mutex t"
  "tf (wake_thread c t) = tf t"
  "tstate (wake_thread c t) = (if tstate t = TSLEEPING \<and> chan t = c then TRUNNABLE else tstate t)"
  by (simp_all add: wake_thread_def)

lemma remove_thread_RetE:
  assumes "remove_thread ci cj i k s = Ret u s'"
  obtains mm where "s' = upd_thread i k (\<lambda>t. t\<lparr>kstack := 0, tid := 0, tstate := TUNUSED, tparent := None,
      tkilled := False\<rparr>) (drop_mutex ci cj i k (s\<lparr>km := mm\<rparr>))"
proof (cases "kstack (thr s i k) = 0")
  case True
  then show thesis using that [of "km s"] assms by (simp add: remove_thread_def)
next
  case False
  then obtain mm where "kfree (kstack (thr s i k)) (km s) = Ret () mm"
      "s' = upd_thread i k (\<lambda>t. t\<lparr>kstack := 0, tid := 0, tstate := TUNUSED, tparent := None,
        tkilled := False\<rparr>) (drop_mutex ci cj i k (s\<lparr>km := mm\<rparr>))"
    using assms by (auto simp: remove_thread_def on_km_eq_Ret)
  then show thesis using that by blast
qed

subsection \<open>The state after boot\<close>

text \<open>The first process alone, not yet scheduled; used in examples.\<close>

definition idle_thread :: thread where
  "idle_thread = \<lparr>tid = 0, tstate = TUNUSED, kstack = 0, tparent = None, tf = 0, tcontext = 0,
     chan = NoChan, tkilled = False, mutex = None, tpc = User\<rparr>"

definition idle_proc :: proc where
  "idle_proc = \<lparr>sz = 0, pgdir = 0, pstate = PUNUSED, pid = 0, parent = None, killed = False,
     ofile = (\<lambda>_. None), cwd = None, name = [], threads = (\<lambda>_. idle_thread),
     num_of_threads = 0, invalid = 0\<rparr>"

definition boot_st :: proc_st where
  "boot_st = \<lparr>km = kmem_example\<lparr>freelist := 0x80102000\<rparr>,
     ptable = (\<lambda>_. idle_proc)(0 := idle_proc\<lparr>pstate := PUSED, pid := 1,
       threads := (\<lambda>_. idle_thread)(0 := idle_thread\<lparr>tid := 1, tstate := TRUNNABLE, tpc := Forkret\<rparr>)\<rparr>),
     mtable = (\<lambda>_. \<lparr>mythread = None, myproc = None, mid = 0, mstate = MUNLOCKED\<rparr>),
     nextpid = 2, nexttid = 2, nextmid = 1, helper = 1, initproc = Some 0, forkret_addr = 0, trapret_addr = 0\<rparr>"

end
