(* ===== verification/Ksched.thy ===== *)
theory Ksched
  imports Proc
begin

section \<open>Threads on processors: the kernel as a transition system\<close>

text \<open>
  The stretches of \<^verbatim>\<open>proc.c\<close> put together. A state has the tables, the thread that each processor
  runs (\<^verbatim>\<open>c->thread\<close>, with its process), and where each processor's \<^verbatim>\<open>scheduler\<close> loop stands. A step
  is one stretch of one processor: a call, the continuation of a call, a timer interrupt, an
  interrupt handler's \<^verbatim>\<open>wakeup\<close>, or a turn of the scheduler. Steps of different processors
  interleave in any order. The set \<open>held\<close> is a history variable: which threads have been told by
  \<^verbatim>\<open>kthread_mutex_lock\<close> that they own which mutex and have not yet unlocked it.
\<close>

datatype kcall =
    CallCreate addr addr | CallKexit | CallJoin int
  | CallAlloc | CallDealloc int | CallLock int | CallUnlock int
  | CallFork | CallWait | CallKill int | CallExit | CallExec
  | CallYield | CallSleep chan | CallWakeup chan

fun enter :: "kcall \<Rightarrow> nat \<Rightarrow> nat \<Rightarrow> proc_st \<Rightarrow> (kout, proc_st) res" where
  "enter (CallCreate f stk) i j s = (let (r, s) = kthread_create i j f stk s in Ret (Done r) s)"
| "enter CallKexit i j s = (let (r, s) = kthread_exit i j s in Ret r s)"
| "enter (CallJoin n) i j s = kthread_join i j n s"
| "enter CallAlloc i j s = (let (r, s) = kthread_mutex_alloc i j s in Ret (Done r) s)"
| "enter (CallDealloc k) i j s = (let (r, s) = kthread_mutex_dealloc i j k s in Ret (Done r) s)"
| "enter (CallLock k) i j s = (let (r, s) = kthread_mutex_lock i j k s in Ret r s)"
| "enter (CallUnlock k) i j s = kthread_mutex_unlock i j k s"
| "enter CallFork i j s = rbind (fork i j s) (\<lambda>(r, _) s. Ret (Done r) s)"
| "enter CallWait i j s = wait i j s"
| "enter (CallKill k) i j s = (let (r, s) = kill k s in Ret (Done r) s)"
| "enter CallExit i j s = exit i j s"
| "enter CallExec i j s = kill_other_threads False i j s"
| "enter CallYield i j s = (let (r, s) = yield i j s in Ret r s)"
| "enter (CallSleep c) i j s = Ret (Off (SleepAwake User)) (sleep i j c s)"
| "enter (CallWakeup c) i j s = Ret (Done 0) (wakeup c s)"

fun resume :: "kpc \<Rightarrow> nat \<Rightarrow> nat \<Rightarrow> proc_st \<Rightarrow> (kout, proc_st) res" where
  "resume User i j s = Ret (Done 0) s"
| "resume Forkret i j s = Ret (Done 0) s"
| "resume YieldAwake i j s = Ret (Done 0) s"
| "resume (SleepAwake q) i j s = Ret (Gap q) (sleep_tidy i j s)"
| "resume (LockAwake m) i j s = Ret (Gap (LockAcquire m)) (sleep_tidy i j s)"
| "resume (LockAcquire m) i j s = (let (r, s) = mutex_lock_loop i j m s in Ret r s)"
| "resume (UnlockWakeup m) i j s = Ret (Done 0) (wakeup (MutexChan m) s)"
| "resume (JoinAwake k n) i j s = join_loop i j k n (sleep_tidy i j s)"
| "resume (Join2Awake ti tk) i j s = (let (r, s) = kthread_join2 i j ti tk (sleep_tidy i j s) in Ret r s)"
| "resume WaitAwake i j s = wait i j (sleep_tidy i j s)"
| "resume (KillAwake b) i j s = kill_round b i j s"
| "resume ExitEntry i j s = exit i j s"
| "resume ExitTail i j s = (let (r, s) = safe_exit_tail i j s in Ret r s)"
| "resume Dead i j s = Panic ''zombie exit''"

text \<open>The channels that kernel code outside \<^verbatim>\<open>proc.c\<close> sleeps on are not those of mutexes.\<close>

fun mutex_chan :: "chan \<Rightarrow> bool" where
  "mutex_chan (MutexChan m) \<longleftrightarrow> True"
| "mutex_chan _ \<longleftrightarrow> False"

fun call_ok :: "kcall \<Rightarrow> bool" where
  "call_ok (CallSleep c) \<longleftrightarrow> \<not> mutex_chan c"
| "call_ok _ \<longleftrightarrow> True"

text \<open>Points where no lock is held and a timer interrupt can take the processor away.\<close>

fun preemptible :: "kpc \<Rightarrow> bool" where
  "preemptible User \<longleftrightarrow> True"
| "preemptible (LockAcquire m) \<longleftrightarrow> True"
| "preemptible (UnlockWakeup m) \<longleftrightarrow> True"
| "preemptible ExitEntry \<longleftrightarrow> True"
| "preemptible ExitTail \<longleftrightarrow> True"
| "preemptible _ \<longleftrightarrow> False"

record ksys =
  kst :: proc_st
  cur :: "nat \<Rightarrow> (nat \<times> nat) option"
  pos :: "nat \<Rightarrow> spos"
  held :: "nat \<Rightarrow> (nat \<times> nat) set"

definition finish :: "nat \<Rightarrow> nat \<Rightarrow> nat \<Rightarrow> kout \<Rightarrow> proc_st \<Rightarrow> ksys \<Rightarrow> ksys" where
  "finish c i j r s S =
     (case r of
        Done v \<Rightarrow> S\<lparr>kst := upd_thread i j (\<lambda>t. t\<lparr>tpc := User\<rparr>) s\<rparr>
      | Gap q \<Rightarrow> S\<lparr>kst := upd_thread i j (\<lambda>t. t\<lparr>tpc := q\<rparr>) s\<rparr>
      | Off q \<Rightarrow> S\<lparr>kst := upd_thread i j (\<lambda>t. t\<lparr>tpc := q\<rparr>) s, cur := (cur S)(c := None),
                   pos := (pos S)(c := scheduler_after s i j)\<rparr>)"

fun lock_call :: "kcall \<Rightarrow> proc_st \<Rightarrow> nat option" where
  "lock_call (CallLock k) s = find_mutex k s"
| "lock_call _ s = None"

fun lock_pc :: "kpc \<Rightarrow> nat option" where
  "lock_pc (LockAcquire m) = Some m"
| "lock_pc _ = None"

definition note_held :: "nat option \<Rightarrow> kout \<Rightarrow> nat \<times> nat \<Rightarrow> (nat \<Rightarrow> (nat \<times> nat) set) \<Rightarrow> nat \<Rightarrow> (nat \<times> nat) set" where
  "note_held target r t h =
     (case r of
        Done v \<Rightarrow> (case target of Some m \<Rightarrow> if v = 0 then h(m := insert t (h m)) else h | None \<Rightarrow> h)
      | Gap (UnlockWakeup m) \<Rightarrow> h(m := h m - {t})
      | _ \<Rightarrow> h)"

inductive kstep :: "ksys \<Rightarrow> ksys \<Rightarrow> bool" where
  dispatch: "cur S c = None \<Longrightarrow> scheduler_next (kst S) (pos S c) = Some (i, j) \<Longrightarrow>
    kstep S (S\<lparr>kst := set_tstate i j TRUNNING (kst S), cur := (cur S)(c := Some (i, j))\<rparr>)"
| next_round: "cur S c = None \<Longrightarrow> scheduler_next (kst S) (pos S c) = None \<Longrightarrow>
    kstep S (S\<lparr>pos := (pos S)(c := AtProc 0)\<rparr>)"
| enter_call: "cur S c = Some (i, j) \<Longrightarrow> tpc (thr (kst S) i j) = User \<Longrightarrow> call_ok op \<Longrightarrow>
    enter op i j (kst S) = Ret r s' \<Longrightarrow>
    kstep S (finish c i j r s' (S\<lparr>held := note_held (lock_call op (kst S)) r (i, j) (held S)\<rparr>))"
| resume_call: "cur S c = Some (i, j) \<Longrightarrow> tpc (thr (kst S) i j) \<noteq> User \<Longrightarrow>
    resume (tpc (thr (kst S) i j)) i j (kst S) = Ret r s' \<Longrightarrow>
    kstep S (finish c i j r s' (S\<lparr>held := note_held (lock_pc (tpc (thr (kst S) i j))) r (i, j) (held S)\<rparr>))"
| exit_sleep: "cur S c = Some (i, j) \<Longrightarrow> tpc (thr (kst S) i j) = ExitTail \<Longrightarrow> \<not> mutex_chan ch \<Longrightarrow>
    kstep S (finish c i j (Off (SleepAwake ExitTail)) (sleep i j ch (kst S)) S)"
| preempt: "cur S c = Some (i, j) \<Longrightarrow> preemptible (tpc (thr (kst S) i j)) \<Longrightarrow>
    kstep S (finish c i j (Off (tpc (thr (kst S) i j))) (set_tstate i j TRUNNABLE (kst S)) S)"
| interrupt: "kstep S (S\<lparr>kst := wakeup ch (kst S)\<rparr>)"

text \<open>
  The state after \<^verbatim>\<open>userinit\<close>: one process with one runnable thread, no mutex, and every
  processor at the start of its scheduler loop.
\<close>

definition boot :: "ksys \<Rightarrow> bool" where
  "boot S \<longleftrightarrow>
     (\<forall>c. cur S c = None \<and> pos S c = AtProc 0) \<and> (\<forall>m. held S m = {}) \<and>
     pstate (ptable (kst S) 0) = PUSED \<and> (\<forall>i<NPROC. i \<noteq> 0 \<longrightarrow> pstate (ptable (kst S) i) = PUNUSED) \<and>
     tid (thr (kst S) 0 0) = 1 \<and> tstate (thr (kst S) 0 0) = TRUNNABLE \<and> tpc (thr (kst S) 0 0) = Forkret \<and>
     nexttid (kst S) = 2 \<and>
     (\<forall>i<NPROC. \<forall>j<NTHREAD. (i, j) \<noteq> (0, 0) \<longrightarrow>
        tid (thr (kst S) i j) = 0 \<and> tstate (thr (kst S) i j) = TUNUSED \<and> tpc (thr (kst S) i j) = User) \<and>
     (\<forall>m<MAX_MUTEXES. mid (mtable (kst S) m) = 0 \<and> mstate (mtable (kst S) m) = MUNLOCKED \<and>
        mythread (mtable (kst S) m) = None) \<and>
     nextmid (kst S) = 1"

inductive reachable :: "ksys \<Rightarrow> bool" where
  reach_boot: "boot S \<Longrightarrow> reachable S"
| reach_step: "reachable S \<Longrightarrow> kstep S S' \<Longrightarrow> reachable S'"

subsection \<open>The scheduling invariant\<close>

text \<open>
  \<open>R\<close> is the set of threads that some processor runs. They are exactly the threads in state
  \<^verbatim>\<open>TRUNNING\<close>; a process that is not in use has only unused threads; a thread that is leaving
  through \<^verbatim>\<open>safe_exit\<close> is the last one of its process; and thread ids are unique.
\<close>

abbreviation (input) slot :: "nat \<Rightarrow> nat \<Rightarrow> bool" where "slot i j \<equiv> i < NPROC \<and> j < NTHREAD"

fun exiting :: "kpc \<Rightarrow> bool" where
  "exiting ExitTail \<longleftrightarrow> True"
| "exiting (SleepAwake q) \<longleftrightarrow> exiting q"
| "exiting _ \<longleftrightarrow> False"

definition alone :: "proc_st \<Rightarrow> nat \<Rightarrow> nat \<Rightarrow> bool" where
  "alone s i j \<longleftrightarrow> (\<forall>k<NTHREAD. k \<noteq> j \<longrightarrow> tstate (thr s i k) = TUNUSED)"

definition run_ok :: "(nat \<times> nat) set \<Rightarrow> proc_st \<Rightarrow> bool" where
  "run_ok R s \<longleftrightarrow>
     (\<forall>i j. slot i j \<longrightarrow> (tstate (thr s i j) = TRUNNING \<longleftrightarrow> (i, j) \<in> R)) \<and>
     (\<forall>i j. (i, j) \<in> R \<longrightarrow> slot i j \<and> pstate (ptable s i) = PUSED)"

definition proc_ok :: "proc_st \<Rightarrow> bool" where
  "proc_ok s \<longleftrightarrow> (\<forall>i<NPROC. pstate (ptable s i) \<noteq> PUSED \<longrightarrow>
     pstate (ptable s i) \<noteq> PEMBRYO \<and> (\<forall>j<NTHREAD. tstate (thr s i j) = TUNUSED))"

definition exit_ok :: "proc_st \<Rightarrow> bool" where
  "exit_ok s \<longleftrightarrow> (\<forall>i j. slot i j \<longrightarrow> tstate (thr s i j) \<noteq> TUNUSED \<longrightarrow> exiting (tpc (thr s i j)) \<longrightarrow> alone s i j)"

definition tid_ok :: "proc_st \<Rightarrow> bool" where
  "tid_ok s \<longleftrightarrow> 0 < nexttid s \<and>
     (\<forall>i j. slot i j \<longrightarrow> tid (thr s i j) < nexttid s \<and> (tstate (thr s i j) \<noteq> TUNUSED \<longrightarrow> tid (thr s i j) \<noteq> 0)) \<and>
     (\<forall>i j i' j'. slot i j \<longrightarrow> slot i' j' \<longrightarrow> tid (thr s i j) = tid (thr s i' j') \<longrightarrow>
        tid (thr s i j) \<noteq> 0 \<longrightarrow> i = i' \<and> j = j')"

definition tinv :: "(nat \<times> nat) set \<Rightarrow> proc_st \<Rightarrow> bool" where
  "tinv R s \<longleftrightarrow> run_ok R s \<and> proc_ok s \<and> exit_ok s \<and> tid_ok s"

text \<open>
  The effect that most stretches have on the threads: some sleepers become runnable, and some
  threads that are not running are removed.
\<close>

definition shrink1 :: "thread \<Rightarrow> thread \<Rightarrow> bool" where
  "shrink1 t t' \<longleftrightarrow> tpc t' = tpc t \<and>
     (tid t' = tid t \<and> tstate t' = tstate t \<or>
      tid t' = tid t \<and> tstate t = TSLEEPING \<and> tstate t' = TRUNNABLE \<or>
      tstate t \<noteq> TRUNNING \<and> tid t' = 0 \<and> tstate t' = TUNUSED)"

definition shrink :: "proc_st \<Rightarrow> proc_st \<Rightarrow> bool" where
  "shrink s s' \<longleftrightarrow> nexttid s' = nexttid s \<and> (\<forall>i. pstate (ptable s' i) = pstate (ptable s i)) \<and>
     (\<forall>i j. slot i j \<longrightarrow> shrink1 (thr s i j) (thr s' i j))"

lemma shrink1_refl [simp]: "shrink1 t t"
  by (simp add: shrink1_def)

lemma shrink1_trans: "shrink1 t t' \<Longrightarrow> shrink1 t' t'' \<Longrightarrow> shrink1 t t''"
  by (auto simp: shrink1_def)

lemma shrink_refl [simp]: "shrink s s"
  by (simp add: shrink_def)

lemma shrink_trans [trans]: "shrink s s' \<Longrightarrow> shrink s' s'' \<Longrightarrow> shrink s s''"
  unfolding shrink_def by (metis shrink1_trans)

lemma shrink1_state:
  assumes "shrink1 t t'"
  shows "tstate t' = TRUNNING \<longleftrightarrow> tstate t = TRUNNING" "tstate t = TUNUSED \<Longrightarrow> tstate t' = TUNUSED"
  using assms by (auto simp: shrink1_def)

lemma shrinkD:
  assumes "shrink s s'" "slot i j"
  shows "shrink1 (thr s i j) (thr s' i j)"
  using assms by (simp add: shrink_def)

lemma shrink_alone: "shrink s s' \<Longrightarrow> slot i j \<Longrightarrow> alone s i j \<Longrightarrow> alone s' i j"
  using shrink1_state(2) [OF shrinkD] by (simp add: alone_def)

lemma shrink_tinv:
  assumes "tinv R s" "shrink s s'"
  shows "tinv R s'"
proof -
  have th: "shrink1 (thr s i j) (thr s' i j)" if "slot i j" for i j
    using assms(2) that by (rule shrinkD)
  have ps: "pstate (ptable s' i) = pstate (ptable s i)" for i
    using assms(2) by (simp add: shrink_def)
  have st: "tstate (thr s' i j) = TUNUSED" if "slot i j" "tstate (thr s i j) = TUNUSED" for i j
    using shrink1_state(2) [OF th] that by simp
  have "run_ok R s'"
    using assms(1) shrink1_state(1) [OF th] ps by (simp add: tinv_def run_ok_def)
  moreover have "proc_ok s'"
    using assms(1) st ps by (auto simp: tinv_def proc_ok_def)
  moreover have "exit_ok s'"
    unfolding exit_ok_def
  proof (intro allI impI)
    fix i j assume a: "slot i j" "tstate (thr s' i j) \<noteq> TUNUSED" "exiting (tpc (thr s' i j))"
    then have "alone s i j"
      using assms(1) th [OF a(1)] st [OF a(1)] unfolding tinv_def exit_ok_def shrink1_def by auto
    then show "alone s' i j" using shrink_alone [OF assms(2) a(1)] by simp
  qed
  moreover have "tid_ok s'"
  proof -
    have n: "nexttid s' = nexttid s" using assms(2) by (simp add: shrink_def)
    have t: "tid (thr s' i j) = tid (thr s i j) \<or> tid (thr s' i j) = 0 \<and> tstate (thr s' i j) = TUNUSED"
      if "slot i j" for i j using th [OF that] by (auto simp: shrink1_def)
    show ?thesis
      using assms(1) t st n unfolding tinv_def tid_ok_def by (metis (no_types, lifting))
  qed
  ultimately show ?thesis by (simp add: tinv_def)
qed

named_theorems shrinks \<open>stretches that only wake or remove threads\<close>

lemma shrink_sameI:
  assumes "nexttid s' = nexttid s" "\<And>i. pstate (ptable s' i) = pstate (ptable s i)"
    "\<And>i j. tid (thr s' i j) = tid (thr s i j) \<and> tstate (thr s' i j) = tstate (thr s i j) \<and> tpc (thr s' i j) = tpc (thr s i j)"
  shows "shrink s s'"
  using assms by (simp add: shrink_def shrink1_def)

lemma shrink_km [shrinks]: "shrink s (s\<lparr>km := k\<rparr>)"
  by (rule shrink_sameI) auto

lemma shrink_wakeup1 [shrinks]: "shrink s (wakeup1 c s)"
  by (simp add: shrink_def shrink1_def thr_wakeup1)

lemma shrink_wakeup2 [shrinks]: "shrink s (wakeup2 i c s)"
  by (simp add: shrink_def shrink1_def thr_wakeup2)

lemma shrink_sleep_tidy [shrinks]: "shrink s (sleep_tidy i j s)"
  unfolding sleep_tidy_def by (rule shrink_sameI) auto

lemma shrink_upd_mutex [shrinks]: "shrink s (upd_mutex m u s)"
  by (rule shrink_sameI) auto

lemma shrink_dealloc [shrinks]: "shrink s (snd (kthread_mutex_dealloc i j k s))"
  unfolding kthread_mutex_dealloc_def by (auto intro: shrink_sameI split: option.split)

lemma shrink_alloc [shrinks]: "shrink s (snd (kthread_mutex_alloc i j s))"
  unfolding kthread_mutex_alloc_def by (auto intro!: shrink_sameI simp: Let_def split: option.split)

lemma shrink_kill [shrinks]: "shrink s (snd (kill k s))"
  unfolding kill_def by (auto intro!: shrink_sameI split: option.split)

lemma shrink_reparent_one [shrinks]: "shrink s (reparent_one i c s)"
proof -
  have "shrink s (upd_proc c (\<lambda>p. p\<lparr>parent := q\<rparr>) s)" for q by (rule shrink_sameI) auto
  then show ?thesis
    unfolding reparent_one_def Let_def by (auto intro: shrink_trans [OF _ shrink_wakeup1])
qed

lemma shrink_reparent [shrinks]: "shrink s (fold (reparent_one i) cs s)"
  by (induction cs arbitrary: s) (auto intro: shrink_trans shrink_reparent_one)

lemma shrink_drop_mutex [shrinks]: "shrink s (drop_mutex ci cj i k s)"
  by (auto simp: drop_mutex_def shrink_dealloc split: option.split)

lemma shrink_remove_thread:
  assumes "remove_thread ci cj i k s = Ret u s'" "slot i k \<Longrightarrow> tstate (thr s i k) \<noteq> TRUNNING"
  shows "shrink s s'"
proof -
  obtain mm where s': "s' = upd_thread i k (\<lambda>t. t\<lparr>kstack := 0, tid := 0, tstate := TUNUSED, tparent := None,
      tkilled := False\<rparr>) (drop_mutex ci cj i k (s\<lparr>km := mm\<rparr>))"
    using remove_thread_RetE [OF assms(1)] .
  let ?s2 = "drop_mutex ci cj i k (s\<lparr>km := mm\<rparr>)"
  have s2: "shrink s ?s2" using shrink_trans [OF shrink_km shrink_drop_mutex] .
  have "slot i k \<Longrightarrow> tstate (thr ?s2 i k) \<noteq> TRUNNING"
    using assms(2) by (auto simp: drop_mutex_def kthread_mutex_dealloc_def split: option.split)
  then have "shrink ?s2 s'" by (auto simp: s' shrink_def shrink1_def)
  with s2 show ?thesis by (rule shrink_trans)
qed

lemma shrink_kill_loop:
  "kill_loop i j ks found s = Ret r s' \<Longrightarrow> shrink s s'"
proof (induction ks arbitrary: s found)
  case (Cons k ks)
  have flag: "shrink s (upd_thread i k (\<lambda>t. t\<lparr>tkilled := True\<rparr>) s)" by (rule shrink_sameI) auto
  show ?case
  proof (cases "tid (thr s i k) \<noteq> tid (thr s i j) \<and> tstate (thr s i k) \<noteq> TUNUSED")
    case True
    then obtain s1 where s1: "kill_loop i j ks True s1 = Ret r s'"
      and or: "s1 = upd_thread i k (\<lambda>t. t\<lparr>tkilled := True\<rparr>) s \<or>
        remove_thread i j i k (upd_thread i k (\<lambda>t. t\<lparr>tkilled := True\<rparr>) s) = Ret () s1 \<and>
        (tstate (thr s i k) = TSLEEPING \<or> tstate (thr s i k) = TZOMBIE)"
      using Cons.prems by (auto simp: Let_def split: if_splits)
    then have "shrink s s1"
      using flag shrink_trans [OF flag] shrink_remove_thread [of i j i k _ "()" s1] by auto
    then show ?thesis using shrink_trans Cons.IH [OF s1] by blast
  next
    case False
    then show ?thesis using Cons by auto
  qed
qed simp

lemma kill_loop_found: "kill_loop i j ks True s = Ret r s' \<Longrightarrow> r"
  by (induction ks arbitrary: s) (auto simp: Let_def split: if_splits)

lemma kill_loop_none:
  "kill_loop i j ks False s = Ret False s' \<Longrightarrow>
    s' = s \<and> (\<forall>k\<in>set ks. tid (thr s i k) = tid (thr s i j) \<or> tstate (thr s i k) = TUNUSED)"
  by (induction ks) (auto simp: Let_def dest: kill_loop_found split: if_splits)

subsection \<open>Stretches and the invariant\<close>

lemma exit_okD: "exit_ok s \<Longrightarrow> slot i j \<Longrightarrow> tstate (thr s i j) \<noteq> TUNUSED \<Longrightarrow> exiting (tpc (thr s i j)) \<Longrightarrow> alone s i j"
  unfolding exit_ok_def by blast

lemma tid_ok_live: "tid_ok s \<Longrightarrow> slot i j \<Longrightarrow> tstate (thr s i j) \<noteq> TUNUSED \<Longrightarrow> tid (thr s i j) \<noteq> 0"
  unfolding tid_ok_def by blast

lemma tid_ok_inj:
  "tid_ok s \<Longrightarrow> slot i j \<Longrightarrow> slot i' j' \<Longrightarrow> tid (thr s i j) = tid (thr s i' j') \<Longrightarrow> tid (thr s i j) \<noteq> 0 \<Longrightarrow>
    i = i' \<and> j = j'"
  unfolding tid_ok_def by blast

lemma tid_ok_cong:
  assumes "tid_ok s" "nexttid s' = nexttid s" "\<And>i j. slot i j \<Longrightarrow> tid (thr s' i j) = tid (thr s i j)"
    "\<And>i j. slot i j \<Longrightarrow> tstate (thr s i j) = TUNUSED \<Longrightarrow> tstate (thr s' i j) = TUNUSED"
  shows "tid_ok s'"
  using assms unfolding tid_ok_def by metis

lemma running_slot:
  assumes "tinv R s" "(i, j) \<in> R"
  shows "slot i j \<and> tstate (thr s i j) = TRUNNING \<and> pstate (ptable s i) = PUSED \<and> tid (thr s i j) \<noteq> 0"
proof -
  have "slot i j" "tstate (thr s i j) = TRUNNING" "pstate (ptable s i) = PUSED" "tid_ok s"
    using assms by (auto simp: tinv_def run_ok_def)
  then show ?thesis using tid_ok_live [of s i j] by simp
qed

text \<open>The running thread changes its own state or its own resumption point.\<close>

lemma own_off:
  assumes "tinv R s" "(i, j) \<in> R" "st \<noteq> TRUNNING"
    "\<And>t. tid (f t) = tid t \<and> tpc (f t) = tpc t \<and> tstate (f t) = st"
  shows "tinv (R - {(i, j)}) (upd_thread i j f s)"
proof -
  have "slot i j" and run: "tstate (thr s i j) = TRUNNING" "tid (thr s i j) \<noteq> 0" and used: "pstate (ptable s i) = PUSED"
    using running_slot [OF assms(1,2)] by auto
  have "run_ok (R - {(i, j)}) (upd_thread i j f s)"
    using assms by (auto simp: tinv_def run_ok_def)
  moreover have "proc_ok (upd_thread i j f s)"
    using assms(1) used by (auto simp: tinv_def proc_ok_def)
  moreover have "exit_ok (upd_thread i j f s)"
    unfolding exit_ok_def
  proof (intro allI impI)
    fix i' j' assume a: "slot i' j'" "tstate (thr (upd_thread i j f s) i' j') \<noteq> TUNUSED"
      "exiting (tpc (thr (upd_thread i j f s) i' j'))"
    then have "alone s i' j'"
      using exit_okD [of s i' j'] assms(1,4) run by (cases "i' = i \<and> j' = j") (auto simp: tinv_def)
    moreover have "j' = j" if "i' = i"
      using \<open>alone s i' j'\<close> that run \<open>slot i j\<close> unfolding alone_def by force
    ultimately show "alone (upd_thread i j f s) i' j'" by (simp add: alone_def)
  qed
  moreover have "tid_ok (upd_thread i j f s)"
  proof (rule tid_ok_cong)
    show "tid_ok s" using assms(1) by (simp add: tinv_def)
  qed (use assms(4) run in auto)
  ultimately show ?thesis by (simp add: tinv_def)
qed

lemma own_pc:
  assumes "tinv R s" "slot i j" "exiting q \<longrightarrow> alone s i j"
  shows "tinv R (upd_thread i j (\<lambda>t. t\<lparr>tpc := q\<rparr>) s)"
proof -
  let ?s = "upd_thread i j (\<lambda>t. t\<lparr>tpc := q\<rparr>) s"
  have same: "tstate (thr ?s i' j') = tstate (thr s i' j')" "tid (thr ?s i' j') = tid (thr s i' j')" for i' j'
    by simp_all
  have "exit_ok ?s"
    using assms unfolding tinv_def exit_ok_def alone_def same by (auto split: if_splits)
  moreover have "run_ok R ?s = run_ok R s" "proc_ok ?s = proc_ok s"
    unfolding run_ok_def proc_ok_def same by simp_all
  moreover have "tid_ok s \<Longrightarrow> tid_ok ?s" by (erule tid_ok_cong) (auto simp: same)
  ultimately show ?thesis using assms(1) by (simp add: tinv_def)
qed

text \<open>What a stretch of thread \<open>(i, j)\<close> has to establish.\<close>

definition post :: "(nat \<times> nat) set \<Rightarrow> nat \<Rightarrow> nat \<Rightarrow> kout \<Rightarrow> proc_st \<Rightarrow> bool" where
  "post R i j r s =
     (case r of
        Done v \<Rightarrow> tinv R s
      | Gap q \<Rightarrow> tinv R s \<and> (exiting q \<longrightarrow> alone s i j)
      | Off q \<Rightarrow> tinv (R - {(i, j)}) s \<and> (exiting q \<longrightarrow> alone s i j))"

lemma post_shrink:
  assumes "tinv R s" "shrink s s'" "\<And>q. r = Gap q \<Longrightarrow> \<not> exiting q" "\<And>q. r \<noteq> Off q"
  shows "post R i j r s'"
  using assms shrink_tinv [OF assms(1,2)] by (auto simp: post_def split: kout.split)

lemma post_off:
  assumes "tinv R s" "(i, j) \<in> R" "shrink s s1" "st \<noteq> TRUNNING" "\<not> exiting q"
    "\<And>t. tid (f t) = tid t \<and> tpc (f t) = tpc t \<and> tstate (f t) = st"
  shows "post R i j (Off q) (upd_thread i j f s1)"
  using own_off [OF shrink_tinv [OF assms(1,3)] assms(2,4,6)] assms(5) by (simp add: post_def)

lemma post_sleep:
  assumes "tinv R s" "(i, j) \<in> R" "shrink s s1" "\<not> exiting q"
  shows "post R i j (Off q) (sleep i j c s1)"
  unfolding sleep_def by (rule post_off [OF assms(1-3)]) (use assms(4) in auto)

lemma post_kill_round:
  assumes inv: "tinv R s" and run: "(i, j) \<in> R" and step: "kill_round b i j s = Ret r s'"
  shows "post R i j r s'"
proof -
  obtain found s1 where s1: "kill_loop i j [0..<NTHREAD] False s = Ret found s1"
    and r: "if found then r = Off (KillAwake b) \<and> s' = set_tstate i j TRUNNABLE s1
            else r = (if b then Gap ExitTail else Done 0) \<and> s' = s1"
    using step by (auto simp: kill_round_def split: if_splits)
  have sh: "shrink s s1" using shrink_kill_loop [OF s1] .
  show ?thesis
  proof (cases found)
    case True
    then show ?thesis using r post_off [OF inv run sh, of TRUNNABLE] by simp
  next
    case False
    then have none: "s1 = s" "\<And>k. k < NTHREAD \<Longrightarrow> tid (thr s i k) = tid (thr s i j) \<or> tstate (thr s i k) = TUNUSED"
      using kill_loop_none [of i j "[0..<NTHREAD]" s s1] s1 by auto
    have "alone s i j"
      unfolding alone_def
    proof (intro allI impI)
      fix k assume "k < NTHREAD" "k \<noteq> j"
      then show "tstate (thr s i k) = TUNUSED"
        using none(2) [of k] inv running_slot [OF inv run] tid_ok_inj [of s i k i j]
        by (auto simp: tinv_def)
    qed
    then show ?thesis using False r none(1) inv by (simp add: post_def)
  qed
qed

lemma post_kill_other_threads:
  assumes inv: "tinv R s" and run: "(i, j) \<in> R" and step: "kill_other_threads b i j s = Ret r s'"
  shows "post R i j r s'"
proof (cases "tkilled (thr s i j)")
  case True
  then show ?thesis
    using step post_off [OF inv run shrink_wakeup1, of TZOMBIE] by (auto simp: kill_other_threads_def)
next
  case False
  then show ?thesis using step post_kill_round [OF inv run] by (simp add: kill_other_threads_def)
qed

text \<open>A thread slot that was unused gets a fresh id, and possibly becomes runnable.\<close>

lemma tid_ok_new:
  assumes ok: "tid_ok s" and new: "tid (thr s' i k) = nexttid s" "nexttid s' = nexttid s + 1"
    and other: "\<And>i' j'. (i', j') \<noteq> (i, k) \<Longrightarrow> tid (thr s' i' j') = tid (thr s i' j') \<and>
      tstate (thr s' i' j') = tstate (thr s i' j')"
  shows "tid_ok s'"
  unfolding tid_ok_def
proof (intro conjI allI impI)
  have fresh: "0 < nexttid s" "\<And>i j. slot i j \<Longrightarrow> tid (thr s i j) < nexttid s"
    using ok unfolding tid_ok_def by blast+
  have tid: "tid (thr s' i' j') = (if (i', j') = (i, k) then nexttid s else tid (thr s i' j'))" for i' j'
    using other [of i' j'] new(1) by auto
  show "0 < nexttid s'" using fresh new by simp
  fix i' j' assume a: "slot i' j'"
  show "tid (thr s' i' j') < nexttid s'" using a fresh(2) [of i' j'] new tid by auto
  show "tid (thr s' i' j') \<noteq> 0" if "tstate (thr s' i' j') \<noteq> TUNUSED"
    using that a tid [of i' j'] fresh(1) other [of i' j'] tid_ok_live [OF ok, of i' j'] by (auto split: if_splits)
  fix i2 j2 assume b: "slot i2 j2" "tid (thr s' i' j') = tid (thr s' i2 j2)" "tid (thr s' i' j') \<noteq> 0"
  have "(i', j') = (i2, j2)"
    using a b tid [of i' j'] tid [of i2 j2] fresh(2) [OF a] fresh(2) [OF b(1)]
      tid_ok_inj [OF ok a b(1)] by (auto split: if_splits)
  then show "i' = i2" "j' = j2" by auto
qed

lemma tinv_new_thread:
  assumes inv: "tinv R s" and slot: "slot i k" "tstate (thr s i k) = TUNUSED"
    and noexit: "\<And>j. j < NTHREAD \<Longrightarrow> tstate (thr s i j) \<noteq> TUNUSED \<Longrightarrow> \<not> exiting (tpc (thr s i j))"
    and new: "tid (thr s' i k) = nexttid s" "tstate (thr s' i k) = TUNUSED \<or>
      tstate (thr s' i k) = TRUNNABLE \<and> \<not> exiting (tpc (thr s' i k))"
    and other: "\<And>i' j'. (i', j') \<noteq> (i, k) \<Longrightarrow> tid (thr s' i' j') = tid (thr s i' j') \<and>
      tstate (thr s' i' j') = tstate (thr s i' j') \<and> tpc (thr s' i' j') = tpc (thr s i' j')"
    and nt: "nexttid s' = nexttid s + 1"
    and ps: "\<And>i'. i' \<noteq> i \<Longrightarrow> pstate (ptable s' i') = pstate (ptable s i')"
      "pstate (ptable s' i) = PUSED \<or> tstate (thr s' i k) = TUNUSED \<and> pstate (ptable s' i) = pstate (ptable s i)"
  shows "tinv R s'"
proof -
  have R: "run_ok R s" "proc_ok s" "exit_ok s" "tid_ok s" using inv by (auto simp: tinv_def)
  have notin: "(i, k) \<notin> R" using running_slot [OF inv, of i k] slot by auto
  have st: "tstate (thr s' i' j') = tstate (thr s i' j')" if "(i', j') \<noteq> (i, k)" for i' j'
    using other [OF that] by simp
  have ps': "pstate (ptable s' i') = PUSED" if "pstate (ptable s i') = PUSED" for i'
    using ps that by (cases "i' = i") auto
  have "run_ok R s'"
    unfolding run_ok_def
  proof (intro conjI allI impI)
    fix i' j' assume "slot i' j'"
    then show "tstate (thr s' i' j') = TRUNNING \<longleftrightarrow> (i', j') \<in> R"
      using R(1) new(2) notin st [of i' j'] by (cases "(i', j') = (i, k)") (auto simp: run_ok_def)
  next
    fix i' j' assume "(i', j') \<in> R"
    then show "i' < NPROC" "j' < NTHREAD" "pstate (ptable s' i') = PUSED"
      using R(1) ps' by (auto simp: run_ok_def)
  qed
  moreover have "proc_ok s'"
    unfolding proc_ok_def
  proof (intro allI impI)
    fix i' assume i': "i' < NPROC" "pstate (ptable s' i') \<noteq> PUSED"
    then have same: "pstate (ptable s' i') = pstate (ptable s i')" using ps by (cases "i' = i") auto
    then have old: "pstate (ptable s i') \<noteq> PEMBRYO" "\<And>j. j < NTHREAD \<Longrightarrow> tstate (thr s i' j) = TUNUSED"
      using R(2) i' by (auto simp: proc_ok_def)
    show "pstate (ptable s' i') \<noteq> PEMBRYO \<and> (\<forall>j<NTHREAD. tstate (thr s' i' j) = TUNUSED)"
      using old same i'(2) ps(2) st by (metis Pair_inject)
  qed
  moreover have "exit_ok s'"
    unfolding exit_ok_def
  proof (intro allI impI)
    fix i' j' assume a: "slot i' j'" "tstate (thr s' i' j') \<noteq> TUNUSED" "exiting (tpc (thr s' i' j'))"
    then have ne: "(i', j') \<noteq> (i, k)" using new(2) by auto
    then have "i' \<noteq> i" using a other [OF ne] noexit [of j'] by auto
    moreover have "alone s i' j'" using exit_okD [OF R(3) a(1)] a other [OF ne] by simp
    ultimately show "alone s' i' j'" using st by (simp add: alone_def)
  qed
  moreover have "tid_ok s'"
    by (rule tid_ok_new [OF R(4) new(1) nt]) (use other in blast)
  ultimately show ?thesis by (simp add: tinv_def)
qed
lemma init_kstack_frame [simp]:
  "tid (thr (init_kstack i j s) i' j') = tid (thr s i' j')"
  "tstate (thr (init_kstack i j s) i' j') = tstate (thr s i' j')"
  "tpc (thr (init_kstack i j s) i' j') = (if i' = i \<and> j' = j then Forkret else tpc (thr s i' j'))"
  "chan (thr (init_kstack i j s) i' j') = chan (thr s i' j')"
  "mutex (thr (init_kstack i j s) i' j') = mutex (thr s i' j')"
  "pstate (ptable (init_kstack i j s) k) = pstate (ptable s k)"
  "nexttid (init_kstack i j s) = nexttid s" "mtable (init_kstack i j s) = mtable s"
  "nextmid (init_kstack i j s) = nextmid s"
  by (simp_all add: init_kstack_def Let_def)

lemma init_kstack_other: "(i', j') \<noteq> (i, j) \<Longrightarrow> thr (init_kstack i j s) i' j' = thr s i' j'"
  by (auto simp: init_kstack_def Let_def)

lemma post_create:
  assumes inv: "tinv R s" and run: "(i, j) \<in> R" "tpc (thr s i j) = User"
  shows "tinv R (snd (kthread_create i j f stk s))"
proof (cases "first_from (\<lambda>k. tstate (thr s i k) = TUNUSED) 0 NTHREAD")
  case None
  then show ?thesis using inv by (simp add: kthread_create_def)
next
  case (Some k)
  then have k: "k < NTHREAD" "tstate (thr s i k) = TUNUSED" by (auto dest: first_from_SomeD)
  obtain ks mm where al: "kalloc (km s) = (ks, mm)" by force
  have ij: "slot i j" "tstate (thr s i j) = TRUNNING" "pstate (ptable s i) = PUSED"
    using running_slot [OF inv run(1)] by auto
  have noexit: "\<not> exiting (tpc (thr s i j'))" if "j' < NTHREAD" "tstate (thr s i j') \<noteq> TUNUSED" for j'
  proof
    assume ex: "exiting (tpc (thr s i j'))"
    then have "alone s i j'" using exit_okD [of s i j'] inv that ij by (auto simp: tinv_def)
    then have "j' = j" using ij unfolding alone_def by force
    then show False using ex run(2) by simp
  qed
  show ?thesis
    by (rule tinv_new_thread [OF inv _ k(2) noexit]) (use Some al k ij in \<open>auto simp: kthread_create_def Let_def\<close>)
qed

lemma find_unused_SomeD: "find_unused s = Some i \<Longrightarrow> i < NPROC \<and> pstate (ptable s i) = PUNUSED"
  by (auto simp: find_unused_def split: option.splits dest: first_from_SomeD)

text \<open>What \<^verbatim>\<open>allocthread\<close> leaves behind, as far as threads are concerned.\<close>

lemma allocthread_cases:
  obtains (full) "allocthread s = (None, s)"
  | (nomem) c s' where "allocthread s = (None, s')" "c < NPROC" "pstate (ptable s c) = PUNUSED"
      "tid (thr s' c 0) = nexttid s" "tstate (thr s' c 0) = TUNUSED" "nexttid s' = nexttid s + 1"
      "tpc (thr s' c 0) = tpc (thr s c 0)"
      "\<And>i' j'. (i', j') \<noteq> (c, 0) \<Longrightarrow> thr s' i' j' = thr s i' j'"
      "\<And>i'. pstate (ptable s' i') = pstate (ptable s i')" "mtable s' = mtable s"
  | (ok) c s' where "allocthread s = (Some c, s')" "c < NPROC" "pstate (ptable s c) = PUNUSED"
      "tid (thr s' c 0) = nexttid s" "tstate (thr s' c 0) = TEMBRYO" "tpc (thr s' c 0) = Forkret"
      "nexttid s' = nexttid s + 1" "\<And>i' j'. (i', j') \<noteq> (c, 0) \<Longrightarrow> thr s' i' j' = thr s i' j'"
      "\<And>i'. i' \<noteq> c \<Longrightarrow> pstate (ptable s' i') = pstate (ptable s i')" "mtable s' = mtable s"
proof (cases "find_unused s")
  case None
  then show thesis using full by (simp add: allocthread_def)
next
  case (Some c)
  note c = find_unused_SomeD [OF Some]
  obtain ks mm where al: "kalloc (km s) = (ks, mm)" by force
  show thesis
  proof (cases "ks = 0")
    case True
    let ?s' = "snd (allocthread s)"
    have "allocthread s = (None, ?s')" using Some al True by (simp add: allocthread_def Let_def)
    then show thesis
      by (rule nomem [where c = c]) (use Some al True c in \<open>auto simp: allocthread_def Let_def\<close>)
  next
    case False
    let ?s' = "snd (allocthread s)"
    have "allocthread s = (Some c, ?s')" using Some al False by (simp add: allocthread_def Let_def)
    then show thesis
      by (rule ok [where c = c]) (use Some al False c in \<open>auto simp: allocthread_def Let_def init_kstack_other\<close>)
  qed
qed

lemma post_fork:
  assumes inv: "tinv R s" and step: "fork i j s = Ret r s'"
  shows "tinv R s'"
proof (cases rule: allocthread_cases [of s])
  case full
  then show ?thesis using step inv by (simp add: fork_def)
next
  case (nomem c s1)
  have "tstate (thr s c j) = TUNUSED" if "j < NTHREAD" for j
    using inv nomem(2,3) that by (auto simp: tinv_def proc_ok_def)
  then have "tinv R s1"
    using nomem by (intro tinv_new_thread [OF inv, of c 0]) auto
  then show ?thesis using step nomem(1) by (simp add: fork_def)
next
  case (ok c s1)
  have un: "tstate (thr s c j) = TUNUSED" if "j < NTHREAD" for j
    using inv ok(2,3) that by (auto simp: tinv_def proc_ok_def)
  show ?thesis
    by (rule tinv_new_thread [OF inv, of c 0])
      (use step un ok in \<open>auto simp: fork_def on_km_eq_Ret Let_def split: if_splits\<close>)
qed

lemma shrink_remove_all:
  assumes "for_each (\<lambda>k. remove_thread i j c k) ks s = Ret u s'"
    "\<And>k. k \<in> set ks \<Longrightarrow> slot c k \<and> tstate (thr s c k) \<noteq> TRUNNING"
  shows "shrink s s'"
  using assms
proof (induction ks arbitrary: s)
  case (Cons k ks)
  then obtain s1 where s1: "remove_thread i j c k s = Ret () s1"
      "for_each (\<lambda>k. remove_thread i j c k) ks s1 = Ret u s'"
    by auto
  have sh: "shrink s s1" using shrink_remove_thread [OF s1(1)] Cons.prems(2) [of k] by simp
  moreover have "shrink s1 s'"
    using Cons.prems(2) shrink1_state(1) [OF shrinkD [OF sh]] by (intro Cons.IH [OF s1(2)]) auto
  ultimately show ?case by (rule shrink_trans)
qed simp

lemma tinv_retire:
  assumes inv: "tinv R s" and c: "c < NPROC" "\<And>j. j < NTHREAD \<Longrightarrow> tstate (thr s c j) = TUNUSED"
    and f: "\<And>p. threads (f p) = threads p" "\<And>p. pstate (f p) = st" "st = PUNUSED \<or> st = PZOMBIE"
  shows "tinv R (upd_proc c f s)"
proof -
  have thr: "thr (upd_proc c f s) = thr s" using f(1) by simp
  have "(c, j) \<notin> R" for j using running_slot [OF inv, of c j] c(2) [of j] by auto
  then have "run_ok R (upd_proc c f s)" using inv by (auto simp: tinv_def run_ok_def thr)
  moreover have "proc_ok (upd_proc c f s)" using inv c(2) f(2,3) by (auto simp: tinv_def proc_ok_def thr)
  moreover have "exit_ok (upd_proc c f s) = exit_ok s" by (simp add: exit_ok_def alone_def thr)
  moreover have "tid_ok (upd_proc c f s) = tid_ok s" by (simp only: tid_ok_def thr scalars_frame)
  ultimately show ?thesis using inv by (simp add: tinv_def)
qed

lemma post_wait:
  assumes inv: "tinv R s" and run: "(i, j) \<in> R" and step: "wait i j s = Ret r s'"
  shows "post R i j r s'"
proof (cases "first_from (\<lambda>c. parent (ptable s c) = Some i \<and> pstate (ptable s c) = PZOMBIE) 0 NPROC")
  case None
  then show ?thesis
    using step inv post_sleep [OF inv run shrink_refl, of WaitAwake "ProcChan i"]
    by (auto simp: wait_def Let_def post_def split: if_splits)
next
  case (Some c)
  then have c: "c < NPROC" "pstate (ptable s c) = PZOMBIE" by (auto dest: first_from_SomeD)
  have un: "tstate (thr s c k) = TUNUSED" if "k < NTHREAD" for k
    using inv c that by (auto simp: tinv_def proc_ok_def)
  obtain s1 mm v where s1: "for_each (\<lambda>k. remove_thread i j c k) [0..<NTHREAD] s = Ret () s1"
    and s': "s' = upd_proc c (\<lambda>p. p\<lparr>pid := 0, parent := None, name := [], killed := False, pstate := PUNUSED\<rparr>)
      (s1\<lparr>km := mm\<rparr>)" and r: "r = Done v"
    using step Some by (auto simp: wait_def reap_def on_km_eq_Ret Let_def)
  have sh: "shrink s (s1\<lparr>km := mm\<rparr>)"
    using shrink_remove_all [OF s1] un c shrink_trans [OF _ shrink_km] by auto
  then have "tstate (thr (s1\<lparr>km := mm\<rparr>) c k) = TUNUSED" if "k < NTHREAD" for k
    using shrink1_state(2) [OF shrinkD [OF sh]] un that c by blast
  then show ?thesis
    unfolding s' r post_def using shrink_tinv [OF inv sh] c by (auto intro!: tinv_retire)
qed

lemma post_safe_exit:
  assumes inv: "tinv R s" and run: "(i, j) \<in> R" and al: "alone s i j"
  shows "tinv (R - {(i, j)}) (snd (safe_exit_tail i j s))"
proof -
  let ?s1 = "fold (reparent_one i) [0..<NPROC] (wakeup1 (proc_chan (parent (ptable s i))) s)"
  let ?s2 = "upd_proc i (\<lambda>p. p\<lparr>pstate := PZOMBIE\<rparr>) (set_tstate i j TUNUSED ?s1)"
  have sh: "shrink s ?s1" by (rule shrink_trans [OF shrink_wakeup1 shrink_reparent])
  have ij: "slot i j" using running_slot [OF inv run] by simp
  have "tinv (R - {(i, j)}) (set_tstate i j TUNUSED ?s1)"
    by (rule own_off [OF shrink_tinv [OF inv sh] run, of TUNUSED]) auto
  moreover have "tstate (thr (set_tstate i j TUNUSED ?s1) i k) = TUNUSED" if "k < NTHREAD" for k
    using shrink_alone [OF sh ij al] that by (simp add: alone_def)
  ultimately have "tinv (R - {(i, j)}) ?s2" using ij by (intro tinv_retire) auto
  then show ?thesis
    by (rule shrink_tinv) (auto simp: safe_exit_tail_def Let_def intro!: shrink_sameI)
qed

lemma post_join_loop:
  assumes inv: "tinv R s" and run: "(i, j) \<in> R" and step: "join_loop i j k n s = Ret r s'"
  shows "post R i j r s'"
proof -
  obtain m st where v: "join_view s i k = (m, st)" by force
  consider "r = Off (JoinAwake k n)" "s' = sleep i j (ThreadChan i k) s"
    | "remove_thread i j i k s = Ret () s'" "r = Done 0" "st = TZOMBIE"
    | "r = Done (-1)" "s' = s"
    using step v by (auto simp: join_loop_def split: if_splits)
  then show ?thesis
  proof cases
    case 1
    then show ?thesis using post_sleep [OF inv run shrink_refl] by simp
  next
    case 2
    have "shrink s s'"
      by (rule shrink_remove_thread [OF 2(1)]) (use 2(3) v in \<open>simp add: join_view_def\<close>)
    then show ?thesis using 2 post_shrink [OF inv] by auto
  next
    case 3
    then show ?thesis using post_shrink [OF inv shrink_refl] by auto
  qed
qed

lemma post_lock_loop:
  assumes "tinv R s" "(i, j) \<in> R"
  shows "case mutex_lock_loop i j m s of (r, s') \<Rightarrow> post R i j r s'"
proof -
  have sh: "shrink s (upd_mutex m u (upd_mutex m v s))" for u v
    by (rule shrink_trans [OF shrink_upd_mutex shrink_upd_mutex])
  show ?thesis
    using post_sleep [OF assms shrink_upd_mutex, of "LockAwake m"] post_shrink [OF assms(1) sh, of "Done 0"]
    by (simp add: mutex_lock_loop_def Let_def)
qed

lemma post_lock:
  assumes "tinv R s" "(i, j) \<in> R"
  shows "case kthread_mutex_lock i j k s of (r, s') \<Rightarrow> post R i j r s'"
  using post_lock_loop [OF assms] post_shrink [OF assms(1) shrink_refl, of "Done (-1)"]
  by (auto simp: kthread_mutex_lock_def split: option.split)

lemma post_unlock:
  assumes "tinv R s" "kthread_mutex_unlock i j k s = Ret r s'"
  shows "post R i j r s'"
  using assms(2) post_shrink [OF assms(1) shrink_refl, of "Done (-1)" i j]
    post_shrink [OF assms(1) shrink_upd_mutex, of "Gap (UnlockWakeup _)" i j]
  by (auto simp: kthread_mutex_unlock_def split: option.splits if_splits)

lemma post_kthread_exit:
  assumes "tinv R s" "(i, j) \<in> R"
  shows "case kthread_exit i j s of (r, s') \<Rightarrow> post R i j r s'"
proof -
  have "tinv (R - {(i, j)}) (wakeup2 i c (set_tstate i j TZOMBIE s))" for c
    by (rule shrink_tinv [OF own_off [OF assms, of TZOMBIE] shrink_wakeup2]) auto
  then show ?thesis
    using post_shrink [OF assms(1) shrink_refl, of "Gap ExitEntry" i j]
    by (simp add: kthread_exit_def Let_def post_def)
qed

lemma post_exit:
  "tinv R s \<Longrightarrow> (i, j) \<in> R \<Longrightarrow> exit i j s = Ret r s' \<Longrightarrow> post R i j r s'"
  using post_kill_other_threads by (auto simp: exit_def split: if_splits)

lemma post_enter:
  assumes inv: "tinv R s" and run: "(i, j) \<in> R" and pc: "tpc (thr s i j) = User"
    and step: "enter op i j s = Ret r s'"
  shows "post R i j r s'"
proof (cases op)
  case (CallCreate f stk)
  then show ?thesis using step post_create [OF inv run pc, of f stk] by (auto simp: post_def split_beta)
next
  case CallFork
  then show ?thesis using step post_fork [OF inv] by (auto simp: post_def)
next
  case CallYield
  then show ?thesis using step post_off [OF inv run shrink_refl, of TRUNNABLE YieldAwake] by (auto simp: yield_def)
next
  case (CallSleep c)
  then show ?thesis using step post_sleep [OF inv run shrink_refl, of "SleepAwake User"] by auto
next
  case (CallWakeup c)
  then show ?thesis using step post_shrink [OF inv shrink_wakeup1, of "Done 0"] by (auto simp: wakeup_def)
next
  case CallAlloc
  then show ?thesis
    using step post_shrink [OF inv shrink_alloc, of "Done _"] by (auto simp: split_beta)
next
  case (CallDealloc k)
  then show ?thesis
    using step post_shrink [OF inv shrink_dealloc, of "Done _"] by (auto simp: split_beta)
next
  case (CallKill k)
  then show ?thesis
    using step post_shrink [OF inv shrink_kill, of "Done _"] by (auto simp: split_beta)
next
  case (CallJoin n)
  then show ?thesis using step post_join_loop [OF inv run] by (simp add: kthread_join_def Let_def)
qed (use step post_kthread_exit [OF inv run] post_lock [OF inv run] post_unlock [OF inv] post_wait [OF inv run]
    post_exit [OF inv run] post_kill_other_threads [OF inv run] in \<open>auto simp: split_beta\<close>)

lemma post_resume:
  assumes inv: "tinv R s" and run: "(i, j) \<in> R" and step: "resume (tpc (thr s i j)) i j s = Ret r s'"
  shows "post R i j r s'"
proof -
  have tidy: "tinv R (sleep_tidy i j s)" by (rule shrink_tinv [OF inv shrink_sleep_tidy])
  have exit: "exiting (tpc (thr s i j)) \<Longrightarrow> alone s i j"
    using exit_okD [of s i j] inv running_slot [OF inv run] by (simp add: tinv_def)
  show ?thesis
  proof (cases "tpc (thr s i j)")
    case (SleepAwake q)
    then show ?thesis
      using step exit tidy shrink_alone [OF shrink_sleep_tidy] running_slot [OF inv run] by (auto simp: post_def)
  next
    case (Join2Awake ti tk)
    then show ?thesis
      using step post_sleep [OF tidy run shrink_refl, of "Join2Awake ti tk"] tidy
      by (auto simp: kthread_join2_def Let_def post_def split: if_splits)
  next
    case ExitTail
    then show ?thesis
      using step post_safe_exit [OF inv run exit] by (auto simp: safe_exit_tail_def post_def Let_def)
  next
    case (UnlockWakeup m)
    then show ?thesis using step post_shrink [OF inv shrink_wakeup1, of "Done 0"] by (auto simp: wakeup_def)
  next
    case (LockAcquire m)
    then show ?thesis using step post_lock_loop [OF inv run, of m] by (auto simp: split_beta)
  qed (use step inv tidy post_join_loop [OF tidy run] post_wait [OF tidy run] post_kill_round [OF inv run]
      post_exit [OF inv run] in \<open>auto simp: post_def\<close>)
qed

subsection \<open>Reachable states\<close>

definition running :: "ksys \<Rightarrow> (nat \<times> nat) set" where
  "running S = {t. \<exists>c. cur S c = Some t}"

definition sched_inv :: "ksys \<Rightarrow> bool" where
  "sched_inv S \<longleftrightarrow>
     (\<forall>c c' t. cur S c = Some t \<longrightarrow> cur S c' = Some t \<longrightarrow> c = c') \<and>
     (\<forall>c i j. pos S c = InProc i j \<longrightarrow> i < NPROC) \<and>
     tinv (running S) (kst S)"

lemma running_off:
  assumes "cur S c = Some t" "\<forall>c c' t. cur S c = Some t \<longrightarrow> cur S c' = Some t \<longrightarrow> c = c'"
  shows "{u. \<exists>d. ((cur S)(c := None)) d = Some u} = running S - {t}"
proof (intro set_eqI iffI)
  fix u assume "u \<in> {u. \<exists>d. ((cur S)(c := None)) d = Some u}"
  then obtain d where "d \<noteq> c" "cur S d = Some u" by (auto split: if_splits)
  then have "u \<noteq> t" using assms by blast
  then show "u \<in> running S - {t}" using \<open>cur S d = Some u\<close> by (auto simp: running_def)
next
  fix u assume "u \<in> running S - {t}"
  then obtain d where "cur S d = Some u" "u \<noteq> t" by (auto simp: running_def)
  moreover from this have "d \<noteq> c" using assms(1) by auto
  ultimately show "u \<in> {u. \<exists>d. ((cur S)(c := None)) d = Some u}" by auto
qed

lemma finish_sched_inv:
  assumes inv: "sched_inv S" and cur: "cur S c = Some (i, j)" and post: "post (running S) i j r s'"
  shows "sched_inv (finish c i j r s' (S\<lparr>held := h\<rparr>))"
proof -
  have ij: "slot i j" using inv cur running_slot [of "running S" "kst S" i j] by (auto simp: sched_inv_def running_def)
  have off: "{u. \<exists>d. ((cur S)(c := None)) d = Some u} = running S - {(i, j)}"
    using running_off [OF cur] inv unfolding sched_inv_def by blast
  have uniq: "\<forall>d d' t. ((cur S)(c := None)) d = Some t \<longrightarrow> ((cur S)(c := None)) d' = Some t \<longrightarrow> d = d'"
    using inv unfolding sched_inv_def by auto
  have pos: "pos S d = InProc a b \<Longrightarrow> a < NPROC" for d a b using inv unfolding sched_inv_def by blast
  show ?thesis
  proof (cases r)
    case (Done v)
    then show ?thesis
      using inv post own_pc [OF _ ij, of "running S" s' User] by (simp add: sched_inv_def finish_def post_def running_def)
  next
    case (Gap q)
    then show ?thesis
      using inv post own_pc [OF _ ij, of "running S" s' q] by (simp add: sched_inv_def finish_def post_def running_def)
  next
    case (Off q)
    then have "tinv (running S - {(i, j)}) (upd_thread i j (\<lambda>t. t\<lparr>tpc := q\<rparr>) s')"
      using post own_pc [OF _ ij] by (simp add: post_def)
    moreover have "a < NPROC" if "((pos S)(c := scheduler_after s' i j)) d = InProc a b" for d a b
      using that ij pos by (auto simp: scheduler_after_def split: if_splits)
    ultimately show ?thesis
      unfolding sched_inv_def running_def finish_def Off by (simp add: uniq off [unfolded running_def] del: fun_upd_apply)
  qed
qed

lemma tinv_dispatch:
  assumes inv: "tinv R s" and ij: "slot i j" "can_run (thr s i j)"
  shows "tinv (insert (i, j) R) (set_tstate i j TRUNNING s)"
proof -
  let ?s = "set_tstate i j TRUNNING s"
  have st: "tstate (thr s i j) \<noteq> TUNUSED" "tstate (thr s i j) \<noteq> TRUNNING"
    using ij(2) by (auto simp: can_run_def)
  then have used: "pstate (ptable s i) = PUSED" using inv ij by (auto simp: tinv_def proc_ok_def)
  have "run_ok (insert (i, j) R) ?s" using inv ij used by (auto simp: tinv_def run_ok_def)
  moreover have "proc_ok ?s" using inv used by (auto simp: tinv_def proc_ok_def)
  moreover have "exit_ok ?s"
    unfolding exit_ok_def
  proof (intro allI impI)
    fix i' j' assume a: "slot i' j'" "tstate (thr ?s i' j') \<noteq> TUNUSED" "exiting (tpc (thr ?s i' j'))"
    then have "alone s i' j'"
      using inv st exit_okD [of s i' j'] by (auto simp: tinv_def split: if_splits)
    moreover have "j' = j" if "i' = i"
      using \<open>alone s i' j'\<close> that st(1) ij(1) unfolding alone_def by force
    ultimately show "alone ?s i' j'" by (simp add: alone_def)
  qed
  moreover have "tid_ok ?s"
  proof (rule tid_ok_cong)
    show "tid_ok s" using inv by (simp add: tinv_def)
  qed (use st in auto)
  ultimately show ?thesis by (simp add: tinv_def)
qed

text \<open>The scheduler only picks threads that can run.\<close>

lemma sched_from_SomeD: "sched_from s i = Some (i', j) \<Longrightarrow> slot i' j \<and> can_run (thr s i' j)"
  by (auto simp: sched_from_def sched_in_def split: option.splits dest: first_from_SomeD)

lemma scheduler_next_SomeD:
  assumes "scheduler_next s p = Some (i, j)" "\<And>a b. p = InProc a b \<Longrightarrow> a < NPROC"
  shows "slot i j \<and> can_run (thr s i j)"
  using assms
  by (cases p) (auto simp: sched_in_def split: option.splits dest: first_from_SomeD sched_from_SomeD)

lemma kstep_sched_inv:
  assumes "kstep S S'" "sched_inv S"
  shows "sched_inv S'"
  using assms
proof (induction rule: kstep.induct)
  case (dispatch S c i j)
  have ij: "slot i j" "can_run (thr (kst S) i j)"
    using scheduler_next_SomeD [OF dispatch(2)] dispatch(3) unfolding sched_inv_def by blast+
  have out: "(i, j) \<notin> running S"
    using ij dispatch(3) running_slot [of "running S" "kst S" i j] by (auto simp: sched_inv_def can_run_def)
  have "{t. \<exists>d. ((cur S)(c := Some (i, j))) d = Some t} = insert (i, j) (running S)"
    using dispatch(1) by (auto simp: running_def) (metis option.distinct(1))
  then show ?case
    using dispatch(3) out tinv_dispatch [OF _ ij, of "running S"]
    unfolding sched_inv_def by (auto simp: running_def)
next
  case (enter_call S c i j op r s')
  then have "post (running S) i j r s'"
    by (intro post_enter [where s = "kst S"]) (auto simp: sched_inv_def running_def)
  then show ?case using finish_sched_inv [OF enter_call(5,1)] by simp
next
  case (resume_call S c i j r s')
  then have "post (running S) i j r s'"
    by (intro post_resume [where s = "kst S"]) (auto simp: sched_inv_def running_def)
  then show ?case using finish_sched_inv [OF resume_call(4,1)] by simp
next
  case (exit_sleep S c i j ch)
  have inv: "tinv (running S) (kst S)" "(i, j) \<in> running S"
    using exit_sleep by (auto simp: sched_inv_def running_def)
  have "alone (kst S) i j"
    using exit_okD [of "kst S" i j] inv running_slot [OF inv] exit_sleep(2) by (auto simp: tinv_def)
  then have "post (running S) i j (Off (SleepAwake ExitTail)) (sleep i j ch (kst S))"
    using own_off [OF inv, of TSLEEPING] by (simp add: post_def sleep_def alone_def)
  then show ?case using finish_sched_inv [OF exit_sleep(4,1), of _ _ "held S"] by simp
next
  case (preempt S c i j)
  have inv: "tinv (running S) (kst S)" "(i, j) \<in> running S"
    using preempt by (auto simp: sched_inv_def running_def)
  have "exiting (tpc (thr (kst S) i j)) \<longrightarrow> alone (kst S) i j"
    using exit_okD [of "kst S" i j] inv running_slot [OF inv] by (auto simp: tinv_def)
  then have "post (running S) i j (Off (tpc (thr (kst S) i j))) (set_tstate i j TRUNNABLE (kst S))"
    using own_off [OF inv, of TRUNNABLE] by (simp add: post_def alone_def)
  then show ?case using finish_sched_inv [OF preempt(3,1), of _ _ "held S"] by simp
next
  case (interrupt S ch)
  then show ?case
    using shrink_tinv [OF _ shrink_wakeup1] by (auto simp: sched_inv_def running_def wakeup_def)
qed (auto simp: sched_inv_def running_def)

lemma boot_sched_inv:
  assumes "boot S"
  shows "sched_inv S"
proof -
  let ?s = "kst S"
  have th: "tid (thr ?s i j) = (if (i, j) = (0, 0) then 1 else 0)"
    "tstate (thr ?s i j) = (if (i, j) = (0, 0) then TRUNNABLE else TUNUSED)" if "slot i j" for i j
  proof -
    have "tid (thr ?s 0 0) = 1" "tstate (thr ?s 0 0) = TRUNNABLE"
      and "(i, j) \<noteq> (0, 0) \<Longrightarrow> tid (thr ?s i j) = 0 \<and> tstate (thr ?s i j) = TUNUSED"
      using assms that unfolding boot_def by blast+
    then show "tid (thr ?s i j) = (if (i, j) = (0, 0) then 1 else 0)"
      "tstate (thr ?s i j) = (if (i, j) = (0, 0) then TRUNNABLE else TUNUSED)" by auto
  qed
  have "run_ok {} ?s" using th by (simp add: run_ok_def)
  moreover have "proc_ok ?s"
    using assms th by (auto simp: boot_def proc_ok_def)
  moreover have "exit_ok ?s"
    using assms th by (auto simp: boot_def exit_ok_def split: if_splits)
  moreover have "tid_ok ?s"
    unfolding tid_ok_def
  proof (intro conjI allI impI)
    fix i j i' j' assume a: "slot i j" "slot i' j'" "tid (thr ?s i j) = tid (thr ?s i' j')" "tid (thr ?s i j) \<noteq> 0"
    have 0: "(x, y) = (0, 0)" if "slot x y" "tid (thr ?s x y) \<noteq> 0" for x y
      using th(1) [OF that(1)] that(2) by presburger
    have "(i, j) = (0, 0)" "(i', j') = (0, 0)" by (rule 0; use a in simp)+
    then show "i = i'" "j = j'" by auto
  qed (use th assms in \<open>auto simp: boot_def split: if_splits\<close>)
  moreover have "running S = {}" using assms by (simp add: running_def boot_def)
  ultimately show ?thesis using assms by (simp add: sched_inv_def tinv_def boot_def)
qed

lemma reachable_sched_inv: "reachable S \<Longrightarrow> sched_inv S"
  by (induction rule: reachable.induct) (auto intro: boot_sched_inv kstep_sched_inv)

subsection \<open>Properties\<close>

text \<open>
  C2. In every reachable state of the kernel, whatever the processors and interrupts do, a thread
  is in state \<^verbatim>\<open>TRUNNING\<close> exactly when one processor, and only one, is running it: no thread ever
  runs on two processors at once, and none is marked as running while no processor runs it.
\<close>

theorem running_on_one_cpu:
  assumes "reachable S" "i < NPROC" "j < NTHREAD"
  shows "tstate (thr (kst S) i j) = TRUNNING \<longleftrightarrow> (\<exists>!c. cur S c = Some (i, j))"
proof -
  have inv: "sched_inv S" using assms(1) by (rule reachable_sched_inv)
  then have "tstate (thr (kst S) i j) = TRUNNING \<longleftrightarrow> (i, j) \<in> running S"
    using assms(2,3) by (simp add: sched_inv_def tinv_def run_ok_def)
  also have "\<dots> \<longleftrightarrow> (\<exists>!c. cur S c = Some (i, j))"
    using inv unfolding sched_inv_def running_def by blast
  finally show ?thesis .
qed

text \<open>A concrete state after \<^verbatim>\<open>userinit\<close>, and the same with the first thread dispatched.\<close>

definition boot_sys :: ksys where
  "boot_sys = \<lparr>kst = boot_st, cur = (\<lambda>_. None), pos = (\<lambda>_. AtProc 0), held = (\<lambda>_. {})\<rparr>"

lemma thr_boot_st:
  "thr boot_st i j = (if i = 0 \<and> j = 0 then idle_thread\<lparr>tid := 1, tstate := TRUNNABLE, tpc := Forkret\<rparr> else idle_thread)"
  by (simp add: thr_def boot_st_def idle_proc_def)

lemma boot_boot_sys: "boot boot_sys"
proof -
  have "pstate (ptable boot_st i) = (if i = 0 then PUSED else PUNUSED)" for i
    by (simp add: boot_st_def idle_proc_def)
  then show ?thesis
    by (simp add: boot_def boot_sys_def thr_boot_st idle_thread_def) (simp add: boot_st_def)
qed

lemma scheduler_next_boot: "scheduler_next boot_st (AtProc 0) = Some (0, 0)"
proof -
  have "sched_in boot_st 0 0 = Some 0"
    by (simp add: sched_in_def first_from.simps thr_boot_st can_run_def)
  moreover have "pstate (ptable boot_st 0) = PUSED" by (simp add: boot_st_def)
  ultimately show ?thesis by (simp add: sched_from_def first_from.simps)
qed

definition boot_run :: ksys where
  "boot_run = boot_sys\<lparr>kst := set_tstate 0 0 TRUNNING boot_st, cur := (\<lambda>_. None)(0 := Some (0, 0))\<rparr>"

lemma boot_run_step: "kstep boot_sys boot_run"
  using kstep.dispatch [of boot_sys 0 0 0] scheduler_next_boot by (simp add: boot_sys_def boot_run_def)

lemma reachable_boot_run: "reachable boot_run"
  using reach_step [OF reach_boot [OF boot_boot_sys] boot_run_step] .

theorem running_on_one_cpu_witness: "\<exists>!c. cur boot_run c = Some (0, 0)"
  using running_on_one_cpu [OF reachable_boot_run, of 0 0] by (simp add: boot_run_def)

text \<open>
  C3. In every reachable state a process that is a zombie or not in use has no thread left, a
  thread that has reached the end of \<^verbatim>\<open>exit\<close> is the only thread of its process, and two different
  threads that are in use never have the same thread id.
\<close>

theorem threads_consistent:
  assumes "reachable S"
  shows "(\<forall>i<NPROC. \<forall>j<NTHREAD. pstate (ptable (kst S) i) \<noteq> PUSED \<longrightarrow> tstate (thr (kst S) i j) = TUNUSED) \<and>
    (\<forall>i<NPROC. \<forall>j<NTHREAD. \<forall>k<NTHREAD. tstate (thr (kst S) i j) \<noteq> TUNUSED \<longrightarrow>
       tpc (thr (kst S) i j) = ExitTail \<longrightarrow> k \<noteq> j \<longrightarrow> tstate (thr (kst S) i k) = TUNUSED) \<and>
    (\<forall>i<NPROC. \<forall>j<NTHREAD. \<forall>i'<NPROC. \<forall>j'<NTHREAD. tstate (thr (kst S) i j) \<noteq> TUNUSED \<longrightarrow>
       tid (thr (kst S) i j) = tid (thr (kst S) i' j') \<longrightarrow> i = i' \<and> j = j')"
proof -
  have "tinv (running S) (kst S)" using reachable_sched_inv [OF assms] by (simp add: sched_inv_def)
  then have ok: "proc_ok (kst S)" "exit_ok (kst S)" "tid_ok (kst S)" by (auto simp: tinv_def)
  have "tstate (thr (kst S) i j) = TUNUSED"
    if "i < NPROC" "j < NTHREAD" "pstate (ptable (kst S) i) \<noteq> PUSED" for i j
    using ok(1) that unfolding proc_ok_def by blast
  moreover have "tstate (thr (kst S) i k) = TUNUSED"
    if "slot i j" "k < NTHREAD" "tstate (thr (kst S) i j) \<noteq> TUNUSED" "tpc (thr (kst S) i j) = ExitTail" "k \<noteq> j" for i j k
    using exit_okD [OF ok(2) that(1,3)] that by (simp add: alone_def)
  moreover have "i = i' \<and> j = j'"
    if "slot i j" "slot i' j'" "tstate (thr (kst S) i j) \<noteq> TUNUSED" "tid (thr (kst S) i j) = tid (thr (kst S) i' j')"
    for i j i' j'
    using tid_ok_inj [OF ok(3) that(1,2,4) tid_ok_live [OF ok(3) that(1,3)]] .
  ultimately show ?thesis by blast
qed

theorem threads_consistent_witness:
  "tstate (thr (kst boot_run) 1 0) = TUNUSED \<and> tid (thr (kst boot_run) 0 0) \<noteq> tid (thr (kst boot_run) 1 0)"
proof -
  have "pstate (ptable (kst boot_run) 1) = PUNUSED" "tstate (thr (kst boot_run) 0 0) = TRUNNING"
    by (simp_all add: boot_run_def boot_st_def idle_proc_def)
  note st = this
  note tc = threads_consistent [OF reachable_boot_run]
  have "tstate (thr (kst boot_run) 1 0) = TUNUSED"
    using tc [THEN conjunct1, rule_format, of 1 0] st by simp
  moreover have "tid (thr (kst boot_run) 0 0) \<noteq> tid (thr (kst boot_run) 1 0)"
    using tc [THEN conjunct2, THEN conjunct2, rule_format, of 0 0 1 0] st by auto
  ultimately show ?thesis ..
qed

end
