(* ===== verification/Kmutex.thy ===== *)
theory Kmutex
  imports Ksched
begin

section \<open>Kernel mutexes: exclusion and wakeups\<close>

text \<open>
  What \<^verbatim>\<open>kthread_mutex_lock\<close> and \<^verbatim>\<open>kthread_mutex_unlock\<close> guarantee in the transition system of
  \<^verbatim>\<open>proc.c\<close>. A mutex slot whose id is 0 is free. The guarantees need that no thread locks, or waits
  in \<^verbatim>\<open>kthread_mutex_lock\<close> for, a slot that is free, because \<^verbatim>\<open>kthread_mutex_alloc\<close> hands out a free
  slot as unlocked without looking at it; \<open>free_unused\<close> says so.
\<close>

definition lock_waiter :: "proc_st \<Rightarrow> nat \<Rightarrow> bool" where
  "lock_waiter s m \<longleftrightarrow> (\<exists>i j. slot i j \<and> tstate (thr s i j) \<noteq> TUNUSED \<and>
     (tpc (thr s i j) = LockAwake m \<or> tpc (thr s i j) = LockAcquire m))"

definition free_unused :: "proc_st \<Rightarrow> bool" where
  "free_unused s \<longleftrightarrow> (\<forall>m<MAX_MUTEXES. mid (mtable s m) = 0 \<longrightarrow>
     mstate (mtable s m) = MUNLOCKED \<and> \<not> lock_waiter s m)"

text \<open>Runs that keep to this discipline.\<close>

inductive disciplined :: "ksys \<Rightarrow> bool" where
  disc_boot: "boot S \<Longrightarrow> free_unused (kst S) \<Longrightarrow> disciplined S"
| disc_step: "disciplined S \<Longrightarrow> kstep S S' \<Longrightarrow> free_unused (kst S') \<Longrightarrow> disciplined S'"

definition sleeps :: "proc_st \<Rightarrow> nat \<Rightarrow> nat \<Rightarrow> nat \<Rightarrow> bool" where
  "sleeps s i j m \<longleftrightarrow> slot i j \<and> tstate (thr s i j) = TSLEEPING \<and> chan (thr s i j) = MutexChan m"

definition wakes :: "proc_st \<Rightarrow> nat \<Rightarrow> nat \<Rightarrow> nat \<Rightarrow> bool" where
  "wakes s i j m \<longleftrightarrow> slot i j \<and> (tstate (thr s i j) = TRUNNING \<or> tstate (thr s i j) = TRUNNABLE) \<and>
     tpc (thr s i j) = UnlockWakeup m"

definition mview :: "proc_st \<Rightarrow> nat \<Rightarrow> mutexstate \<times> (nat \<times> nat) option" where
  "mview s m = (mstate (mtable s m), mythread (mtable s m))"

definition mview_ok :: "mutexstate \<times> (nat \<times> nat) option \<Rightarrow> bool" where
  "mview_ok v \<longleftrightarrow> (fst v = MLOCKED \<longleftrightarrow> snd v \<noteq> None) \<and> (\<forall>i j. snd v = Some (i, j) \<longrightarrow> slot i j)"

definition mut_ok :: "proc_st \<Rightarrow> bool" where
  "mut_ok s \<longleftrightarrow> (\<forall>m<MAX_MUTEXES. mview_ok (mview s m))"

definition wait_ok :: "proc_st \<Rightarrow> bool" where
  "wait_ok s \<longleftrightarrow>
     (\<forall>i j m. sleeps s i j m \<longrightarrow> m < MAX_MUTEXES \<and> tpc (thr s i j) = LockAwake m \<and>
        (fst (mview s m) = MLOCKED \<or> (\<exists>i' j'. wakes s i' j' m)))"

text \<open>Resumption points name mutexes of the table, and a generic \<^verbatim>\<open>sleep\<close> never returns into a lock call.\<close>

fun plain_pc :: "kpc \<Rightarrow> bool" where
  "plain_pc (LockAwake m) \<longleftrightarrow> False"
| "plain_pc (LockAcquire m) \<longleftrightarrow> False"
| "plain_pc (UnlockWakeup m) \<longleftrightarrow> False"
| "plain_pc (SleepAwake q) \<longleftrightarrow> plain_pc q"
| "plain_pc _ \<longleftrightarrow> True"

fun pc_bound :: "kpc \<Rightarrow> bool" where
  "pc_bound (LockAwake m) \<longleftrightarrow> m < MAX_MUTEXES"
| "pc_bound (LockAcquire m) \<longleftrightarrow> m < MAX_MUTEXES"
| "pc_bound (UnlockWakeup m) \<longleftrightarrow> m < MAX_MUTEXES"
| "pc_bound q \<longleftrightarrow> plain_pc q"

definition pcs_ok :: "proc_st \<Rightarrow> bool" where
  "pcs_ok s \<longleftrightarrow> (\<forall>i j. slot i j \<longrightarrow> pc_bound (tpc (thr s i j)))"

definition held_ok :: "(nat \<Rightarrow> (nat \<times> nat) set) \<Rightarrow> proc_st \<Rightarrow> bool" where
  "held_ok h s \<longleftrightarrow> (\<forall>m t. t \<in> h m \<longrightarrow> m < MAX_MUTEXES \<and> snd (mview s m) = Some t)"

text \<open>
  The effect of a stretch of thread \<open>(i, j)\<close> that neither locks nor unlocks: the mutexes look the
  same, nobody starts to sleep on one, and no other thread loses a wakeup it still has to do.
\<close>

definition mframe :: "nat \<Rightarrow> nat \<Rightarrow> proc_st \<Rightarrow> proc_st \<Rightarrow> bool" where
  "mframe i j s s' \<longleftrightarrow>
     (mut_ok s \<longrightarrow> (\<forall>m<MAX_MUTEXES. mview s' m = mview s m)) \<and>
     (\<forall>i' j' m. sleeps s' i' j' m \<longrightarrow> sleeps s i' j' m \<and> tpc (thr s' i' j') = tpc (thr s i' j')) \<and>
     (\<forall>i' j' m. (i', j') \<noteq> (i, j) \<longrightarrow> wakes s i' j' m \<longrightarrow> wakes s' i' j' m) \<and>
     (\<forall>i' j'. slot i' j' \<longrightarrow> tpc (thr s' i' j') = tpc (thr s i' j') \<or> tpc (thr s' i' j') = Forkret)"

lemma mframe_refl [simp]: "mframe i j s s"
  by (simp add: mframe_def)

lemma mut_ok_cong: "(\<And>m. m < MAX_MUTEXES \<Longrightarrow> mview s' m = mview s m) \<Longrightarrow> mut_ok s' = mut_ok s"
  by (simp add: mut_ok_def)

lemma mframe_trans [trans]:
  assumes "mframe i j s s'" "mframe i j s' s''"
  shows "mframe i j s s''"
proof -
  have "mut_ok s \<Longrightarrow> mut_ok s'" using assms(1) mut_ok_cong [of s' s] by (simp add: mframe_def)
  then show ?thesis using assms unfolding mframe_def by metis
qed

text \<open>Changes of one thread, of the mutexes' other fields, and of anything else.\<close>

lemma mframe_threadI:
  assumes "\<And>m. m < MAX_MUTEXES \<Longrightarrow> mut_ok s \<Longrightarrow> mview s' m = mview s m"
    "\<And>i' j'. slot i' j' \<Longrightarrow> thr s' i' j' = thr s i' j' \<or>
       (tpc (thr s' i' j') = tpc (thr s i' j') \<or> tpc (thr s' i' j') = Forkret) \<and>
       (tstate (thr s' i' j') = TSLEEPING \<longrightarrow> (\<forall>m. chan (thr s' i' j') \<noteq> MutexChan m) \<or>
          tstate (thr s i' j') = TSLEEPING \<and> chan (thr s' i' j') = chan (thr s i' j') \<and> tpc (thr s' i' j') = tpc (thr s i' j')) \<and>
       ((i', j') \<noteq> (i, j) \<longrightarrow> tstate (thr s i' j') = TRUNNING \<or> tstate (thr s i' j') = TRUNNABLE \<longrightarrow>
          (tstate (thr s' i' j') = TRUNNING \<or> tstate (thr s' i' j') = TRUNNABLE) \<and> tpc (thr s' i' j') = tpc (thr s i' j'))"
  shows "mframe i j s s'"
  unfolding mframe_def
proof (intro conjI allI impI)
  fix i' j' m
  assume a: "sleeps s' i' j' m"
  show "sleeps s i' j' m" "tpc (thr s' i' j') = tpc (thr s i' j')"
    using a assms(2) [of i' j'] by (auto simp: sleeps_def)
next
  fix i' j' m
  assume a: "(i', j') \<noteq> (i, j)" "wakes s i' j' m"
  show "wakes s' i' j' m"
    using a assms(2) [of i' j'] by (auto simp: wakes_def)
qed (use assms in fastforce)+

named_theorems mframes \<open>stretches that leave mutexes alone\<close>

lemma mframe_sameI:
  assumes "mtable s' = mtable s" "\<And>i j. thr s' i j = thr s i j"
  shows "mframe i j s s'"
  by (rule mframe_threadI) (use assms in \<open>auto simp: mview_def\<close>)

lemma mframe_km [mframes]: "mframe i j s (s\<lparr>km := k\<rparr>)"
  by (rule mframe_sameI) auto

lemma mframe_wakeup1 [mframes]: "mframe i j s (wakeup1 c s)"
  by (rule mframe_threadI) (auto simp: mview_def thr_wakeup1)

lemma mframe_wakeup2 [mframes]: "mframe i j s (wakeup2 k c s)"
  by (rule mframe_threadI) (auto simp: mview_def thr_wakeup2)

lemma mframe_own [mframes]:
  assumes "\<And>t. tpc (f t) = tpc t \<and> (tstate (f t) = TSLEEPING \<longrightarrow> (\<forall>m. chan (f t) \<noteq> MutexChan m))"
  shows "mframe i j s (upd_thread i j f s)"
  by (rule mframe_threadI) (use assms in \<open>auto simp: mview_def\<close>)

lemma mframe_mutex_field [mframes]: "mframe i j s (upd_thread a b (\<lambda>t. t\<lparr>mutex := x\<rparr>) s)"
  by (rule mframe_threadI) (auto simp: mview_def)

lemma mframe_killed_field [mframes]: "mframe i j s (upd_thread a b (\<lambda>t. t\<lparr>tkilled := x\<rparr>) s)"
  by (rule mframe_threadI) (auto simp: mview_def)

lemma mframe_sleep_tidy [mframes]: "mframe i j s (sleep_tidy a b s)"
  unfolding sleep_tidy_def by (rule mframe_threadI) (auto simp: mview_def)

lemma mframe_sleep: "\<not> mutex_chan c \<Longrightarrow> mframe i j s (sleep i j c s)"
  unfolding sleep_def by (rule mframe_own) auto

lemma mframe_upd_proc [mframes]: "(\<And>p. threads (f p) = threads p) \<Longrightarrow> mframe i j s (upd_proc c f s)"
  by (rule mframe_sameI) auto

lemma find_mutex_SomeD: "find_mutex k s = Some m \<Longrightarrow> m < MAX_MUTEXES \<and> mid (mtable s m) = k"
  by (auto simp: find_mutex_def dest: first_from_SomeD)

lemma mut_okD: "mut_ok s \<Longrightarrow> m < MAX_MUTEXES \<Longrightarrow> mstate (mtable s m) = MLOCKED \<longleftrightarrow> mythread (mtable s m) \<noteq> None"
  by (simp add: mut_ok_def mview_ok_def mview_def)

lemma mut_ok_unlocked:
  assumes "mut_ok s" "m < MAX_MUTEXES" "mstate (mtable s m) \<noteq> MLOCKED"
  shows "mview s m = (MUNLOCKED, None)"
  using mut_okD [OF assms(1,2)] assms(3)
  by (cases "mstate (mtable s m)"; cases "mythread (mtable s m)") (auto simp: mview_def)

text \<open>Deallocating a mutex that is not locked does not change how it looks.\<close>

lemma mframe_dealloc [mframes]: "mframe i j s (snd (kthread_mutex_dealloc a b k s))"
proof (cases "find_mutex k s")
  case None
  then show ?thesis by (simp add: kthread_mutex_dealloc_def)
next
  case (Some m)
  show ?thesis
  proof (cases "mstate (mtable s m) = MLOCKED")
    case True
    then show ?thesis using Some by (simp add: kthread_mutex_dealloc_def)
  next
    case False
    then have "mut_ok s \<Longrightarrow> mview s m = (MUNLOCKED, None)"
      using find_mutex_SomeD [OF Some] mut_ok_unlocked by blast
    then show ?thesis
      using Some False by (intro mframe_threadI) (auto simp: kthread_mutex_dealloc_def mview_def)
  qed
qed

lemma mframe_drop_mutex [mframes]: "mframe i j s (drop_mutex a b c k s)"
  by (auto simp: drop_mutex_def mframe_dealloc split: option.split)

lemma thr_drop_mutex [simp]:
  "tstate (thr (drop_mutex a b c k s) i j) = tstate (thr s i j)" "tpc (thr (drop_mutex a b c k s) i j) = tpc (thr s i j)"
  "chan (thr (drop_mutex a b c k s) i j) = chan (thr s i j)" "tid (thr (drop_mutex a b c k s) i j) = tid (thr s i j)"
  by (auto simp: drop_mutex_def kthread_mutex_dealloc_def split: option.split)

lemma mframe_remove_thread:
  assumes "remove_thread a b c k s = Ret u s'" "slot c k \<Longrightarrow> tstate (thr s c k) \<noteq> TRUNNING \<and> tstate (thr s c k) \<noteq> TRUNNABLE"
  shows "mframe i j s s'"
proof -
  obtain mm where s': "s' = upd_thread c k (\<lambda>t. t\<lparr>kstack := 0, tid := 0, tstate := TUNUSED, tparent := None,
      tkilled := False\<rparr>) (drop_mutex a b c k (s\<lparr>km := mm\<rparr>))"
    using remove_thread_RetE [OF assms(1)] .
  let ?s2 = "drop_mutex a b c k (s\<lparr>km := mm\<rparr>)"
  have "mframe i j s ?s2" by (rule mframe_trans [OF mframe_km mframe_drop_mutex])
  moreover have "mframe i j ?s2 s'"
    using assms(2) unfolding s' by (intro mframe_threadI) (auto simp: mview_def)
  ultimately show ?thesis by (rule mframe_trans)
qed

lemma mframe_kill_loop: "kill_loop i j ks found s = Ret r s' \<Longrightarrow> mframe i j s s'"
proof (induction ks arbitrary: s found)
  case (Cons k ks)
  show ?case
  proof (cases "tid (thr s i k) \<noteq> tid (thr s i j) \<and> tstate (thr s i k) \<noteq> TUNUSED")
    case True
    let ?s1 = "upd_thread i k (\<lambda>t. t\<lparr>tkilled := True\<rparr>) s"
    obtain s2 where s2: "kill_loop i j ks True s2 = Ret r s'" and or: "s2 = ?s1 \<or>
        remove_thread i j i k ?s1 = Ret () s2 \<and> (tstate (thr s i k) = TSLEEPING \<or> tstate (thr s i k) = TZOMBIE)"
      using Cons.prems True by (auto simp: Let_def split: if_splits)
    have "mframe i j ?s1 s2" using or mframe_remove_thread [of i j i k ?s1 "()" s2] by auto
    then show ?thesis
      using mframe_trans [OF mframe_killed_field] mframe_trans Cons.IH [OF s2] by blast
  next
    case False
    then show ?thesis using Cons by auto
  qed
qed simp

lemma mframe_remove_all:
  assumes "for_each (\<lambda>k. remove_thread i j c k) ks s = Ret u s'"
    "\<And>k. k \<in> set ks \<Longrightarrow> tstate (thr s c k) = TUNUSED"
  shows "mframe i j s s'"
  using assms
proof (induction ks arbitrary: s)
  case (Cons k ks)
  then obtain s1 where s1: "remove_thread i j c k s = Ret () s1"
      "for_each (\<lambda>k. remove_thread i j c k) ks s1 = Ret u s'"
    by auto
  have "tstate (thr s1 c k') = TUNUSED" if "k' \<in> set ks" for k'
  proof -
    obtain mm where "s1 = upd_thread c k (\<lambda>t. t\<lparr>kstack := 0, tid := 0, tstate := TUNUSED, tparent := None,
        tkilled := False\<rparr>) (drop_mutex i j c k (s\<lparr>km := mm\<rparr>))"
      using remove_thread_RetE [OF s1(1)] .
    then show ?thesis using Cons.prems(2) [of k'] that by simp
  qed
  then have "mframe i j s1 s'" by (rule Cons.IH [OF s1(2)])
  moreover have "mframe i j s s1" using mframe_remove_thread [OF s1(1)] Cons.prems(2) [of k] by simp
  ultimately show ?case using mframe_trans by blast
qed simp

lemma mframe_reparent [mframes]: "mframe i j s (fold (reparent_one a) cs s)"
proof (induction cs arbitrary: s)
  case (Cons c cs)
  have "mframe i j s (upd_proc c (\<lambda>p. p\<lparr>parent := q\<rparr>) s)" for q by (rule mframe_upd_proc) simp
  then have "mframe i j s (reparent_one a c s)"
    unfolding reparent_one_def Let_def by (auto intro: mframe_trans [OF _ mframe_wakeup1])
  from mframe_trans [OF this Cons.IH] show ?case by simp
qed simp

text \<open>Every call and continuation other than those of lock and unlock.\<close>

lemma mframe_kill_round:
  assumes "kill_round b i j s = Ret r s'"
  shows "mframe i j s s'"
proof -
  obtain found s1 where s1: "kill_loop i j [0..<NTHREAD] False s = Ret found s1"
    and s': "if found then s' = set_tstate i j TRUNNABLE s1 else s' = s1"
    using assms by (auto simp: kill_round_def split: if_splits)
  have "mframe i j s1 s'" using s' by (cases found) (auto intro: mframe_own)
  with mframe_kill_loop [OF s1] show ?thesis by (rule mframe_trans)
qed

lemma mframe_kill_other_threads:
  assumes "kill_other_threads b i j s = Ret r s'"
  shows "mframe i j s s'"
proof (cases "tkilled (thr s i j)")
  case True
  have "mframe i j s (set_tstate i j TZOMBIE (wakeup1 (ThreadChan i j) s))"
    by (rule mframe_trans [OF mframe_wakeup1 mframe_own]) simp
  then show ?thesis using True assms by (simp add: kill_other_threads_def)
next
  case False
  then show ?thesis using assms mframe_kill_round by (simp add: kill_other_threads_def)
qed

lemma mframe_exit: "exit i j s = Ret r s' \<Longrightarrow> mframe i j s s'"
  by (auto simp: exit_def split: if_splits dest: mframe_kill_other_threads)

lemma mframe_new:
  assumes "mtable s' = mtable s" "tstate (thr s i' k) = TUNUSED"
    "tstate (thr s' i' k) \<noteq> TSLEEPING" "tpc (thr s' i' k) = tpc (thr s i' k) \<or> tpc (thr s' i' k) = Forkret"
    "\<And>a b. (a, b) \<noteq> (i', k) \<Longrightarrow> thr s' a b = thr s a b"
  shows "mframe i j s s'"
proof (rule mframe_threadI)
  fix a b show "thr s' a b = thr s a b \<or> (tpc (thr s' a b) = tpc (thr s a b) \<or> tpc (thr s' a b) = Forkret) \<and>
       (tstate (thr s' a b) = TSLEEPING \<longrightarrow> (\<forall>m. chan (thr s' a b) \<noteq> MutexChan m) \<or>
          tstate (thr s a b) = TSLEEPING \<and> chan (thr s' a b) = chan (thr s a b) \<and> tpc (thr s' a b) = tpc (thr s a b)) \<and>
       ((a, b) \<noteq> (i, j) \<longrightarrow> tstate (thr s a b) = TRUNNING \<or> tstate (thr s a b) = TRUNNABLE \<longrightarrow>
          (tstate (thr s' a b) = TRUNNING \<or> tstate (thr s' a b) = TRUNNABLE) \<and> tpc (thr s' a b) = tpc (thr s a b))"
    using assms(2-4) assms(5) [of a b] by (cases "(a, b) = (i', k)") auto
qed (use assms(1) in \<open>simp add: mview_def\<close>)

lemma mframe_create: "mframe i j s (snd (kthread_create i j f stk s))"
proof (cases "first_from (\<lambda>k. tstate (thr s i k) = TUNUSED) 0 NTHREAD")
  case None
  then show ?thesis by (simp add: kthread_create_def)
next
  case (Some k)
  then have k: "k < NTHREAD" "tstate (thr s i k) = TUNUSED" by (auto dest: first_from_SomeD)
  obtain ks mm where al: "kalloc (km s) = (ks, mm)" by force
  show ?thesis
    by (rule mframe_new [OF _ k(2)]) (use Some al in \<open>auto simp: kthread_create_def Let_def init_kstack_other\<close>)
qed

lemma mframe_fork:
  assumes "tinv R s" "fork i j s = Ret r s'"
  shows "mframe i j s s'"
proof (cases rule: allocthread_cases [of s])
  case full
  then show ?thesis using assms by (simp add: fork_def)
next
  case (nomem c s1)
  have "tstate (thr s c 0) = TUNUSED" using assms(1) nomem(2,3) by (auto simp: tinv_def proc_ok_def)
  then show ?thesis
    using assms(2) nomem by (intro mframe_new [of s' s c 0]) (auto simp: fork_def)
next
  case (ok c s1)
  have "tstate (thr s c 0) = TUNUSED" using assms(1) ok(2,3) by (auto simp: tinv_def proc_ok_def)
  then show ?thesis
    by (intro mframe_new [of s' s c 0])
      (use assms(2) ok in \<open>auto simp: fork_def on_km_eq_Ret Let_def split: if_splits\<close>)
qed

lemma mframe_wait:
  assumes inv: "tinv R s" and step: "wait i j s = Ret r s'"
  shows "mframe i j s s'"
proof (cases "first_from (\<lambda>c. parent (ptable s c) = Some i \<and> pstate (ptable s c) = PZOMBIE) 0 NPROC")
  case None
  then show ?thesis
    using step mframe_sleep [of "ProcChan i" i j s] by (auto simp: wait_def Let_def split: if_splits)
next
  case (Some c)
  then have c: "c < NPROC" "pstate (ptable s c) = PZOMBIE" by (auto dest: first_from_SomeD)
  have un: "tstate (thr s c k) = TUNUSED" if "k < NTHREAD" for k
    using inv c that by (auto simp: tinv_def proc_ok_def)
  obtain s1 mm where s1: "for_each (\<lambda>k. remove_thread i j c k) [0..<NTHREAD] s = Ret () s1"
    and s': "s' = upd_proc c (\<lambda>p. p\<lparr>pid := 0, parent := None, name := [], killed := False, pstate := PUNUSED\<rparr>)
      (s1\<lparr>km := mm\<rparr>)"
    using step Some by (auto simp: wait_def reap_def on_km_eq_Ret Let_def)
  have "mframe i j s s1" using mframe_remove_all [OF s1] un by auto
  moreover have "mframe i j s1 s'" unfolding s' by (rule mframe_trans [OF mframe_km mframe_upd_proc]) simp
  ultimately show ?thesis by (rule mframe_trans)
qed

lemma mframe_safe_exit: "mframe i j s (snd (safe_exit_tail i j s))"
proof -
  let ?s1 = "fold (reparent_one i) [0..<NPROC] (wakeup1 (proc_chan (parent (ptable s i))) s)"
  have "mframe i j s (upd_proc i (\<lambda>p. p\<lparr>pstate := PZOMBIE\<rparr>) ?s1)"
    by (rule mframe_trans [OF mframe_trans [OF mframe_wakeup1 mframe_reparent] mframe_upd_proc]) simp
  from mframe_trans [OF this mframe_own [of "\<lambda>t. t\<lparr>tstate := TUNUSED\<rparr>"]]
  show ?thesis by (simp add: safe_exit_tail_def Let_def)
qed

lemma mframe_join_loop:
  assumes "join_loop i j k n s = Ret r s'"
  shows "mframe i j s s'"
proof -
  obtain m st where v: "join_view s i k = (m, st)" by force
  consider "s' = sleep i j (ThreadChan i k) s" | "remove_thread i j i k s = Ret () s'" "st = TZOMBIE" | "s' = s"
    using assms v by (auto simp: join_loop_def split: if_splits)
  then show ?thesis
  proof cases
    case 1
    then show ?thesis using mframe_sleep [of "ThreadChan i k"] by simp
  next
    case 2
    show ?thesis by (rule mframe_remove_thread [OF 2(1)]) (use 2(2) v in \<open>simp add: join_view_def\<close>)
  qed simp
qed

lemma mframe_kthread_exit: "mframe i j s (snd (kthread_exit i j s))"
  using mframe_trans [OF mframe_own [of "\<lambda>t. t\<lparr>tstate := TZOMBIE\<rparr>"] mframe_wakeup2]
  by (simp add: kthread_exit_def Let_def)

lemma mframe_alloc:
  assumes "free_unused s"
  shows "mframe i j s (snd (kthread_mutex_alloc i j s))"
proof (cases "find_mutex 0 s")
  case None
  then show ?thesis by (simp add: kthread_mutex_alloc_def)
next
  case (Some m)
  then have "m < MAX_MUTEXES" "mstate (mtable s m) \<noteq> MLOCKED"
    using find_mutex_SomeD [OF Some] assms by (auto simp: free_unused_def)
  then have "mut_ok s \<Longrightarrow> mview s m = (MUNLOCKED, None)" using mut_ok_unlocked by blast
  then show ?thesis
    using Some by (intro mframe_threadI) (auto simp: kthread_mutex_alloc_def mview_def Let_def)
qed
subsection \<open>The invariant\<close>

definition minv :: "(nat \<Rightarrow> (nat \<times> nat) set) \<Rightarrow> proc_st \<Rightarrow> bool" where
  "minv h s \<longleftrightarrow> mut_ok s \<and> wait_ok s \<and> pcs_ok s \<and> held_ok h s"

abbreviation (input) set_pc :: "nat \<Rightarrow> nat \<Rightarrow> kpc \<Rightarrow> proc_st \<Rightarrow> proc_st" where
  "set_pc i j q s \<equiv> upd_thread i j (\<lambda>t. t\<lparr>tpc := q\<rparr>) s"

lemma mview_upd_thread [simp]: "mview (upd_thread i j f s) m = mview s m"
  by (simp add: mview_def)

lemma mut_ok_upd_thread [simp]: "mut_ok (upd_thread i j f s) = mut_ok s"
  by (simp add: mut_ok_def)

lemma held_ok_upd_thread [simp]: "held_ok h (upd_thread i j f s) = held_ok h s"
  by (simp add: held_ok_def)

lemma wait_okD:
  assumes "wait_ok s" "sleeps s i j m"
  shows "m < MAX_MUTEXES" "tpc (thr s i j) = LockAwake m" "fst (mview s m) = MLOCKED \<or> (\<exists>i' j'. wakes s i' j' m)"
  using assms unfolding wait_ok_def by blast+

text \<open>A stretch that leaves mutexes alone, followed by the change of the thread's own point.\<close>

lemma minv_mframe:
  assumes inv: "minv h s" and fr: "mframe i j s s'" and run: "tstate (thr s i j) = TRUNNING"
    and nowake: "\<And>m. tpc (thr s i j) \<noteq> UnlockWakeup m" and q: "pc_bound q"
  shows "minv h (set_pc i j q s')"
proof -
  let ?s = "set_pc i j q s'"
  have ok: "mut_ok s" "wait_ok s" "pcs_ok s" "held_ok h s" using inv by (auto simp: minv_def)
  have mv: "mview s' m = mview s m" if "m < MAX_MUTEXES" for m
    using fr ok(1) that unfolding mframe_def by blast
  have sl: "sleeps s a b m \<and> (a, b) \<noteq> (i, j) \<and> tpc (thr s' a b) = tpc (thr s a b)" if "sleeps ?s a b m" for a b m
  proof -
    have "sleeps s' a b m" using that by (auto simp: sleeps_def split: if_splits)
    then have "sleeps s a b m" "tpc (thr s' a b) = tpc (thr s a b)" using fr unfolding mframe_def by blast+
    then show ?thesis using run by (auto simp: sleeps_def)
  qed
  have wk: "wakes ?s a b m" if "wakes s a b m" for a b m
  proof -
    have "(a, b) \<noteq> (i, j)" using that nowake by (auto simp: wakes_def)
    then have "wakes s' a b m" using fr that unfolding mframe_def by blast
    then show ?thesis using \<open>(a, b) \<noteq> (i, j)\<close> by (auto simp: wakes_def)
  qed
  have "mut_ok ?s" using ok(1) mut_ok_cong [OF mv] by simp
  moreover have "wait_ok ?s"
    unfolding wait_ok_def
  proof (intro allI impI conjI)
    fix a b m assume a: "sleeps ?s a b m"
    note o = wait_okD [OF ok(2), of a b m] sl [OF a]
    show "m < MAX_MUTEXES" using o by simp
    show "tpc (thr ?s a b) = LockAwake m" using o by auto
    show "fst (mview ?s m) = MLOCKED \<or> (\<exists>a b. wakes ?s a b m)" using o mv wk by (simp, blast)
  qed
  moreover have "pcs_ok ?s"
    unfolding pcs_ok_def
  proof (intro allI impI)
    fix a b assume "slot a b"
    then have "tpc (thr s' a b) = tpc (thr s a b) \<or> tpc (thr s' a b) = Forkret" "pc_bound (tpc (thr s a b))"
      using fr ok(3) unfolding mframe_def pcs_ok_def by blast+
    then show "pc_bound (tpc (thr ?s a b))" using q by auto
  qed
  moreover have "held_ok h ?s" using ok(4) mv by (simp add: held_ok_def)
  ultimately show ?thesis by (simp add: minv_def)
qed

lemma minv_lock_loop:
  assumes inv: "minv h s" and ij: "slot i j" and run: "tstate (thr s i j) = TRUNNING"
    and nowake: "\<And>m. tpc (thr s i j) \<noteq> UnlockWakeup m" and m: "m < MAX_MUTEXES"
    and step: "mutex_lock_loop i j m s = (r, s')"
  shows "r = Off (LockAwake m) \<and> minv h (set_pc i j (LockAwake m) s') \<or>
    r = Done 0 \<and> minv (h(m := insert (i, j) (h m))) (set_pc i j User s')"
proof (cases "mstate (mtable s m) = MUNLOCKED")
  case True
  have ok: "mut_ok s" "wait_ok s" "pcs_ok s" "held_ok h s" using inv by (auto simp: minv_def)
  have s': "r = Done 0" "s' = upd_mutex m (\<lambda>x. x\<lparr>mythread := Some (i, j)\<rparr>) (upd_mutex m (\<lambda>x. x\<lparr>mstate := MLOCKED\<rparr>) s)"
    using step True by (simp_all add: mutex_lock_loop_def Let_def)
  have mv: "mview s' m' = (if m' = m then (MLOCKED, Some (i, j)) else mview s m')" for m'
    by (simp add: s' mview_def)
  have "snd (mview s m) = None" using mut_ok_unlocked [OF ok(1) m] True by simp
  then have "h m = {}" using ok(4) unfolding held_ok_def by fastforce
  then have "held_ok (h(m := insert (i, j) (h m))) (set_pc i j User s')"
    using ok(4) m by (auto simp: held_ok_def mv)
  moreover have "mut_ok s'" using ok(1) ij by (simp add: mut_ok_def mv) (simp add: mview_ok_def)
  moreover have "pcs_ok (set_pc i j User s')" using ok(3) by (simp add: pcs_ok_def s')
  moreover have "wait_ok (set_pc i j User s')"
    unfolding wait_ok_def
  proof (intro allI impI conjI)
    fix a b m' assume a: "sleeps (set_pc i j User s') a b m'"
    then have "sleeps s a b m'" "(a, b) \<noteq> (i, j)" using run by (auto simp: sleeps_def s' split: if_splits)
    note o = wait_okD [OF ok(2) this(1)] this
    show "m' < MAX_MUTEXES" using o by simp
    show "tpc (thr (set_pc i j User s') a b) = LockAwake m'" using o by (auto simp: s')
    have "wakes (set_pc i j User s') x y m'" if "wakes s x y m'" for x y
      using that nowake by (auto simp: wakes_def s')
    then show "fst (mview (set_pc i j User s') m') = MLOCKED \<or> (\<exists>x y. wakes (set_pc i j User s') x y m')"
      using o(3) by (auto simp: mv)
  qed
  ultimately show ?thesis using s'(1) by (simp add: minv_def)
next
  case False
  then have lk: "mstate (mtable s m) = MLOCKED" by (cases "mstate (mtable s m)") auto
  have ok: "mut_ok s" "wait_ok s" "pcs_ok s" "held_ok h s" using inv by (auto simp: minv_def)
  have s': "r = Off (LockAwake m)" "s' = sleep i j (MutexChan m) (upd_mutex m (\<lambda>x. x\<lparr>mstate := MLOCKED\<rparr>) s)"
    using step False by (simp_all add: mutex_lock_loop_def Let_def)
  let ?s = "set_pc i j (LockAwake m) s'"
  have mv: "mview s' m' = mview s m'" for m' using lk by (simp add: s' mview_def sleep_def)
  have "mut_ok ?s" "held_ok h ?s" using ok(1,4) by (simp_all add: mut_ok_def held_ok_def mv)
  moreover have "pcs_ok ?s" using ok(3) m by (simp add: pcs_ok_def s' sleep_def)
  moreover have "wait_ok ?s"
    unfolding wait_ok_def
  proof (intro allI impI conjI)
    fix a b m' assume a: "sleeps ?s a b m'"
    have w: "wakes ?s x y m'" if "wakes s x y m'" for x y using that nowake by (auto simp: wakes_def s' sleep_def)
    show "m' < MAX_MUTEXES" "tpc (thr ?s a b) = LockAwake m'" "fst (mview ?s m') = MLOCKED \<or> (\<exists>x y. wakes ?s x y m')"
      using a lk m w wait_okD [OF ok(2), of a b m'] unfolding mview_upd_thread mv
      by (cases "(a, b) = (i, j)"; auto simp: sleeps_def s' sleep_def mview_def)+
  qed
  ultimately show ?thesis using s'(1) by (simp add: minv_def)
qed

subsection \<open>Calls and continuations\<close>

fun out_pc :: "kout \<Rightarrow> kpc" where
  "out_pc (Done v) = User"
| "out_pc (Gap q) = q"
| "out_pc (Off q) = q"

lemma plain_pc_bound: "plain_pc q \<Longrightarrow> pc_bound q"
  by (cases q) auto

lemma note_held_plain: "plain_pc (out_pc r) \<Longrightarrow> note_held None r t h = h"
  by (auto simp: note_held_def split: kout.split kpc.split)

lemma plain_kill_round: "kill_round b i j s = Ret r s' \<Longrightarrow> plain_pc (out_pc r)"
  by (auto simp: kill_round_def split: if_splits)

lemma plain_kill_other_threads: "kill_other_threads b i j s = Ret r s' \<Longrightarrow> plain_pc (out_pc r)"
  by (auto simp: kill_other_threads_def dest: plain_kill_round split: if_splits)

lemma plain_exit: "exit i j s = Ret r s' \<Longrightarrow> plain_pc (out_pc r)"
  by (auto simp: exit_def dest: plain_kill_other_threads split: if_splits)

lemma plain_wait: "wait i j s = Ret r s' \<Longrightarrow> plain_pc (out_pc r)"
  by (auto simp: wait_def Let_def split: if_splits option.splits)

lemma plain_join_loop: "join_loop i j k n s = Ret r s' \<Longrightarrow> plain_pc (out_pc r)"
  by (auto simp: join_loop_def split: if_splits prod.splits)

lemmas plains = plain_kill_round plain_kill_other_threads plain_exit plain_wait plain_join_loop

fun lock_op :: "kcall \<Rightarrow> bool" where
  "lock_op (CallLock k) \<longleftrightarrow> True"
| "lock_op (CallUnlock k) \<longleftrightarrow> True"
| "lock_op _ \<longleftrightarrow> False"

lemma enter_plain:
  assumes "\<not> lock_op op" "enter op i j s = Ret r s'"
  shows "plain_pc (out_pc r)"
  using assms
  by (cases op) (auto simp: kthread_exit_def kthread_join_def yield_def Let_def split: if_splits prod.splits dest: plains)

lemma enter_mframe:
  assumes "\<not> lock_op op" "enter op i j s = Ret r s'" "tinv R s" "free_unused s" "call_ok op"
  shows "mframe i j s s'"
proof (cases op)
  case (CallCreate f stk)
  then show ?thesis using assms mframe_create [of i j s f stk] by (auto simp: split_beta)
next
  case CallKexit
  then show ?thesis using assms mframe_kthread_exit [of i j s] by (auto simp: split_beta)
next
  case CallAlloc
  then show ?thesis using assms mframe_alloc [of s i j] by (auto simp: split_beta)
next
  case (CallDealloc k)
  then show ?thesis using assms mframe_dealloc [of i j s i j k] by (auto simp: split_beta)
next
  case (CallKill k)
  then show ?thesis
    using assms mframe_upd_proc [of "\<lambda>p. p\<lparr>killed := True\<rparr>" i j s]
    by (auto simp: kill_def split: option.splits)
next
  case CallYield
  then show ?thesis using assms mframe_own [of "\<lambda>t. t\<lparr>tstate := TRUNNABLE\<rparr>" i j s] by (auto simp: yield_def)
next
  case (CallSleep c)
  then show ?thesis using assms mframe_sleep by auto
next
  case (CallWakeup c)
  then show ?thesis using assms mframe_wakeup1 [of i j s c] by (auto simp: wakeup_def)
next
  case CallFork
  then show ?thesis using assms mframe_fork by auto
next
  case (CallJoin n)
  then show ?thesis using assms mframe_join_loop by (auto simp: kthread_join_def Let_def)
qed (use assms mframe_wait mframe_exit mframe_kill_other_threads in auto)

lemma minv_unlock:
  assumes inv: "minv h s" and ti: "tinv R s" and run: "(i, j) \<in> R" and pc: "tpc (thr s i j) = User"
    and step: "kthread_mutex_unlock i j k s = Ret r s'"
  shows "minv (note_held None r (i, j) h) (set_pc i j (out_pc r) s')"
proof (cases "\<exists>m. r = Gap (UnlockWakeup m)")
  case False
  then have "s' = s" "r = Done (-1)"
    using step by (auto simp: kthread_mutex_unlock_def split: option.splits if_splits)
  then show ?thesis
    using minv_mframe [OF inv mframe_refl, of i j User] running_slot [OF ti run] pc by (simp add: note_held_def)
next
  case True
  then obtain m i' j' where m: "find_mutex k s = Some m" "r = Gap (UnlockWakeup m)"
      "mythread (mtable s m) = Some (i', j')" "tid (thr s i' j') = tid (thr s i j)"
      "s' = upd_mutex m (\<lambda>x. x\<lparr>mythread := None, mstate := MUNLOCKED\<rparr>) s"
    using step by (auto simp: kthread_mutex_unlock_def split: option.splits if_splits)
  have ok: "mut_ok s" "wait_ok s" "pcs_ok s" "held_ok h s" using inv by (auto simp: minv_def)
  have mm: "m < MAX_MUTEXES" using find_mutex_SomeD [OF m(1)] by simp
  have ij: "slot i j" "tstate (thr s i j) = TRUNNING" "tid (thr s i j) \<noteq> 0" using running_slot [OF ti run] by auto
  have "slot i' j'" using ok(1) mm m(3) by (auto simp: mut_ok_def mview_ok_def mview_def)
  then have own: "(i', j') = (i, j)"
    using tid_ok_inj [of s i' j' i j] ti ij m(4) by (auto simp: tinv_def)
  let ?s = "set_pc i j (UnlockWakeup m) s'"
  have mv: "mview s' m' = (if m' = m then (MUNLOCKED, None) else mview s m')" for m'
    by (simp add: m(5) mview_def)
  have hm: "h m \<subseteq> {(i, j)}" using ok(4) m(3) own by (auto simp: held_ok_def mview_def)
  have "mut_ok s'" using ok(1) by (simp add: mut_ok_def mv) (simp add: mview_ok_def)
  moreover have "held_ok (h(m := h m - {(i, j)})) ?s" using ok(4) hm by (auto simp: held_ok_def mv)
  moreover have "pcs_ok ?s" using ok(3) mm by (simp add: pcs_ok_def m(5))
  moreover have "wait_ok ?s"
    unfolding wait_ok_def
  proof (intro allI impI conjI)
    fix a b m' assume a: "sleeps ?s a b m'"
    then have "sleeps s a b m'" "(a, b) \<noteq> (i, j)" using ij by (auto simp: sleeps_def m(5) split: if_splits)
    note o = wait_okD [OF ok(2) this(1)] this
    show "m' < MAX_MUTEXES" using o by simp
    show "tpc (thr ?s a b) = LockAwake m'" using o by (auto simp: m(5))
    have "wakes ?s x y m'" if "wakes s x y m'" for x y using that pc by (auto simp: wakes_def m(5))
    moreover have "wakes ?s i j m" using ij by (simp add: wakes_def m(5))
    ultimately show "fst (mview ?s m') = MLOCKED \<or> (\<exists>x y. wakes ?s x y m')"
      using o(3) by (auto simp: mv)
  qed
  ultimately show ?thesis using m(2) by (simp add: minv_def note_held_def)
qed

lemma minv_enter:
  assumes inv: "minv h s" and ti: "tinv R s" and run: "(i, j) \<in> R" and pc: "tpc (thr s i j) = User"
    and fu: "free_unused s" and op: "call_ok op" and step: "enter op i j s = Ret r s'"
  shows "minv (note_held (lock_call op s) r (i, j) h) (set_pc i j (out_pc r) s')"
proof -
  have ij: "slot i j" "tstate (thr s i j) = TRUNNING" using running_slot [OF ti run] by auto
  have same: "minv h (set_pc i j User s)" using minv_mframe [OF inv mframe_refl ij(2), of User] pc by simp
  show ?thesis
  proof (cases op)
    case (CallLock k)
    then show ?thesis
    proof (cases "find_mutex k s")
      case None
      then show ?thesis using CallLock step same by (auto simp: kthread_mutex_lock_def note_held_def)
    next
      case (Some m)
      have m: "m < MAX_MUTEXES" using find_mutex_SomeD [OF Some] by simp
      consider "r = Done (-1)" "s' = s" | "mutex_lock_loop i j m s = (r, s')"
        using CallLock step Some by (auto simp: kthread_mutex_lock_def split: if_splits prod.splits)
      then show ?thesis
      proof cases
        case 1
        then show ?thesis using CallLock Some same by (simp add: note_held_def)
      next
        case 2
        then show ?thesis
          using minv_lock_loop [OF inv ij _ m 2] pc CallLock Some by (auto simp: note_held_def)
      qed
    qed
  next
    case (CallUnlock k)
    then show ?thesis using minv_unlock [OF inv ti run pc, of k] step by simp
  qed (use enter_plain [OF _ step] enter_mframe [OF _ step ti fu op] minv_mframe [OF inv _ ij(2)] pc
      note_held_plain plain_pc_bound in auto)
qed

lemma minv_wakeup:
  assumes inv: "minv h s" and ij: "tstate (thr s i j) = TRUNNING" "tpc (thr s i j) = UnlockWakeup m"
  shows "minv h (set_pc i j User (wakeup1 (MutexChan m) s))"
proof -
  let ?s = "set_pc i j User (wakeup1 (MutexChan m) s)"
  have ok: "mut_ok s" "wait_ok s" "pcs_ok s" "held_ok h s" using inv by (auto simp: minv_def)
  have mv: "mview (wakeup1 (MutexChan m) s) m' = mview s m'" for m' by (simp add: mview_def)
  have "wait_ok ?s"
    unfolding wait_ok_def
  proof (intro allI impI conjI)
    fix a b m' assume a: "sleeps ?s a b m'"
    then have sl: "sleeps s a b m'" "(a, b) \<noteq> (i, j)" "m' \<noteq> m"
      using ij by (auto simp: sleeps_def thr_wakeup1 split: if_splits)
    note o = wait_okD [OF ok(2) sl(1)] sl
    show "m' < MAX_MUTEXES" using o by simp
    show "tpc (thr ?s a b) = LockAwake m'" using o by (auto simp: thr_wakeup1)
    have "wakes ?s x y m'" if "wakes s x y m'" for x y
      using that ij sl(3) by (auto simp: wakes_def thr_wakeup1)
    then show "fst (mview ?s m') = MLOCKED \<or> (\<exists>x y. wakes ?s x y m')" using o(3) by (auto simp: mv)
  qed
  moreover have "pcs_ok ?s" using ok(3) by (simp add: pcs_ok_def thr_wakeup1)
  ultimately show ?thesis using ok(1,4) by (simp add: minv_def mut_ok_def held_ok_def mv)
qed

lemma minv_resume:
  assumes inv: "minv h s" and ti: "tinv R s" and run: "(i, j) \<in> R"
    and step: "resume (tpc (thr s i j)) i j s = Ret r s'"
  shows "minv (note_held (lock_pc (tpc (thr s i j))) r (i, j) h) (set_pc i j (out_pc r) s')"
proof -
  let ?pc = "tpc (thr s i j)"
  have ij: "slot i j" "tstate (thr s i j) = TRUNNING" using running_slot [OF ti run] by auto
  have bound: "pc_bound ?pc" using inv ij(1) by (simp add: minv_def pcs_ok_def)
  have ti': "tinv R (sleep_tidy i j s)" by (rule shrink_tinv [OF ti shrink_sleep_tidy])
  have frame: ?thesis if "mframe i j s s'" "plain_pc (out_pc r)" "plain_pc ?pc"
  proof -
    have "?pc \<noteq> UnlockWakeup m" for m using that(3) by auto
    moreover have "lock_pc ?pc = None" using that(3) by (cases ?pc) auto
    ultimately show ?thesis
      using minv_mframe [OF inv that(1) ij(2) _ plain_pc_bound [OF that(2)]] that(2) by (simp add: note_held_plain)
  qed
  have tidy: "mframe i j s t" if "mframe i j (sleep_tidy i j s) t" for t
    using mframe_trans [OF mframe_sleep_tidy that] .
  show ?thesis
  proof (cases ?pc)
    case (LockAwake m)
    then show ?thesis
      using minv_mframe [OF inv mframe_sleep_tidy ij(2), of "LockAcquire m"] bound step by (auto simp: note_held_def)
  next
    case (LockAcquire m)
    then have "mutex_lock_loop i j m s = (r, s')" using step by (simp split: prod.splits)
    then show ?thesis
      using minv_lock_loop [OF inv ij, of m r s'] LockAcquire bound by (auto simp: note_held_def)
  next
    case (UnlockWakeup m)
    then show ?thesis using minv_wakeup [OF inv ij(2)] step by (auto simp: note_held_def wakeup_def)
  next
    case (SleepAwake q)
    then show ?thesis using frame [OF tidy] step bound by auto
  next
    case (JoinAwake k n)
    then show ?thesis using frame tidy step mframe_join_loop plain_join_loop by auto
  next
    case (Join2Awake a b)
    then show ?thesis
      using frame [OF tidy] step mframe_sleep [of "ThreadChan a b" i j "sleep_tidy i j s"]
      by (auto simp: kthread_join2_def Let_def split: if_splits)
  next
    case WaitAwake
    then show ?thesis using frame tidy step mframe_wait [OF ti'] plain_wait by auto
  next
    case (KillAwake b)
    then show ?thesis using frame step mframe_kill_round plain_kill_round by auto
  next
    case ExitEntry
    then show ?thesis using frame step mframe_exit plain_exit by auto
  next
    case ExitTail
    then show ?thesis
      using frame step mframe_safe_exit [of i j s] by (auto simp: safe_exit_tail_def Let_def)
  qed (use frame step in auto)
qed

lemma kst_finish [simp]: "kst (finish c i j r s' S) = set_pc i j (out_pc r) s'"
  by (cases r) (auto simp: finish_def)

lemma held_finish [simp]: "held (finish c i j r s' S) = held S"
  by (cases r) (auto simp: finish_def)

lemma wait_ok_mono:
  assumes "wait_ok s" "\<And>m. mview s' m = mview s m"
    "\<And>a b m. sleeps s' a b m \<Longrightarrow> sleeps s a b m \<and> tpc (thr s' a b) = tpc (thr s a b)"
    "\<And>a b m. wakes s a b m \<Longrightarrow> wakes s' a b m"
  shows "wait_ok s'"
  using assms unfolding wait_ok_def by metis

lemma minv_dispatch:
  assumes "minv h s" "can_run (thr s i j)"
  shows "minv h (set_tstate i j TRUNNING s)"
proof -
  have "wait_ok (set_tstate i j TRUNNING s)"
    by (rule wait_ok_mono [of s]) (use assms in \<open>auto simp: minv_def sleeps_def wakes_def split: if_splits\<close>)
  then show ?thesis using assms by (simp add: minv_def pcs_ok_def)
qed

lemma minv_preempt:
  assumes "minv h s" "tstate (thr s i j) = TRUNNING"
  shows "minv h (set_pc i j (tpc (thr s i j)) (set_tstate i j TRUNNABLE s))"
proof -
  have "wait_ok (set_pc i j (tpc (thr s i j)) (set_tstate i j TRUNNABLE s))"
    by (rule wait_ok_mono [of s]) (use assms in \<open>auto simp: minv_def sleeps_def wakes_def split: if_splits\<close>)
  then show ?thesis using assms by (simp add: minv_def pcs_ok_def)
qed

lemma minv_interrupt:
  assumes "minv h s"
  shows "minv h (wakeup c s)"
proof -
  have mv: "mview (wakeup1 c s) m = mview s m" for m by (simp add: mview_def)
  have "wait_ok (wakeup1 c s)"
    by (rule wait_ok_mono [of s])
      (use assms in \<open>auto simp: minv_def sleeps_def wakes_def mv thr_wakeup1 split: if_splits\<close>)
  then show ?thesis
    using assms by (simp add: wakeup_def minv_def pcs_ok_def mut_ok_def held_ok_def mv thr_wakeup1)
qed

lemma kstep_minv:
  assumes "kstep S S'" "sched_inv S" "free_unused (kst S)" "minv (held S) (kst S)"
  shows "minv (held S') (kst S')"
  using assms
proof (induction rule: kstep.induct)
  case (dispatch S c i j)
  have "can_run (thr (kst S) i j)"
    using scheduler_next_SomeD [OF dispatch(2)] dispatch(3) unfolding sched_inv_def by blast
  then show ?case using minv_dispatch [OF dispatch(5)] by simp
next
  case (enter_call S c i j op r s')
  have "(i, j) \<in> running S" using enter_call(1) by (auto simp: running_def)
  then show ?case
    using minv_enter [OF enter_call(7), of "running S" i j op r s'] enter_call
    by (simp add: sched_inv_def)
next
  case (resume_call S c i j r s')
  have "(i, j) \<in> running S" using resume_call(1) by (auto simp: running_def)
  then show ?case
    using minv_resume [OF resume_call(6), of "running S" i j r s'] resume_call
    by (simp add: sched_inv_def)
next
  case (exit_sleep S c i j ch)
  have "(i, j) \<in> running S" using exit_sleep(1) by (auto simp: running_def)
  then have "tstate (thr (kst S) i j) = TRUNNING"
    using exit_sleep(4) running_slot by (auto simp: sched_inv_def)
  then show ?case
    using minv_mframe [OF exit_sleep(6) mframe_sleep [OF exit_sleep(3)], of i j "SleepAwake ExitTail"] exit_sleep(2)
    by (simp add: finish_def)
next
  case (preempt S c i j)
  have "(i, j) \<in> running S" using preempt(1) by (auto simp: running_def)
  then have "tstate (thr (kst S) i j) = TRUNNING"
    using preempt(3) running_slot by (auto simp: sched_inv_def)
  then show ?case using minv_preempt [OF preempt(5)] by (simp add: finish_def)
next
  case (interrupt S ch)
  then show ?case using minv_interrupt by simp
qed simp

lemma boot_minv:
  assumes "boot S" "free_unused (kst S)"
  shows "minv (held S) (kst S)"
proof -
  let ?s = "kst S"
  have st: "tstate (thr ?s i j) = (if (i, j) = (0, 0) then TRUNNABLE else TUNUSED)" if "slot i j" for i j
    using assms(1) that unfolding boot_def by (cases "(i, j) = (0, 0)") auto
  have "mview ?s m = (MUNLOCKED, None)" if "m < MAX_MUTEXES" for m
    using assms(1) that by (simp add: boot_def mview_def)
  then have "mut_ok ?s" by (simp add: mut_ok_def mview_ok_def)
  moreover have "\<not> sleeps ?s i j m" for i j m using st [of i j] by (auto simp: sleeps_def split: if_splits)
  then have "wait_ok ?s" by (simp add: wait_ok_def)
  moreover have "pc_bound (tpc (thr ?s i j))" if "slot i j" for i j
    using assms(1) that unfolding boot_def by (cases "(i, j) = (0, 0)") auto
  then have "pcs_ok ?s" by (simp add: pcs_ok_def)
  moreover have "held_ok (held S) ?s" using assms(1) by (simp add: boot_def held_ok_def)
  ultimately show ?thesis by (simp add: minv_def)
qed

lemma disciplined_inv: "disciplined S \<Longrightarrow> reachable S \<and> free_unused (kst S) \<and> minv (held S) (kst S)"
proof (induction rule: disciplined.induct)
  case (disc_boot S)
  then show ?case using boot_minv reach_boot by blast
next
  case (disc_step S S')
  then show ?case using reach_step kstep_minv reachable_sched_inv by blast
qed

subsection \<open>Properties\<close>



text \<open>The wakeup that follows an unlock makes every thread that waits for the mutex runnable.\<close>

lemma wakeup_frees_waiters: "\<not> sleeps (wakeup (MutexChan m) s) i j m"
  by (auto simp: sleeps_def wakeup_def thr_wakeup1)

text \<open>
  A run: the first thread creates a second one, allocates a mutex and locks it; then a second
  processor starts the new thread, which tries to lock the mutex too.
\<close>

definition after_call :: "nat \<Rightarrow> nat \<Rightarrow> kcall \<Rightarrow> ksys \<Rightarrow> ksys" where
  "after_call c j op S = (case enter op 0 j (kst S) of
     Ret r s' \<Rightarrow> finish c 0 j r s' (S\<lparr>held := note_held (lock_call op (kst S)) r (0, j) (held S)\<rparr>)
   | _ \<Rightarrow> S)"

lemma after_call_step:
  assumes "cur S c = Some (0, j)" "tpc (thr (kst S) 0 j) = User" "call_ok op" "enter op 0 j (kst S) = Ret r s'"
  shows "kstep S (after_call c j op S)"
  using kstep.enter_call [OF assms] assms(4) by (simp add: after_call_def)

lemma after_call_Ret: "enter op 0 j (kst S) = Ret r s' \<Longrightarrow>
    after_call c j op S = finish c 0 j r s' (S\<lparr>held := note_held (lock_call op (kst S)) r (0, j) (held S)\<rparr>)"
  by (simp add: after_call_def)

definition run1 :: ksys where "run1 = boot_run\<lparr>kst := set_pc 0 0 User (kst boot_run)\<rparr>"
definition run2 :: ksys where "run2 = after_call 0 0 (CallCreate 0 0) run1"
definition run3 :: ksys where "run3 = after_call 0 0 CallAlloc run2"
definition run4 :: ksys where "run4 = after_call 0 0 (CallLock 1) run3"
definition run5 :: ksys where
  "run5 = run4\<lparr>kst := set_tstate 0 1 TRUNNING (kst run4), cur := (cur run4)(1 := Some (0, 1))\<rparr>"
definition run6 :: ksys where "run6 = run5\<lparr>kst := set_pc 0 1 User (kst run5)\<rparr>"
definition run7 :: ksys where "run7 = after_call 1 1 (CallLock 1) run6"

definition th0 :: thread where
  "th0 = idle_thread\<lparr>tid := 1, tstate := TRUNNING, tpc := User\<rparr>"
definition th1 :: thread where
  "th1 = idle_thread\<lparr>tid := 2, tstate := TRUNNABLE, tpc := Forkret, kstack := 0x80102000, tparent := Some 0,
     tf := 0x80102FB4, tcontext := 0x80102F9C\<rparr>"

lemma run1_facts:
  "thr (kst run1) i j = (if i = 0 \<and> j = 0 then th0 else idle_thread)" "mtable (kst run1) = mtable boot_st"
  "cur run1 = (\<lambda>_. None)(0 := Some (0, 0))" "pos run1 = (\<lambda>_. AtProc 0)" "held run1 = (\<lambda>_. {})"
  "nexttid (kst run1) = 2" "nextmid (kst run1) = 1" "km (kst run1) = km boot_st"
  "pstate (ptable (kst run1) i) = (if i = 0 then PUSED else PUNUSED)"
  by (simp_all add: run1_def boot_run_def boot_sys_def thr_boot_st th0_def) (simp_all add: boot_st_def idle_proc_def)

lemma run2_facts:
  "enter (CallCreate 0 0) 0 0 (kst run1) = Ret (Done 2) (snd (kthread_create 0 0 0 0 (kst run1)))"
  "thr (kst run2) i j = (if i = 0 \<and> j = 0 then th0 else if i = 0 \<and> j = 1 then th1 else idle_thread)"
  "mtable (kst run2) = mtable boot_st" "cur run2 = (\<lambda>_. None)(0 := Some (0, 0))" "pos run2 = (\<lambda>_. AtProc 0)"
  "held run2 = (\<lambda>_. {})" "nextmid (kst run2) = 1"
  "pstate (ptable (kst run2) i) = (if i = 0 then PUSED else PUNUSED)"
proof -
  have k: "first_from (\<lambda>k. tstate (thr (kst run1) 0 k) = TUNUSED) 0 NTHREAD = Some 1"
    by (simp add: first_from.simps run1_facts th0_def idle_thread_def)
  have al: "kalloc (km (kst run1)) = (0x80102000, (km boot_st)\<lparr>freelist := load32 (mem (km boot_st)) 0x80102000\<rparr>)"
    by (simp add: run1_facts kalloc_def boot_st_def Let_def)
  let ?s2 = "snd (kthread_create 0 0 0 0 (kst run1))"
  have "fst (kthread_create 0 0 0 0 (kst run1)) = 2"
    unfolding kthread_create_def k option.case by (simp add: al Let_def run1_facts(6))
  then show en: "enter (CallCreate 0 0) 0 0 (kst run1) = Ret (Done 2) ?s2" by (simp add: split_beta)
  have "thr ?s2 i j = (if i = 0 \<and> j = 0 then th0 else if i = 0 \<and> j = 1 then th1 else idle_thread)"
    unfolding kthread_create_def k option.case
    by (simp add: al Let_def run1_facts(1,6) init_kstack_def th1_def)
  then show "thr (kst run2) i j = (if i = 0 \<and> j = 0 then th0 else if i = 0 \<and> j = 1 then th1 else idle_thread)"
    by (auto simp: run2_def after_call_Ret [OF en] th0_def)
  have "mtable ?s2 = mtable boot_st" "nextmid ?s2 = 1" "pstate (ptable ?s2 i) = (if i = 0 then PUSED else PUNUSED)"
    unfolding kthread_create_def k option.case by (simp_all add: al Let_def run1_facts(2,7,9))
  then show "mtable (kst run2) = mtable boot_st" "nextmid (kst run2) = 1"
      "pstate (ptable (kst run2) i) = (if i = 0 then PUSED else PUNUSED)"
    by (simp_all add: run2_def after_call_Ret [OF en])
  show "cur run2 = (\<lambda>_. None)(0 := Some (0, 0))" "pos run2 = (\<lambda>_. AtProc 0)" "held run2 = (\<lambda>_. {})"
    by (simp_all add: run2_def after_call_Ret [OF en] finish_def note_held_def run1_facts)
qed

lemma run3_facts:
  "enter CallAlloc 0 0 (kst run2) = Ret (Done 1) (snd (kthread_mutex_alloc 0 0 (kst run2)))"
  "thr (kst run3) i j = (if i = 0 \<and> j = 0 then th0\<lparr>mutex := Some 0\<rparr> else if i = 0 \<and> j = 1 then th1 else idle_thread)"
  "mid (mtable (kst run3) m) = (if m = 0 then 1 else 0)" "mstate (mtable (kst run3) m) = MUNLOCKED"
  "cur run3 = (\<lambda>_. None)(0 := Some (0, 0))" "pos run3 = (\<lambda>_. AtProc 0)" "held run3 = (\<lambda>_. {})"
  "pstate (ptable (kst run3) i) = (if i = 0 then PUSED else PUNUSED)"
proof -
  have k: "find_mutex 0 (kst run2) = Some 0"
    by (simp add: find_mutex_def first_from.simps run2_facts(3) boot_st_def)
  show en: "enter CallAlloc 0 0 (kst run2) = Ret (Done 1) (snd (kthread_mutex_alloc 0 0 (kst run2)))"
    by (simp add: kthread_mutex_alloc_def k Let_def run2_facts(7))
  show "thr (kst run3) i j = (if i = 0 \<and> j = 0 then th0\<lparr>mutex := Some 0\<rparr> else if i = 0 \<and> j = 1 then th1 else idle_thread)"
    "mid (mtable (kst run3) m) = (if m = 0 then 1 else 0)" "mstate (mtable (kst run3) m) = MUNLOCKED"
    "pstate (ptable (kst run3) i) = (if i = 0 then PUSED else PUNUSED)"
    by (simp_all add: run3_def after_call_Ret [OF en] kthread_mutex_alloc_def k Let_def run2_facts(2,3,7,8) th0_def)
      (simp_all add: boot_st_def)
  show "cur run3 = (\<lambda>_. None)(0 := Some (0, 0))" "pos run3 = (\<lambda>_. AtProc 0)" "held run3 = (\<lambda>_. {})"
    by (simp_all add: run3_def after_call_Ret [OF en] finish_def note_held_def run2_facts)
qed

lemma run4_facts:
  "enter (CallLock 1) 0 0 (kst run3) = Ret (Done 0) (snd (mutex_lock_loop 0 0 0 (kst run3)))"
  "thr (kst run4) = thr (kst run3)" "mid (mtable (kst run4) m) = (if m = 0 then 1 else 0)"
  "mstate (mtable (kst run4) m) = (if m = 0 then MLOCKED else MUNLOCKED)"
  "mythread (mtable (kst run4) 0) = Some (0, 0)"
  "cur run4 = (\<lambda>_. None)(0 := Some (0, 0))" "pos run4 = (\<lambda>_. AtProc 0)" "held run4 = (\<lambda>_. {})(0 := {(0, 0)})"
  "pstate (ptable (kst run4) i) = (if i = 0 then PUSED else PUNUSED)"
proof -
  have k: "find_mutex 1 (kst run3) = Some 0" by (simp add: find_mutex_def first_from.simps run3_facts(3))
  show en: "enter (CallLock 1) 0 0 (kst run3) = Ret (Done 0) (snd (mutex_lock_loop 0 0 0 (kst run3)))"
    by (simp add: kthread_mutex_lock_def k Let_def run3_facts(4) mutex_lock_loop_def)
  show "thr (kst run4) = thr (kst run3)"
    by (intro ext) (simp add: run4_def after_call_Ret [OF en] mutex_lock_loop_def Let_def run3_facts(2,4) th0_def)
  show "mid (mtable (kst run4) m) = (if m = 0 then 1 else 0)"
    "mstate (mtable (kst run4) m) = (if m = 0 then MLOCKED else MUNLOCKED)"
    "mythread (mtable (kst run4) 0) = Some (0, 0)"
    "pstate (ptable (kst run4) i) = (if i = 0 then PUSED else PUNUSED)"
    by (simp_all add: run4_def after_call_Ret [OF en] mutex_lock_loop_def Let_def run3_facts(3,4,8))
  show "cur run4 = (\<lambda>_. None)(0 := Some (0, 0))" "pos run4 = (\<lambda>_. AtProc 0)" "held run4 = (\<lambda>_. {})(0 := {(0, 0)})"
    by (simp_all add: run4_def after_call_Ret [OF en] finish_def note_held_def run3_facts k)
qed

lemma run6_facts:
  "scheduler_next (kst run4) (AtProc 0) = Some (0, 1)" "tpc (thr (kst run5) 0 1) = Forkret" "cur run5 1 = Some (0, 1)"
  "thr (kst run6) i j = (if i = 0 \<and> j = 0 then th0\<lparr>mutex := Some 0\<rparr>
     else if i = 0 \<and> j = 1 then th1\<lparr>tstate := TRUNNING, tpc := User\<rparr> else idle_thread)"
  "mtable (kst run6) = mtable (kst run4)" "cur run6 1 = Some (0, 1)"
proof -
  have "first_from (\<lambda>j. can_run (thr (kst run4) 0 j)) 0 NTHREAD = Some 1"
    by (simp add: first_from.simps run4_facts(2) run3_facts(2) can_run_def th0_def th1_def)
  then show "scheduler_next (kst run4) (AtProc 0) = Some (0, 1)"
    by (simp add: sched_from_def sched_in_def first_from.simps run4_facts(9))
qed (simp_all add: run5_def run6_def run4_facts(2) run3_facts(2) th1_def)

lemma run7_facts:
  "enter (CallLock 1) 0 1 (kst run6) = Ret (Off (LockAwake 0)) (snd (mutex_lock_loop 0 1 0 (kst run6)))"
  "thr (kst run7) i j = (if i = 0 \<and> j = 0 then th0\<lparr>mutex := Some 0\<rparr>
     else if i = 0 \<and> j = 1 then th1\<lparr>tstate := TSLEEPING, chan := MutexChan 0, tpc := LockAwake 0\<rparr> else idle_thread)"
  "mid (mtable (kst run7) m) = (if m = 0 then 1 else 0)"
  "mstate (mtable (kst run7) m) = (if m = 0 then MLOCKED else MUNLOCKED)"
proof -
  have k: "find_mutex 1 (kst run6) = Some 0" by (simp add: find_mutex_def first_from.simps run6_facts(5) run4_facts(3))
  show en: "enter (CallLock 1) 0 1 (kst run6) = Ret (Off (LockAwake 0)) (snd (mutex_lock_loop 0 1 0 (kst run6)))"
    by (simp add: kthread_mutex_lock_def k Let_def run6_facts(5) run4_facts(4,5) mutex_lock_loop_def)
  have r7: "kst run7 = set_pc 0 1 (LockAwake 0) (snd (mutex_lock_loop 0 1 0 (kst run6)))"
    by (simp only: run7_def after_call_Ret [OF en] kst_finish out_pc.simps)
  show "thr (kst run7) i j = (if i = 0 \<and> j = 0 then th0\<lparr>mutex := Some 0\<rparr>
     else if i = 0 \<and> j = 1 then th1\<lparr>tstate := TSLEEPING, chan := MutexChan 0, tpc := LockAwake 0\<rparr> else idle_thread)"
    "mid (mtable (kst run7) m) = (if m = 0 then 1 else 0)"
    "mstate (mtable (kst run7) m) = (if m = 0 then MLOCKED else MUNLOCKED)"
    by (simp_all add: r7 mutex_lock_loop_def Let_def run6_facts(4,5) run4_facts(3,4) sleep_def del: One_nat_def)
qed

lemma free_unusedI:
  assumes pcs: "\<And>i j. tstate (thr s i j) \<noteq> TUNUSED \<Longrightarrow> plain_pc (tpc (thr s i j)) \<or> tpc (thr s i j) = LockAwake 0"
    and mut: "\<And>m. mid (mtable s m) = 0 \<Longrightarrow> mstate (mtable s m) = MUNLOCKED"
    and zero: "mid (mtable s 0) \<noteq> 0 \<or> (\<forall>i j. tstate (thr s i j) \<noteq> TUNUSED \<longrightarrow> plain_pc (tpc (thr s i j)))"
  shows "free_unused s"
proof -
  have "\<not> lock_waiter s m" if "mid (mtable s m) = 0" for m
  proof
    assume "lock_waiter s m"
    then obtain i j where w: "tstate (thr s i j) \<noteq> TUNUSED" "tpc (thr s i j) = LockAwake m \<or> tpc (thr s i j) = LockAcquire m"
      by (auto simp: lock_waiter_def)
    then have "tpc (thr s i j) = LockAwake 0" "m = 0" using pcs [OF w(1)] by auto
    then show False using zero that w(1) plain_pc.simps(1) by metis
  qed
  then show ?thesis using mut by (simp add: free_unused_def)
qed

lemma demo_disciplined: "disciplined run4" "disciplined run7" "disciplined run1"
proof -
  have b0: "disciplined boot_sys"
    by (rule disc_boot [OF boot_boot_sys]) (rule free_unusedI; simp add: boot_sys_def thr_boot_st idle_thread_def; simp add: boot_st_def)
  have b1: "disciplined boot_run"
    by (rule disc_step [OF b0 boot_run_step]) (rule free_unusedI; simp add: boot_run_def thr_boot_st idle_thread_def; simp add: boot_st_def)
  have "tpc (thr (kst boot_run) 0 0) = Forkret" "cur boot_run 0 = Some (0, 0)"
    by (simp_all add: boot_run_def thr_boot_st)
  then have "kstep boot_run run1"
    using kstep.resume_call [of boot_run 0 0 0 "Done 0" "kst boot_run"]
    by (simp add: run1_def finish_def note_held_def)
  then show b2: "disciplined run1"
    by (rule disc_step [OF b1]) (rule free_unusedI; simp add: run1_facts th0_def idle_thread_def; simp add: boot_st_def)
  have "kstep run1 run2"
    unfolding run2_def by (rule after_call_step [OF _ _ _ run2_facts(1)]) (simp_all add: run1_facts th0_def)
  then have b3: "disciplined run2"
    by (rule disc_step [OF b2]) (rule free_unusedI; simp add: run2_facts th0_def th1_def idle_thread_def; simp add: boot_st_def)
  have "kstep run2 run3"
    unfolding run3_def by (rule after_call_step [OF _ _ _ run3_facts(1)]) (simp_all add: run2_facts th0_def)
  then have b4: "disciplined run3"
    by (rule disc_step [OF b3]) (rule free_unusedI; simp add: run3_facts th0_def th1_def idle_thread_def)
  have "kstep run3 run4"
    unfolding run4_def by (rule after_call_step [OF _ _ _ run4_facts(1)]) (simp_all add: run3_facts th0_def)
  then show b5: "disciplined run4"
    by (rule disc_step [OF b4]) (rule free_unusedI; simp add: run4_facts run3_facts(2) th0_def th1_def idle_thread_def split: if_splits)
  have "kstep run4 run5"
    using kstep.dispatch [of run4 1 0 1] run6_facts(1) by (simp add: run4_facts run5_def del: One_nat_def)
  then have b6: "disciplined run5"
    by (rule disc_step [OF b5])
      (rule free_unusedI; simp add: run5_def run4_facts run3_facts(2) th0_def th1_def idle_thread_def split: if_splits)
  have "kstep run5 run6"
    using kstep.resume_call [of run5 1 0 1 "Done 0" "kst run5"] run6_facts(2,3)
    by (simp add: run6_def finish_def note_held_def del: One_nat_def)
  then have b7: "disciplined run6"
    by (rule disc_step [OF b6])
      (rule free_unusedI; simp add: run6_facts(4,5) run4_facts th0_def th1_def idle_thread_def split: if_splits)
  have "kstep run6 run7"
    unfolding run7_def
    by (rule after_call_step [OF _ _ _ run7_facts(1)]) (simp_all add: run6_facts th1_def del: One_nat_def)
  then show "disciplined run7"
    by (rule disc_step [OF b7]) (rule free_unusedI; simp add: run7_facts th0_def th1_def idle_thread_def split: if_splits)
qed




end
