(* ===== verification/Tournament.thy ===== *)
theory Tournament
  imports Proc
begin

section \<open>The tournament tree\<close>

text \<open>
  \<^verbatim>\<open>tournament_tree.c\<close>: a lock for \<open>2 ^ depth\<close> threads made of the mutexes of the kernel, one for each inner
  node of a binary tree. A thread locks the nodes from its leaf up to the root and unlocks them from the root down.
  It is user code: threads interleave between any two system calls, so \<^verbatim>\<open>trnmnt_tree_acquire\<close> and
  \<^verbatim>\<open>trnmnt_tree_release\<close> are step functions on the point a thread has reached, one system call a step. The fields of the
  tree are only changed with the mutex \<^verbatim>\<open>tree->lock\<close> held.

  The system calls are arguments of the model. The locales \<open>mutexes\<close> and \<open>mutex_pool\<close> say what the tree relies on, and
  their interpretations show that the kernel's calls provide it. A call of \<^verbatim>\<open>kthread_mutex_lock\<close> that has to wait is a step
  that is not taken until the mutex is free: the kernel then repeats the test with which the call began.
\<close>

type_synonym ('a, 's) call = "'s \<Rightarrow> ('a, 's) res"

record trnmnt_tree =
  tdepth :: int
  tthreads :: int
  total_nodes :: int
  tree_killed :: int
  num_of_locked :: int
  tlock :: int
  taken_ids :: "int list"
  tnodes :: "int list"

text \<open>Access to an array; outside of it there is no telling what happens.\<close>

definition elem_at :: "int list \<Rightarrow> int \<Rightarrow> int option" where
  "elem_at a k = (if 0 \<le> k \<and> nat k < length a then Some (a ! nat k) else None)"

text \<open>The quotient of C by 2, rounded towards 0.\<close>

definition half :: "int \<Rightarrow> int" where
  "half x = (if x < 0 then - ((- x) div 2) else x div 2)"

subsection \<open>Making and unmaking a tree\<close>

fun alloc_nodes :: "('s \<Rightarrow> int \<times> 's) \<Rightarrow> nat \<Rightarrow> 's \<Rightarrow> int list \<times> 's" where
  "alloc_nodes alloc 0 s = ([], s)"
| "alloc_nodes alloc (Suc n) s = (let (k, s) = alloc s; (ks, s) = alloc_nodes alloc n s in (k # ks, s))"

text \<open>
  \<open>junk\<close> and \<open>ids\<close> are what \<^verbatim>\<open>malloc\<close> finds in the memory it returns for the tree and for the array of taken ids.
\<close>

definition trnmnt_tree_alloc ::
    "('s \<Rightarrow> int \<times> 's) \<Rightarrow> (int \<Rightarrow> (int, 's) call) \<Rightarrow> (int \<Rightarrow> (int, 's) call) \<Rightarrow> trnmnt_tree \<Rightarrow> (nat \<Rightarrow> int) \<Rightarrow> int \<Rightarrow> (trnmnt_tree, 's) call" where
  "trnmnt_tree_alloc alloc lock unlock junk ids dep s =
     (let nds = 2 ^ nat (dep + 1);
          ths = nds div 2;
          nds = nds - 1;
          (lk, s) = alloc s
      in rbind (lock lk s) (\<lambda>_ s.
           let T = junk\<lparr>tlock := lk, tthreads := ths, tdepth := dep, total_nodes := nds\<rparr>;
               (ks, s) = alloc_nodes alloc (nat nds) s;
               T = T\<lparr>tnodes := ks, taken_ids := map ids [0..<nat ths]\<rparr>
           in rbind (unlock (tlock T) s) (\<lambda>_ s. Ret T s)))"

fun dealloc_nodes :: "(int \<Rightarrow> 's \<Rightarrow> int \<times> 's) \<Rightarrow> int list \<Rightarrow> 's \<Rightarrow> 's" where
  "dealloc_nodes dealloc [] s = s"
| "dealloc_nodes dealloc (k # ks) s = dealloc_nodes dealloc ks (snd (dealloc k s))"

text \<open>
  The last \<^verbatim>\<open>kthread_mutex_unlock(tree->lock)\<close> reads the tree after \<^verbatim>\<open>free(tree)\<close>, which leaves the field as it is; the
  assignment \<^verbatim>\<open>tree->killed = 1\<close> just before that is lost with the tree.
\<close>

definition trnmnt_tree_dealloc ::
    "(int \<Rightarrow> (int, 's) call) \<Rightarrow> (int \<Rightarrow> (int, 's) call) \<Rightarrow> (int \<Rightarrow> 's \<Rightarrow> int \<times> 's) \<Rightarrow> trnmnt_tree option \<Rightarrow> (int, 's) call" where
  "trnmnt_tree_dealloc lock unlock dealloc tree s =
     (case tree of
        None \<Rightarrow> Ret (-1) s
      | Some T \<Rightarrow>
          rbind (lock (tlock T) s) (\<lambda>_ s.
            if num_of_locked T \<noteq> 0 then rbind (unlock (tlock T) s) (\<lambda>_ s. Ret (-1) s)
            else let s = dealloc_nodes dealloc (take (nat (total_nodes T)) (tnodes T)) s
                 in rbind (unlock (tlock T) s) (\<lambda>_ s. Ret 0 s)))"

subsection \<open>Taking part in the tournament\<close>

text \<open>
  Where a thread is: outside, where \<^verbatim>\<open>trnmnt_tree_acquire\<close> and \<^verbatim>\<open>trnmnt_tree_release\<close> make their system calls, and inside,
  after \<^verbatim>\<open>trnmnt_tree_acquire\<close> has returned 0. \<open>Refused\<close> is a return of -1 by the former, \<open>RelFailed\<close> by the latter; \<open>Wild\<close> is
  an access outside of an array.
\<close>

datatype upc =
    Idle
  | AcqEnter int                 \<comment> \<open>at \<^verbatim>\<open>kthread_mutex_lock(tree->lock)\<close>\<close>
  | AcqBody int                  \<comment> \<open>with the lock of the tree\<close>
  | AcqClimb int int int         \<comment> \<open>in the loop, with \<^verbatim>\<open>parent\<close> and \<^verbatim>\<open>i\<close>\<close>
  | Inside int
  | RelEnter int                 \<comment> \<open>at the first \<^verbatim>\<open>kthread_mutex_lock(tree->lock)\<close>\<close>
  | RelBody int                  \<comment> \<open>with the lock of the tree\<close>
  | RelTree int "nat list" int   \<comment> \<open>in \<^verbatim>\<open>release_lock\<close>: nodes left, and the sum so far\<close>
  | RelEnd int                   \<comment> \<open>at the second \<^verbatim>\<open>kthread_mutex_lock(tree->lock)\<close>\<close>
  | RelTail int                  \<comment> \<open>with the lock of the tree\<close>
  | Refused
  | RelFailed
  | Wild

definition acquire_entry :: "trnmnt_tree option \<Rightarrow> int \<Rightarrow> upc" where
  "acquire_entry tree ID = (case tree of None \<Rightarrow> Refused | Some T \<Rightarrow> if ID > tthreads T - 1 then Refused else AcqEnter ID)"

definition release_entry :: "trnmnt_tree option \<Rightarrow> int \<Rightarrow> upc" where
  "release_entry tree ID = (case tree of None \<Rightarrow> RelFailed | Some T \<Rightarrow> if ID > tthreads T - 1 then RelFailed else RelEnter ID)"

text \<open>The order in which the recursion of \<^verbatim>\<open>release_lock\<close> unlocks the nodes.\<close>

fun release_lock :: "nat \<Rightarrow> nat list" where
  "release_lock par = (if par = 0 then [0] else release_lock ((par - 1) div 2) @ [par])"

declare release_lock.simps [simp del]

definition leaf :: "trnmnt_tree \<Rightarrow> int \<Rightarrow> int" where
  "leaf T ID = total_nodes T - tthreads T + ID"

fun trnmnt_tree_acquire ::
    "(int \<Rightarrow> (int, 's) call) \<Rightarrow> (int \<Rightarrow> (int, 's) call) \<Rightarrow> upc \<Rightarrow> trnmnt_tree \<Rightarrow> (upc \<times> trnmnt_tree, 's) call" where
  "trnmnt_tree_acquire lock unlock (AcqEnter ID) T s = rbind (lock (tlock T) s) (\<lambda>_ s. Ret (AcqBody ID, T) s)"
| "trnmnt_tree_acquire lock unlock (AcqBody ID) T s =
     (case elem_at (taken_ids T) ID of
        None \<Rightarrow> Ret (Wild, T) s
      | Some v \<Rightarrow>
          if v \<noteq> 0 then rbind (unlock (tlock T) s) (\<lambda>_ s. Ret (Refused, T) s)
          else let T = T\<lparr>taken_ids := (taken_ids T)[nat ID := 1], num_of_locked := num_of_locked T + 1\<rparr>
               in rbind (unlock (tlock T) s) (\<lambda>_ s. Ret (AcqClimb ID (leaf T ID) 0, T) s))"
| "trnmnt_tree_acquire lock unlock (AcqClimb ID par i) T s =
     (if i < tdepth T then
        let par = half (par - 1)
        in case elem_at (tnodes T) par of
             None \<Rightarrow> Ret (Wild, T) s
           | Some k \<Rightarrow> rbind (lock k s) (\<lambda>r s. Ret (if r \<noteq> 0 then Refused else AcqClimb ID par (i + 1), T) s)
      else Ret (Inside ID, T) s)"
| "trnmnt_tree_acquire lock unlock pc T s = Ret (pc, T) s"

fun trnmnt_tree_release ::
    "(int \<Rightarrow> (int, 's) call) \<Rightarrow> (int \<Rightarrow> (int, 's) call) \<Rightarrow> upc \<Rightarrow> trnmnt_tree \<Rightarrow> (upc \<times> trnmnt_tree, 's) call" where
  "trnmnt_tree_release lock unlock (RelEnter ID) T s = rbind (lock (tlock T) s) (\<lambda>_ s. Ret (RelBody ID, T) s)"
| "trnmnt_tree_release lock unlock (RelBody ID) T s =
     (case elem_at (taken_ids T) ID of
        None \<Rightarrow> Ret (Wild, T) s
      | Some v \<Rightarrow>
          rbind (unlock (tlock T) s) (\<lambda>_ s.
            Ret (if v = 0 then RelFailed else RelTree ID (release_lock (nat (half (leaf T ID - 1)))) 0, T) s))"
| "trnmnt_tree_release lock unlock (RelTree ID (n # ns) acc) T s =
     (case elem_at (tnodes T) (int n) of
        None \<Rightarrow> Ret (Wild, T) s
      | Some k \<Rightarrow> rbind (unlock k s) (\<lambda>r s. Ret (RelTree ID ns (acc + r), T) s))"
| "trnmnt_tree_release lock unlock (RelTree ID [] acc) T s = Ret (if acc \<noteq> 0 then RelFailed else RelEnd ID, T) s"
| "trnmnt_tree_release lock unlock (RelEnd ID) T s = rbind (lock (tlock T) s) (\<lambda>_ s. Ret (RelTail ID, T) s)"
| "trnmnt_tree_release lock unlock (RelTail ID) T s =
     (let T = T\<lparr>taken_ids := (taken_ids T)[nat ID := 0], num_of_locked := num_of_locked T - 1\<rparr>
      in rbind (unlock (tlock T) s) (\<lambda>_ s. Ret (Idle, T) s))"
| "trnmnt_tree_release lock unlock pc T s = Ret (pc, T) s"

subsection \<open>Threads using a tree\<close>

text \<open>
  The state of the system calls, the tree, and where each thread is. Threads call \<^verbatim>\<open>trnmnt_tree_acquire\<close> with ids of
  their choice, and \<^verbatim>\<open>trnmnt_tree_release\<close> with the id they are inside with.
\<close>

record 's tsys =
  sys :: 's
  tree :: trnmnt_tree
  at_pc :: "nat \<Rightarrow> upc"

inductive trn_run ::
    "(nat \<Rightarrow> int \<Rightarrow> (int, 's) call) \<Rightarrow> (nat \<Rightarrow> int \<Rightarrow> (int, 's) call) \<Rightarrow> nat \<Rightarrow> 's tsys \<Rightarrow> 's tsys \<Rightarrow> bool"
  for lock unlock N S0 where
  trn_start: "trn_run lock unlock N S0 S0"
| trn_acquire: "trn_run lock unlock N S0 S \<Longrightarrow> j < N \<Longrightarrow> at_pc S j = Idle \<or> at_pc S j = Refused \<Longrightarrow> 0 \<le> ID \<Longrightarrow>
    trn_run lock unlock N S0 (S\<lparr>at_pc := (at_pc S)(j := acquire_entry (Some (tree S)) ID)\<rparr>)"
| trn_release: "trn_run lock unlock N S0 S \<Longrightarrow> j < N \<Longrightarrow> at_pc S j = Inside ID \<Longrightarrow>
    trn_run lock unlock N S0 (S\<lparr>at_pc := (at_pc S)(j := release_entry (Some (tree S)) ID)\<rparr>)"
| trn_acquire_step: "trn_run lock unlock N S0 S \<Longrightarrow> j < N \<Longrightarrow>
    trnmnt_tree_acquire (lock j) (unlock j) (at_pc S j) (tree S) (sys S) = Ret (pc, T) s \<Longrightarrow>
    trn_run lock unlock N S0 (S\<lparr>at_pc := (at_pc S)(j := pc), tree := T, sys := s\<rparr>)"
| trn_release_step: "trn_run lock unlock N S0 S \<Longrightarrow> j < N \<Longrightarrow>
    trnmnt_tree_release (lock j) (unlock j) (at_pc S j) (tree S) (sys S) = Ret (pc, T) s \<Longrightarrow>
    trn_run lock unlock N S0 (S\<lparr>at_pc := (at_pc S)(j := pc), tree := T, sys := s\<rparr>)"

subsection \<open>The way up the tree\<close>

fun up :: "nat \<Rightarrow> nat list" where
  "up n = (if n = 0 then [] else (n - 1) div 2 # up ((n - 1) div 2))"

declare up.simps [simp del]

lemma up_rec: "n \<noteq> 0 \<Longrightarrow> up n = (n - 1) div 2 # up ((n - 1) div 2)" "up 0 = []"
  by (simp_all add: up.simps [of n] up.simps [of 0])

lemma release_lock_up: "release_lock n = rev (n # up n)"
proof (induction n rule: less_induct)
  case (less n)
  then show ?case by (cases "n = 0") (simp_all add: up_rec release_lock.simps [of n] release_lock.simps [of 0])
qed

lemma up_less: "m \<in> set (up n) \<Longrightarrow> m < n"
proof (induction n rule: less_induct)
  case (less n)
  show ?case
  proof (cases "n = 0")
    case False
    then have "(n - 1) div 2 < n" by simp
    then show ?thesis using less.IH [of "(n - 1) div 2"] less.prems False by (auto simp: up_rec)
  qed (use less.prems in \<open>simp add: up_rec\<close>)
qed

lemma up_distinct: "distinct (up n)"
proof (induction n rule: less_induct)
  case (less n)
  then show ?case by (cases "n = 0") (auto simp: up_rec dest: up_less)
qed

lemma up_sorted: "sorted_wrt (>) (up n)"
proof (induction n rule: less_induct)
  case (less n)
  then show ?case by (cases "n = 0") (auto simp: up_rec dest: up_less)
qed

lemma up_root: "n \<noteq> 0 \<Longrightarrow> 0 \<in> set (up n)"
proof (induction n rule: less_induct)
  case (less n)
  then show ?case by (cases "(n - 1) div 2 = 0") (auto simp: up_rec(1) [of n])
qed

lemma up_length: "2 ^ d \<le> Suc n \<Longrightarrow> Suc n < 2 ^ Suc d \<Longrightarrow> length (up n) = d"
proof (induction d arbitrary: n)
  case 0
  then show ?case by (simp add: up_rec)
next
  case (Suc d)
  have "(1 :: nat) \<le> 2 ^ d" by simp
  then have "n \<noteq> 0" using Suc.prems(1) unfolding power_Suc by linarith
  moreover have "length (up ((n - 1) div 2)) = d"
    using Suc.prems \<open>n \<noteq> 0\<close> by (intro Suc.IH) auto
  ultimately show ?case by (simp add: up_rec)
qed

lemma up_nth: "i < length (up n) \<Longrightarrow> (n # up n) ! i \<noteq> 0 \<and> up n ! i = ((n # up n) ! i - 1) div 2"
proof (induction n arbitrary: i rule: less_induct)
  case (less n)
  then have n: "n \<noteq> 0" by (metis up_rec(2) list.size(3) not_less0)
  then have "(n - 1) div 2 < n" by simp
  then show ?case using less.IH [of "(n - 1) div 2" "i - 1"] less.prems n by (cases i) (auto simp: up_rec(1) [of n])
qed

text \<open>The leaf of an id in a tree of depth \<open>d\<close>, the nodes that a thread has locked and the id that it uses.\<close>

definition leafn :: "nat \<Rightarrow> int \<Rightarrow> nat" where
  "leafn d ID = 2 ^ d - 1 + nat ID"

fun holds :: "nat \<Rightarrow> upc \<Rightarrow> nat set" where
  "holds d (AcqClimb ID par i) = set (take (nat i) (up (leafn d ID)))"
| "holds d (Inside ID) = set (up (leafn d ID))"
| "holds d (RelEnter ID) = set (up (leafn d ID))"
| "holds d (RelBody ID) = set (up (leafn d ID))"
| "holds d (RelTree ID ns acc) = set ns"
| "holds d pc = {}"

fun in_lock :: "upc \<Rightarrow> bool" where
  "in_lock (AcqBody ID) \<longleftrightarrow> True"
| "in_lock (RelBody ID) \<longleftrightarrow> True"
| "in_lock (RelTail ID) \<longleftrightarrow> True"
| "in_lock pc \<longleftrightarrow> False"

fun uses_id :: "upc \<Rightarrow> int option" where
  "uses_id (AcqClimb ID par i) = Some ID"
| "uses_id (Inside ID) = Some ID"
| "uses_id (RelEnter ID) = Some ID"
| "uses_id (RelBody ID) = Some ID"
| "uses_id (RelTree ID ns acc) = Some ID"
| "uses_id (RelEnd ID) = Some ID"
| "uses_id (RelTail ID) = Some ID"
| "uses_id pc = None"

definition id_ok :: "nat \<Rightarrow> int \<Rightarrow> bool" where
  "id_ok d ID \<longleftrightarrow> 0 \<le> ID \<and> ID < 2 ^ d"

fun pc_ok :: "nat \<Rightarrow> upc \<Rightarrow> bool" where
  "pc_ok d (AcqEnter ID) \<longleftrightarrow> id_ok d ID"
| "pc_ok d (AcqBody ID) \<longleftrightarrow> id_ok d ID"
| "pc_ok d (AcqClimb ID par i) \<longleftrightarrow> id_ok d ID \<and> 0 \<le> i \<and> i \<le> int d \<and> par = int ((leafn d ID # up (leafn d ID)) ! nat i)"
| "pc_ok d (RelTree ID ns acc) \<longleftrightarrow> id_ok d ID \<and> acc = 0 \<and> (\<exists>m. ns = drop m (rev (up (leafn d ID))))"
| "pc_ok d RelFailed \<longleftrightarrow> False"
| "pc_ok d Wild \<longleftrightarrow> False"
| "pc_ok d Idle \<longleftrightarrow> True"
| "pc_ok d Refused \<longleftrightarrow> True"
| "pc_ok d pc \<longleftrightarrow> id_ok d (the (uses_id pc))"

lemma id_ok_nat: "id_ok d ID \<longleftrightarrow> 0 \<le> ID \<and> nat ID < 2 ^ d"
  by (auto simp: id_ok_def nat_less_iff)

lemma leafn_up:
  assumes "id_ok d ID"
  shows "length (up (leafn d ID)) = d" "leafn d ID < 2 ^ Suc d - 1" "m \<in> set (up (leafn d ID)) \<Longrightarrow> m < 2 ^ Suc d - 1"
proof -
  have "(1 :: nat) \<le> 2 ^ d" by simp
  then have *: "Suc (leafn d ID) = 2 ^ d + nat ID" by (simp add: leafn_def)
  then show "length (up (leafn d ID)) = d" using assms by (intro up_length) (auto simp: id_ok_nat)
  show l: "leafn d ID < 2 ^ Suc d - 1" using * assms unfolding id_ok_nat power_Suc by linarith
  show "m \<in> set (up (leafn d ID)) \<Longrightarrow> m < 2 ^ Suc d - 1" using up_less l less_trans by blast
qed

subsection \<open>What is invariant\<close>

text \<open>
  The shape of a tree; who owns its mutexes, as told by where the threads are; and the ids that are taken: those
  that threads use, each by one thread only.
\<close>

definition tree_ok :: "nat \<Rightarrow> trnmnt_tree \<Rightarrow> bool" where
  "tree_ok d T \<longleftrightarrow> 1 \<le> d \<and> tdepth T = int d \<and> tthreads T = 2 ^ d \<and> total_nodes T = 2 ^ Suc d - 1 \<and>
     length (taken_ids T) = 2 ^ d \<and> length (tnodes T) = 2 ^ Suc d - 1 \<and> distinct (tlock T # tnodes T)"

definition mut_inv :: "(int \<Rightarrow> nat option) \<Rightarrow> nat \<Rightarrow> nat \<Rightarrow> trnmnt_tree \<Rightarrow> (nat \<Rightarrow> upc) \<Rightarrow> bool" where
  "mut_inv own d N T ws \<longleftrightarrow>
     (\<forall>n<length (tnodes T). \<forall>j. own (tnodes T ! n) = Some j \<longleftrightarrow> j < N \<and> n \<in> holds d (ws j)) \<and>
     (\<forall>j. own (tlock T) = Some j \<longleftrightarrow> j < N \<and> in_lock (ws j))"

definition id_inv :: "nat \<Rightarrow> nat \<Rightarrow> trnmnt_tree \<Rightarrow> (nat \<Rightarrow> upc) \<Rightarrow> bool" where
  "id_inv d N T ws \<longleftrightarrow>
     (\<forall>ID. id_ok d ID \<longrightarrow> taken_ids T ! nat ID = (if \<exists>j<N. uses_id (ws j) = Some ID then 1 else 0)) \<and>
     (\<forall>j<N. \<forall>j'<N. uses_id (ws j) \<noteq> None \<longrightarrow> uses_id (ws j) = uses_id (ws j') \<longrightarrow> j = j') \<and>
     num_of_locked T = int (card {j. j < N \<and> uses_id (ws j) \<noteq> None})"

lemma elem_at_int [simp]: "n < length a \<Longrightarrow> elem_at a (int n) = Some (a ! n)"
  by (simp add: elem_at_def)

lemma half_int: "n \<noteq> 0 \<Longrightarrow> half (int n - 1) = int ((n - 1) div 2)"
  by (cases n) (simp_all add: half_def)

lemma tree_elem:
  assumes "tree_ok d T" "id_ok d ID"
  shows "elem_at (taken_ids T) ID = Some (taken_ids T ! nat ID)" "leaf T ID = int (leafn d ID)"
    "m \<in> set (up (leafn d ID)) \<Longrightarrow> m < length (tnodes T)" "leafn d ID \<noteq> 0" "length (up (leafn d ID)) = d"
proof -
  show "elem_at (taken_ids T) ID = Some (taken_ids T ! nat ID)"
    using assms by (auto simp: elem_at_def tree_ok_def id_ok_nat simp flip: nat_less_iff)
  have "int (2 ^ d - 1) = 2 ^ d - 1" by (simp add: of_nat_diff)
  then have "int (leafn d ID) = 2 ^ d - 1 + ID" using assms(2) unfolding leafn_def of_nat_add by (simp add: id_ok_def)
  then show "leaf T ID = int (leafn d ID)" using assms(1) by (simp add: leaf_def tree_ok_def)
  show "m \<in> set (up (leafn d ID)) \<Longrightarrow> m < length (tnodes T)" using leafn_up(3) [OF assms(2)] assms(1) by (simp add: tree_ok_def)
  have "(2 :: nat) \<le> 2 ^ d" using assms(1) by (cases d) (auto simp: tree_ok_def)
  then show "leafn d ID \<noteq> 0" by (simp add: leafn_def)
  show "length (up (leafn d ID)) = d" by (rule leafn_up(1) [OF assms(2)])
qed

lemma tree_node_eq:
  assumes "tree_ok d T" "n < length (tnodes T)"
  shows "tnodes T ! n \<noteq> tlock T" "m < length (tnodes T) \<Longrightarrow> tnodes T ! m = tnodes T ! n \<longleftrightarrow> m = n"
proof -
  show "tnodes T ! n \<noteq> tlock T" using assms nth_mem [OF assms(2)] unfolding tree_ok_def by (metis distinct.simps(2))
  show "m < length (tnodes T) \<Longrightarrow> tnodes T ! m = tnodes T ! n \<longleftrightarrow> m = n"
    using assms unfolding tree_ok_def by (metis distinct.simps(2) nth_eq_iff_index_eq)
qed

lemma mut_same:
  "mut_inv own d N T ws \<Longrightarrow> holds d pc = holds d (ws j) \<Longrightarrow> in_lock pc = in_lock (ws j) \<Longrightarrow> mut_inv own d N T (ws(j := pc))"
  unfolding mut_inv_def by simp

lemma mut_tree: "tnodes T' = tnodes T \<Longrightarrow> tlock T' = tlock T \<Longrightarrow> mut_inv own d N T' ws = mut_inv own d N T ws"
  by (simp add: mut_inv_def)

lemma mut_lock_tree:
  assumes m: "mut_inv own d N T ws" "own (tlock T) = None" and t: "tree_ok d T" "j < N"
    and pc: "holds d pc = holds d (ws j)" "in_lock pc"
  shows "mut_inv (own(tlock T := Some j)) d N T (ws(j := pc))"
proof -
  note tree_node_eq(1) [OF t(1)]
  moreover have "\<not> (i < N \<and> in_lock (ws i))" for i using m by (simp add: mut_inv_def)
  ultimately show ?thesis using m(1) pc t(2) unfolding mut_inv_def by auto
qed

lemma mut_unlock_tree:
  assumes m: "mut_inv own d N T ws" and t: "tree_ok d T" "j < N" "in_lock (ws j)"
    and pc: "holds d pc = holds d (ws j)" "\<not> in_lock pc"
  shows "mut_inv (own(tlock T := None)) d N T (ws(j := pc))"
proof -
  note tree_node_eq(1) [OF t(1)]
  moreover have "own (tlock T) = Some j" using m t by (simp add: mut_inv_def)
  then have "i = j" if "i < N" "in_lock (ws i)" for i using m that by (auto simp: mut_inv_def)
  ultimately show ?thesis using m pc t(2) unfolding mut_inv_def by auto
qed

lemma mut_node: "mut_inv own d N T ws \<Longrightarrow> n < length (tnodes T) \<Longrightarrow> own (tnodes T ! n) = Some j \<longleftrightarrow> j < N \<and> n \<in> holds d (ws j)"
  unfolding mut_inv_def by blast

lemma mut_lock_node:
  assumes m: "mut_inv own d N T ws" "own (tnodes T ! n) = None" and t: "tree_ok d T" "j < N" "n < length (tnodes T)"
    and pc: "holds d pc = insert n (holds d (ws j))" "in_lock pc = in_lock (ws j)"
  shows "mut_inv (own(tnodes T ! n := Some j)) d N T (ws(j := pc))"
proof -
  have "\<not> (i < N \<and> n \<in> holds d (ws i))" for i using m t(3) unfolding mut_inv_def by (metis option.distinct(1))
  then have "(own(tnodes T ! n := Some j)) (tnodes T ! k) = Some i \<longleftrightarrow> i < N \<and> k \<in> holds d ((ws(j := pc)) i)"
    if "k < length (tnodes T)" for k i
    using m(1) pc(1) t(2) tree_node_eq(2) [OF t(1,3) that] that unfolding mut_inv_def by (cases "k = n") auto
  then show ?thesis
    using m(1) pc(2) tree_node_eq(1) [OF t(1,3)] unfolding mut_inv_def by simp
qed

lemma mut_unlock_node:
  assumes m: "mut_inv own d N T ws" and t: "tree_ok d T" "j < N" "n < length (tnodes T)"
    and pc: "holds d (ws j) = insert n (holds d pc)" "n \<notin> holds d pc" "in_lock pc = in_lock (ws j)"
  shows "own (tnodes T ! n) = Some j" "mut_inv (own(tnodes T ! n := None)) d N T (ws(j := pc))"
proof -
  show own: "own (tnodes T ! n) = Some j" using m t pc(1) by (simp add: mut_inv_def)
  then have only: "i = j" if "i < N" "n \<in> holds d (ws i)" for i using mut_node [OF m t(3), of i] that by simp
  have "(own(tnodes T ! n := None)) (tnodes T ! k) = Some i \<longleftrightarrow> i < N \<and> k \<in> holds d ((ws(j := pc)) i)"
    if k: "k < length (tnodes T)" for k i
  proof (cases "k = n")
    case True
    then show ?thesis using only [of i] pc(2) by auto
  next
    case False
    then show ?thesis using mut_node [OF m k, of i] tree_node_eq(2) [OF t(1,3) k] pc(1) by auto
  qed
  then show "mut_inv (own(tnodes T ! n := None)) d N T (ws(j := pc))"
    using m pc(3) tree_node_eq(1) [OF t(1,3)] unfolding mut_inv_def by simp
qed

lemma id_same:
  assumes "id_inv d N T ws" "uses_id pc = uses_id (ws j)"
  shows "id_inv d N T (ws(j := pc))"
proof -
  have *: "uses_id ((ws(j := pc)) i) = uses_id (ws i)" for i using assms(2) by simp
  show ?thesis using assms(1) unfolding id_inv_def * .
qed

lemma id_unique: "id_inv d N T ws \<Longrightarrow> k < N \<Longrightarrow> i < N \<Longrightarrow> uses_id (ws k) = Some x \<Longrightarrow> uses_id (ws i) = Some x \<Longrightarrow> k = i"
  unfolding id_inv_def by (metis option.distinct(1))

lemma id_taken:
  assumes "id_inv d N T ws" "id_ok d ID"
  shows "taken_ids T ! nat ID = (if \<exists>j<N. uses_id (ws j) = Some ID then 1 else 0)"
  using assms unfolding id_inv_def by blast

lemma id_count: "id_inv d N T ws \<Longrightarrow> num_of_locked T = int (card {j. j < N \<and> uses_id (ws j) \<noteq> None})"
  unfolding id_inv_def by blast

lemma id_invI:
  assumes "\<And>ID. id_ok d ID \<Longrightarrow> taken_ids T ! nat ID = (if \<exists>j<N. uses_id (ws j) = Some ID then 1 else 0)"
    "\<And>k l. k < N \<Longrightarrow> l < N \<Longrightarrow> uses_id (ws k) \<noteq> None \<Longrightarrow> uses_id (ws k) = uses_id (ws l) \<Longrightarrow> k = l"
    "num_of_locked T = int (card {j. j < N \<and> uses_id (ws j) \<noteq> None})"
  shows "id_inv d N T ws"
  unfolding id_inv_def using assms by blast

lemma id_take:
  assumes i: "id_inv d N T ws" and t: "tree_ok d T" "j < N" "id_ok d ID" "taken_ids T ! nat ID = 0"
    and pc: "uses_id (ws j) = None" "uses_id pc = Some ID"
  shows "id_inv d N (T\<lparr>taken_ids := (taken_ids T)[nat ID := 1], num_of_locked := num_of_locked T + 1\<rparr>) (ws(j := pc))"
proof -
  have new: "uses_id (ws i) \<noteq> Some ID" if "i < N" for i using id_taken [OF i t(3)] t(4) that by (auto split: if_splits)
  have l: "nat ID < length (taken_ids T)" using t(1,3) by (simp add: tree_ok_def id_ok_nat)
  have a: "(taken_ids T)[nat ID := 1] ! nat k = (if \<exists>i<N. uses_id ((ws(j := pc)) i) = Some k then 1 else 0)" if k: "id_ok d k" for k
  proof (cases "k = ID")
    case True
    then show ?thesis using l t(2) pc(2) by auto
  next
    case False
    then have "nat ID \<noteq> nat k" using k t(3) by (auto simp: id_ok_def)
    then have "(taken_ids T)[nat ID := 1] ! nat k = taken_ids T ! nat k" by simp
    moreover have "(\<exists>i<N. uses_id ((ws(j := pc)) i) = Some k) \<longleftrightarrow> (\<exists>i<N. uses_id (ws i) = Some k)"
      using False pc by (metis fun_upd_apply option.distinct(1) option.inject)
    ultimately show ?thesis using id_taken [OF i k] by (simp only:)
  qed
  have "{i. i < N \<and> uses_id ((ws(j := pc)) i) \<noteq> None} = insert j {i. i < N \<and> uses_id (ws i) \<noteq> None}"
    using t(2) pc by auto
  then have c: "card {i. i < N \<and> uses_id ((ws(j := pc)) i) \<noteq> None} = Suc (card {i. i < N \<and> uses_id (ws i) \<noteq> None})"
    using pc(1) by simp
  have u: "k = l" if l: "k < N" "l < N" "uses_id ((ws(j := pc)) k) \<noteq> None" "uses_id ((ws(j := pc)) k) = uses_id ((ws(j := pc)) l)" for k l
  proof -
    obtain x where x: "uses_id ((ws(j := pc)) k) = Some x" "uses_id ((ws(j := pc)) l) = Some x" using l by auto
    then show ?thesis using id_unique [OF i l(1,2), of x] new [OF l(1)] new [OF l(2)] pc(2) by (cases "k = j"; cases "l = j") simp_all
  qed
  show ?thesis by (rule id_invI) (use a in simp, rule u, assumption+, use c id_count [OF i] in \<open>simp del: not_None_eq fun_upd_apply\<close>)
qed

lemma id_drop:
  assumes i: "id_inv d N T ws" and t: "tree_ok d T" "j < N" "id_ok d ID"
    and pc: "uses_id (ws j) = Some ID" "uses_id pc = None"
  shows "id_inv d N (T\<lparr>taken_ids := (taken_ids T)[nat ID := 0], num_of_locked := num_of_locked T - 1\<rparr>) (ws(j := pc))"
proof -
  have only: "i = j" if "i < N" "uses_id (ws i) = Some ID" for i using id_unique [OF i that(1) t(2) that(2) pc(1)] .
  have l: "nat ID < length (taken_ids T)" using t(1,3) by (simp add: tree_ok_def id_ok_nat)
  have a: "(taken_ids T)[nat ID := 0] ! nat k = (if \<exists>i<N. uses_id ((ws(j := pc)) i) = Some k then 1 else 0)" if k: "id_ok d k" for k
  proof (cases "k = ID")
    case True
    have "\<not> (\<exists>i<N. uses_id ((ws(j := pc)) i) = Some ID)" using only pc(2) by auto
    then show ?thesis using True l by simp
  next
    case False
    then have "nat ID \<noteq> nat k" using k t(3) by (auto simp: id_ok_def)
    then have "(taken_ids T)[nat ID := 0] ! nat k = taken_ids T ! nat k" by simp
    moreover have "(\<exists>i<N. uses_id ((ws(j := pc)) i) = Some k) \<longleftrightarrow> (\<exists>i<N. uses_id (ws i) = Some k)"
      using False pc by (metis fun_upd_apply option.distinct(1) option.inject)
    ultimately show ?thesis using id_taken [OF i k] by (simp only:)
  qed
  have "{i. i < N \<and> uses_id (ws i) \<noteq> None} = insert j {i. i < N \<and> uses_id ((ws(j := pc)) i) \<noteq> None}"
    using t(2) pc by auto
  then have c: "card {i. i < N \<and> uses_id (ws i) \<noteq> None} = Suc (card {i. i < N \<and> uses_id ((ws(j := pc)) i) \<noteq> None})"
    using pc(2) by simp
  have u: "k = l" if l: "k < N" "l < N" "uses_id ((ws(j := pc)) k) \<noteq> None" "uses_id ((ws(j := pc)) k) = uses_id ((ws(j := pc)) l)" for k l
  proof -
    obtain x where x: "uses_id ((ws(j := pc)) k) = Some x" "uses_id ((ws(j := pc)) l) = Some x" using l by auto
    then show ?thesis using id_unique [OF i l(1,2), of x] pc(2) by (cases "k = j"; cases "l = j") simp_all
  qed
  show ?thesis by (rule id_invI) (use a in simp, rule u, assumption+, use c id_count [OF i] in \<open>simp del: not_None_eq fun_upd_apply\<close>)
qed

definition trn_inv :: "('s \<Rightarrow> int \<Rightarrow> nat option) \<Rightarrow> ('s \<Rightarrow> int \<Rightarrow> bool) \<Rightarrow> ('s \<Rightarrow> bool) \<Rightarrow> nat \<Rightarrow> nat \<Rightarrow> 's tsys \<Rightarrow> bool" where
  "trn_inv owner live good d N S \<longleftrightarrow> good (sys S) \<and> tree_ok d (tree S) \<and> (\<forall>k\<in>set (tlock (tree S) # tnodes (tree S)). live (sys S) k) \<and>
     (\<forall>j<N. pc_ok d (at_pc S j)) \<and> mut_inv (owner (sys S)) d N (tree S) (at_pc S) \<and> id_inv d N (tree S) (at_pc S)"

definition moves :: "(nat \<Rightarrow> int \<Rightarrow> (int, 's) call) \<Rightarrow> (nat \<Rightarrow> int \<Rightarrow> (int, 's) call) \<Rightarrow> 's tsys \<Rightarrow> nat \<Rightarrow> bool" where
  "moves lock unlock S j \<longleftrightarrow> (\<exists>pc T s. pc \<noteq> at_pc S j \<and>
     (trnmnt_tree_acquire (lock j) (unlock j) (at_pc S j) (tree S) (sys S) = Ret (pc, T) s \<or>
      trnmnt_tree_release (lock j) (unlock j) (at_pc S j) (tree S) (sys S) = Ret (pc, T) s))"

lemma moves_acq: "trnmnt_tree_acquire (lock j) (unlock j) (at_pc S j) (tree S) (sys S) = Ret (pc, T) s \<Longrightarrow> pc \<noteq> at_pc S j \<Longrightarrow> moves lock unlock S j"
  and moves_rel: "trnmnt_tree_release (lock j) (unlock j) (at_pc S j) (tree S) (sys S) = Ret (pc, T) s \<Longrightarrow> pc \<noteq> at_pc S j \<Longrightarrow> moves lock unlock S j"
  by (auto simp only: moves_def)

lemma nat_pred_power: "nat (2 ^ k - 1) = 2 ^ k - (1 :: nat)"
  by (simp add: nat_diff_distrib nat_power_eq)

lemma ret_step:
  assumes "rbind m (\<lambda>_ s. Ret (q, T) s) = Ret (pc, T') s'"
  obtains v where "m = Ret v s'" "pc = q" "T' = T"
  using assms by (cases m) auto

text \<open>
  The contract of the kernel's mutexes as the tree uses them: a thread gets a mutex that nobody owns, does not return from the
  call while another thread owns it, and its owner can unlock it; nobody else's mutex is touched.
\<close>

locale mutexes =
  fixes lock unlock :: "nat \<Rightarrow> int \<Rightarrow> ('s \<Rightarrow> (int, 's) res)"
    and owner :: "'s \<Rightarrow> int \<Rightarrow> nat option" and live :: "'s \<Rightarrow> int \<Rightarrow> bool" and good :: "'s \<Rightarrow> bool" and N :: nat
  assumes lock_free: "good s \<Longrightarrow> live s k \<Longrightarrow> j < N \<Longrightarrow> owner s k = None \<Longrightarrow>
      \<exists>s'. lock j k s = Ret 0 s' \<and> good s' \<and> live s' = live s \<and> owner s' = (owner s)(k := Some j)"
    and lock_busy: "good s \<Longrightarrow> live s k \<Longrightarrow> j < N \<Longrightarrow> owner s k = Some i \<Longrightarrow> i \<noteq> j \<Longrightarrow> lock j k s \<noteq> Ret v s'"
    and unlock_own: "good s \<Longrightarrow> live s k \<Longrightarrow> j < N \<Longrightarrow> owner s k = Some j \<Longrightarrow>
      \<exists>s'. unlock j k s = Ret 0 s' \<and> good s' \<and> live s' = live s \<and> owner s' = (owner s)(k := None)"
begin

lemma lock_got:
  assumes "good s" "live s k" "j < N" "owner s k \<noteq> Some j" "lock j k s = Ret v s'"
  shows "v = 0" "owner s k = None" "good s'" "live s' = live s" "owner s' = (owner s)(k := Some j)"
proof -
  show n: "owner s k = None" using lock_busy [OF assms(1-3), of _ v s'] assms(4,5) by (cases "owner s k") auto
  show "v = 0" "good s'" "live s' = live s" "owner s' = (owner s)(k := Some j)"
    using lock_free [OF assms(1-3) n] assms(5) by auto
qed

lemma unlock_done:
  assumes "good s" "live s k" "j < N" "owner s k = Some j" "unlock j k s = Ret v s'"
  shows "v = 0" "good s'" "live s' = live s" "owner s' = (owner s)(k := None)"
  using unlock_own [OF assms(1-4)] assms(5) by auto

lemma inv_keep:
  assumes inv: "trn_inv owner live good d N S" and pc: "pc_ok d pc" "holds d pc = holds d (at_pc S j)" "in_lock pc = in_lock (at_pc S j)"
    "uses_id pc = uses_id (at_pc S j)"
  shows "trn_inv owner live good d N (S\<lparr>at_pc := (at_pc S)(j := pc)\<rparr>)"
  using inv pc(1) mut_same [of "owner (sys S)" d N "tree S" "at_pc S", OF _ pc(2,3)] id_same [of d N "tree S" "at_pc S", OF _ pc(4)] by (simp add: trn_inv_def)

lemma inv_lock_tree:
  assumes inv: "trn_inv owner live good d N S" and j: "j < N" and l: "lock j (tlock (tree S)) (sys S) = Ret v s"
    and pc: "\<not> in_lock (at_pc S j)" "in_lock pc" "pc_ok d pc" "holds d pc = holds d (at_pc S j)" "uses_id pc = uses_id (at_pc S j)"
  shows "trn_inv owner live good d N (S\<lparr>at_pc := (at_pc S)(j := pc), sys := s\<rparr>)"
proof -
  have I: "good (sys S)" "live (sys S) (tlock (tree S))" "mut_inv (owner (sys S)) d N (tree S) (at_pc S)" "tree_ok d (tree S)"
    using inv by (auto simp: trn_inv_def)
  have "owner (sys S) (tlock (tree S)) \<noteq> Some j" using I(3) pc(1) by (auto simp: mut_inv_def)
  note g = lock_got [OF I(1,2) j this l]
  have "mut_inv (owner s) d N (tree S) ((at_pc S)(j := pc))" using mut_lock_tree [OF I(3) g(2) I(4) j pc(4,2)] g(5) by simp
  then show ?thesis using inv pc(3) g(3,4) id_same [of d N "tree S" "at_pc S", OF _ pc(5)] by (simp add: trn_inv_def)
qed

lemma inv_unlock_tree:
  assumes inv: "trn_inv owner live good d N S" and j: "j < N" and u: "unlock j (tlock (tree S)) (sys S) = Ret v s"
    and pc: "in_lock (at_pc S j)" "\<not> in_lock pc" "pc_ok d pc" "holds d pc = holds d (at_pc S j)"
    and T: "tree_ok d T" "tlock T = tlock (tree S)" "tnodes T = tnodes (tree S)" "id_inv d N T ((at_pc S)(j := pc))"
  shows "trn_inv owner live good d N (S\<lparr>at_pc := (at_pc S)(j := pc), tree := T, sys := s\<rparr>)"
proof -
  have I: "good (sys S)" "live (sys S) (tlock (tree S))" "mut_inv (owner (sys S)) d N (tree S) (at_pc S)" "tree_ok d (tree S)"
    using inv by (auto simp: trn_inv_def)
  have "owner (sys S) (tlock (tree S)) = Some j" using I(3) pc(1) j by (auto simp: mut_inv_def)
  note g = unlock_done [OF I(1,2) j this u]
  have "mut_inv (owner s) d N (tree S) ((at_pc S)(j := pc))" using mut_unlock_tree [OF I(3,4) j pc(1,4,2)] g(4) by simp
  then have "mut_inv (owner s) d N T ((at_pc S)(j := pc))" using mut_tree [OF T(3,2)] by simp
  then show ?thesis using inv pc(3) g(2,3) T by (simp add: trn_inv_def)
qed

lemma inv_lock_node:
  assumes inv: "trn_inv owner live good d N S" and j: "j < N" and n: "n < length (tnodes (tree S))"
    and l: "lock j (tnodes (tree S) ! n) (sys S) = Ret v s" and new: "n \<notin> holds d (at_pc S j)"
    and pc: "holds d pc = insert n (holds d (at_pc S j))" "in_lock pc = in_lock (at_pc S j)" "pc_ok d pc" "uses_id pc = uses_id (at_pc S j)"
  shows "v = 0" "trn_inv owner live good d N (S\<lparr>at_pc := (at_pc S)(j := pc), sys := s\<rparr>)"
proof -
  have I: "good (sys S)" "live (sys S) (tnodes (tree S) ! n)" "mut_inv (owner (sys S)) d N (tree S) (at_pc S)" "tree_ok d (tree S)"
    using inv n by (auto simp: trn_inv_def)
  have "owner (sys S) (tnodes (tree S) ! n) \<noteq> Some j" using mut_node [OF I(3) n] new by simp
  note g = lock_got [OF I(1,2) j this l]
  show "v = 0" by (rule g(1))
  have "mut_inv (owner s) d N (tree S) ((at_pc S)(j := pc))" using mut_lock_node [OF I(3) g(2) I(4) j n pc(1,2)] g(5) by simp
  then show "trn_inv owner live good d N (S\<lparr>at_pc := (at_pc S)(j := pc), sys := s\<rparr>)"
    using inv pc(3) g(3,4) id_same [of d N "tree S" "at_pc S", OF _ pc(4)] by (simp add: trn_inv_def)
qed

lemma inv_unlock_node:
  assumes inv: "trn_inv owner live good d N S" and j: "j < N" and n: "n < length (tnodes (tree S))"
    and u: "unlock j (tnodes (tree S) ! n) (sys S) = Ret v s" 
    and pc: "holds d (at_pc S j) = insert n (holds d pc)" "n \<notin> holds d pc" "in_lock pc = in_lock (at_pc S j)"
      "v = 0 \<Longrightarrow> pc_ok d pc" "uses_id pc = uses_id (at_pc S j)"
  shows "v = 0" "trn_inv owner live good d N (S\<lparr>at_pc := (at_pc S)(j := pc), sys := s\<rparr>)"
proof -
  have I: "good (sys S)" "live (sys S) (tnodes (tree S) ! n)" "mut_inv (owner (sys S)) d N (tree S) (at_pc S)" "tree_ok d (tree S)"
    using inv n by (auto simp: trn_inv_def)
  note m = mut_unlock_node [OF I(3,4) j n pc(1-3)]
  note g = unlock_done [OF I(1,2) j m(1) u]
  show "v = 0" by (rule g(1))
  show "trn_inv owner live good d N (S\<lparr>at_pc := (at_pc S)(j := pc), sys := s\<rparr>)"
    using inv pc(4) g m(2) id_same [of d N "tree S" "at_pc S", OF _ pc(5)] by (simp add: trn_inv_def)
qed

lemma inv_parts:
  assumes "trn_inv owner live good d N S" "j < N"
  shows "tree_ok d (tree S)" "pc_ok d (at_pc S j)" "id_inv d N (tree S) (at_pc S)"
  using assms by (simp_all add: trn_inv_def)

lemma inv_stay:
  "trn_inv owner live good d N S \<Longrightarrow> at_pc S j = pc \<Longrightarrow> T = tree S \<Longrightarrow> s = sys S \<Longrightarrow>
    trn_inv owner live good d N (S\<lparr>at_pc := (at_pc S)(j := pc), tree := T, sys := s\<rparr>)"
  by auto

lemma acquire_body_inv:
  assumes inv: "trn_inv owner live good d N S" and j: "j < N" and w: "at_pc S j = AcqBody ID"
    and step: "trnmnt_tree_acquire (lock j) (unlock j) (AcqBody ID) (tree S) (sys S) = Ret (pc, T) s"
  shows "trn_inv owner live good d N (S\<lparr>at_pc := (at_pc S)(j := pc), tree := T, sys := s\<rparr>)"
proof -
  note I = inv_parts [OF inv j]
  have ID: "id_ok d ID" using I(2) w by simp
  note e = tree_elem [OF I(1) ID]
  show ?thesis
  proof (cases "taken_ids (tree S) ! nat ID = 0")
    case False
    then have "rbind (unlock j (tlock (tree S)) (sys S)) (\<lambda>_ s. Ret (Refused, tree S) s) = Ret (pc, T) s"
      using step e(1) by (simp del: rbind_eq_Ret)
    then obtain v where u: "unlock j (tlock (tree S)) (sys S) = Ret v s" and r: "pc = Refused" "T = tree S" by (rule ret_step)
    have "id_inv d N (tree S) ((at_pc S)(j := pc))" using id_same [OF I(3)] w r by simp
    then show ?thesis using inv_unlock_tree [OF inv j u _ _ _ _ I(1)] w r by simp
  next
    case True
    let ?T = "(tree S)\<lparr>taken_ids := (taken_ids (tree S))[nat ID := 1], num_of_locked := num_of_locked (tree S) + 1\<rparr>"
    obtain v where u: "unlock j (tlock (tree S)) (sys S) = Ret v s" and r: "pc = AcqClimb ID (leaf (tree S) ID) 0" "T = ?T"
      using step e(1) True by (auto simp: Let_def leaf_def)
    have "id_inv d N ?T ((at_pc S)(j := pc))" using id_take [OF I(3,1) j ID True, of pc] w r(1) by simp
    moreover have "tree_ok d ?T" using I(1) by (simp add: tree_ok_def)
    ultimately show ?thesis using inv_unlock_tree [OF inv j u, of pc ?T] w r ID e(2) by simp
  qed
qed

lemma acquire_climb_inv:
  assumes inv: "trn_inv owner live good d N S" and j: "j < N" and w: "at_pc S j = AcqClimb ID par i"
    and step: "trnmnt_tree_acquire (lock j) (unlock j) (AcqClimb ID par i) (tree S) (sys S) = Ret (pc, T) s"
  shows "trn_inv owner live good d N (S\<lparr>at_pc := (at_pc S)(j := pc), tree := T, sys := s\<rparr>)"
proof -
  note I = inv_parts [OF inv j]
  have p: "id_ok d ID" "0 \<le> i" "i \<le> int d" "par = int ((leafn d ID # up (leafn d ID)) ! nat i)" using I(2) w by simp_all
  note e = tree_elem [OF I(1) p(1)]
  have dep: "tdepth (tree S) = int d" using I(1) by (simp add: tree_ok_def)
  show ?thesis
  proof (cases "i < int d")
    case False
    then have "pc = Inside ID" "T = tree S" "s = sys S" "nat i = d" using step p dep by auto
    then show ?thesis using inv_keep [OF inv, of pc j] w e(5) p(1) by simp
  next
    case True
    let ?n = "up (leafn d ID) ! nat i" and ?pc = "AcqClimb ID (int (up (leafn d ID) ! nat i)) (i + 1)"
    have i: "nat i < length (up (leafn d ID))" using True p(2) e(5) by simp
    have par: "half (par - 1) = int ?n" using half_int up_nth [OF i] p(4) by simp
    have l: "?n < length (tnodes (tree S))" using e(3) i by simp
    obtain v where v: "lock j (tnodes (tree S) ! ?n) (sys S) = Ret v s" and r: "pc = (if v \<noteq> 0 then Refused else ?pc)" "T = tree S"
      using step True dep l by (auto simp: par Let_def)
    have i1: "nat (i + 1) = Suc (nat i)" using p(2) by simp
    have h: "holds d ?pc = insert ?n (holds d (at_pc S j))" using i w by (simp add: i1 take_Suc_conv_app_nth)
    have n: "?n \<notin> holds d (at_pc S j)" using up_distinct [of "leafn d ID"] i w by (auto simp: in_set_conv_nth nth_eq_iff_index_eq)
    have ok: "pc_ok d ?pc" using p True i1 by simp
    show ?thesis using inv_lock_node [OF inv j l v n h _ ok] w r by simp
  qed
qed

lemma acquire_inv:
  assumes inv: "trn_inv owner live good d N S" and j: "j < N"
    and step: "trnmnt_tree_acquire (lock j) (unlock j) (at_pc S j) (tree S) (sys S) = Ret (pc, T) s"
  shows "trn_inv owner live good d N (S\<lparr>at_pc := (at_pc S)(j := pc), tree := T, sys := s\<rparr>)"
proof (cases "at_pc S j")
  case (AcqEnter ID)
  then have "rbind (lock j (tlock (tree S)) (sys S)) (\<lambda>_ s. Ret (AcqBody ID, tree S) s) = Ret (pc, T) s" using step by (simp del: rbind_eq_Ret)
  then obtain v where l: "lock j (tlock (tree S)) (sys S) = Ret v s" and r: "pc = AcqBody ID" "T = tree S" by (rule ret_step)
  then show ?thesis using inv_lock_tree [OF inv j l, of pc] inv_parts(2) [OF inv j] AcqEnter by simp
next
  case (AcqBody ID)
  then show ?thesis using acquire_body_inv [OF inv j] step by simp
next
  case (AcqClimb ID par i)
  then show ?thesis using acquire_climb_inv [OF inv j] step by simp
qed (rule inv_stay [OF inv]; use step in auto)+

lemma release_body_inv:
  assumes inv: "trn_inv owner live good d N S" and j: "j < N" and w: "at_pc S j = RelBody ID"
    and step: "trnmnt_tree_release (lock j) (unlock j) (RelBody ID) (tree S) (sys S) = Ret (pc, T) s"
  shows "trn_inv owner live good d N (S\<lparr>at_pc := (at_pc S)(j := pc), tree := T, sys := s\<rparr>)"
proof -
  note I = inv_parts [OF inv j]
  have ID: "id_ok d ID" using I(2) w by simp
  note e = tree_elem [OF I(1) ID]
  have "taken_ids (tree S) ! nat ID = 1" using id_taken [OF I(3) ID] j w by auto
  moreover have "release_lock (nat (half (leaf (tree S) ID - 1))) = rev (up (leafn d ID))"
    using half_int [OF e(4)] up_rec(1) [OF e(4)] by (simp add: e(2) release_lock_up)
  ultimately have "rbind (unlock j (tlock (tree S)) (sys S)) (\<lambda>_ s. Ret (RelTree ID (rev (up (leafn d ID))) 0, tree S) s) = Ret (pc, T) s"
    using step e(1) by (simp del: rbind_eq_Ret)
  then obtain v where u: "unlock j (tlock (tree S)) (sys S) = Ret v s" and r: "pc = RelTree ID (rev (up (leafn d ID))) 0" "T = tree S" by (rule ret_step)
  have ok: "pc_ok d pc" using r(1) ID exI [of "\<lambda>m. rev (up (leafn d ID)) = drop m (rev (up (leafn d ID)))" 0] by simp
  have "id_inv d N (tree S) ((at_pc S)(j := pc))" using id_same [OF I(3)] w r by simp
  then show ?thesis using inv_unlock_tree [OF inv j u _ _ ok _ I(1)] w r by simp
qed

lemma release_tree_inv:
  assumes inv: "trn_inv owner live good d N S" and j: "j < N" and w: "at_pc S j = RelTree ID ns acc"
    and step: "trnmnt_tree_release (lock j) (unlock j) (RelTree ID ns acc) (tree S) (sys S) = Ret (pc, T) s"
  shows "trn_inv owner live good d N (S\<lparr>at_pc := (at_pc S)(j := pc), tree := T, sys := s\<rparr>)"
proof -
  note I = inv_parts [OF inv j]
  obtain m where p: "id_ok d ID" "acc = 0" "ns = drop m (rev (up (leafn d ID)))" using I(2) w by auto
  note e = tree_elem [OF I(1) p(1)]
  show ?thesis
  proof (cases ns)
    case Nil
    then have "pc = RelEnd ID" "T = tree S" "s = sys S" using step p(2) by auto
    then show ?thesis using inv_keep [OF inv, of pc j] w p(1) Nil by simp
  next
    case (Cons n ns')
    have "n \<in> set (up (leafn d ID))" using Cons p(3) in_set_dropD [of n m "rev (up (leafn d ID))"] by simp
    then have n: "n < length (tnodes (tree S))" by (rule e(3))
    have "distinct ns" using up_distinct [of "leafn d ID"] by (simp add: p(3))
    then have new: "n \<notin> set ns'" by (simp add: Cons)
    have "ns' = drop (Suc m) (rev (up (leafn d ID)))" using Cons p(3) by (metis drop_Suc list.sel(3) tl_drop)
    then have ok: "pc_ok d (RelTree ID ns' 0)" using p(1) by auto
    obtain v where v: "unlock j (tnodes (tree S) ! n) (sys S) = Ret v s" "pc = RelTree ID ns' v" "T = tree S"
      using step n p(2) unfolding Cons by auto
    show ?thesis using inv_unlock_node [OF inv j n v(1), of "RelTree ID ns' 0"] ok new w Cons v by simp
  qed
qed

lemma release_inv:
  assumes inv: "trn_inv owner live good d N S" and j: "j < N"
    and step: "trnmnt_tree_release (lock j) (unlock j) (at_pc S j) (tree S) (sys S) = Ret (pc, T) s"
  shows "trn_inv owner live good d N (S\<lparr>at_pc := (at_pc S)(j := pc), tree := T, sys := s\<rparr>)"
proof (cases "at_pc S j")
  case (RelEnter ID)
  then have "rbind (lock j (tlock (tree S)) (sys S)) (\<lambda>_ s. Ret (RelBody ID, tree S) s) = Ret (pc, T) s" using step by (simp del: rbind_eq_Ret)
  then obtain v where l: "lock j (tlock (tree S)) (sys S) = Ret v s" and r: "pc = RelBody ID" "T = tree S" by (rule ret_step)
  then show ?thesis using inv_lock_tree [OF inv j l, of pc] inv_parts(2) [OF inv j] RelEnter by simp
next
  case (RelBody ID)
  then show ?thesis using release_body_inv [OF inv j] step by simp
next
  case (RelTree ID ns acc)
  then show ?thesis using release_tree_inv [OF inv j] step by simp
next
  case (RelEnd ID)
  then have "rbind (lock j (tlock (tree S)) (sys S)) (\<lambda>_ s. Ret (RelTail ID, tree S) s) = Ret (pc, T) s" using step by (simp del: rbind_eq_Ret)
  then obtain v where l: "lock j (tlock (tree S)) (sys S) = Ret v s" and r: "pc = RelTail ID" "T = tree S" by (rule ret_step)
  then show ?thesis using inv_lock_tree [OF inv j l, of pc] inv_parts(2) [OF inv j] RelEnd by simp
next
  case (RelTail ID)
  let ?T = "(tree S)\<lparr>taken_ids := (taken_ids (tree S))[nat ID := 0], num_of_locked := num_of_locked (tree S) - 1\<rparr>"
  note I = inv_parts [OF inv j]
  have "rbind (unlock j (tlock (tree S)) (sys S)) (\<lambda>_ s. Ret (Idle, ?T) s) = Ret (pc, T) s" using step RelTail by (simp add: Let_def del: rbind_eq_Ret)
  then obtain v where u: "unlock j (tlock (tree S)) (sys S) = Ret v s" and r: "pc = Idle" "T = ?T" by (rule ret_step)
  have "id_inv d N ?T ((at_pc S)(j := pc))" using id_drop [OF I(3,1) j, of ID pc] I(2) RelTail r(1) by simp
  moreover have "tree_ok d ?T" using I(1) by (simp add: tree_ok_def)
  ultimately show ?thesis using inv_unlock_tree [OF inv j u, of pc ?T] RelTail r by simp
qed (rule inv_stay [OF inv]; use step in auto)+

lemma run_inv:
  assumes "trn_run lock unlock N S0 S" "trn_inv owner live good d N S0"
  shows "trn_inv owner live good d N S"
  using assms
proof (induction rule: trn_run.induct)
  case (trn_acquire S j ID)
  have t: "tree_ok d (tree S)" using trn_acquire by (simp add: trn_inv_def)
  have "pc_ok d (acquire_entry (Some (tree S)) ID)" using t trn_acquire(4) by (simp add: acquire_entry_def tree_ok_def id_ok_def)
  then show ?case using inv_keep [OF trn_acquire.IH, of "acquire_entry (Some (tree S)) ID" j] trn_acquire.prems trn_acquire(3)
    by (auto simp: acquire_entry_def split: if_splits)
next
  case (trn_release S j ID)
  note I = inv_parts [OF trn_release.IH [OF trn_release.prems] trn_release(2)]
  have "release_entry (Some (tree S)) ID = RelEnter ID" using I(1,2) trn_release(3) by (simp add: release_entry_def tree_ok_def id_ok_def)
  then show ?case using inv_keep [OF trn_release.IH, of "RelEnter ID" j] trn_release.prems trn_release(3) I(2) by simp
qed (auto intro: acquire_inv release_inv)

text \<open>Only one thread is inside, and a call never fails once it has begun to use its id.\<close>

lemma exclusion:
  assumes inv: "trn_inv owner live good d N S" and i: "i < N" "at_pc S i = Inside a" and j: "j < N" "at_pc S j = Inside b"
  shows "i = j"
proof -
  note I = inv_parts [OF inv i(1)] and J = inv_parts [OF inv j(1)]
  have "0 \<in> holds d (at_pc S i)" "0 \<in> holds d (at_pc S j)"
    using up_root tree_elem(4) [OF I(1)] I(2) J(2) i(2) j(2) by auto
  moreover have m: "mut_inv (owner (sys S)) d N (tree S) (at_pc S)" using inv by (simp add: trn_inv_def)
  have "(1 :: nat) < 2 ^ Suc d" by (rule one_less_power) simp_all
  then have z: "0 < length (tnodes (tree S))" using I(1) by (simp add: tree_ok_def)
  ultimately show ?thesis using mut_node [OF m z, of i] mut_node [OF m z, of j] i(1) j(1) by simp
qed

text \<open>A thread in the middle of a call that is not waiting for a mutex.\<close>

lemma moves_in_lock:
  assumes inv: "trn_inv owner live good d N S" and j: "j < N" "in_lock (at_pc S j)"
  shows "moves lock unlock S j"
proof -
  note I = inv_parts [OF inv j(1)]
  have "good (sys S)" "live (sys S) (tlock (tree S))" "owner (sys S) (tlock (tree S)) = Some j"
    using inv j by (auto simp: trn_inv_def mut_inv_def)
  then obtain s where "unlock j (tlock (tree S)) (sys S) = Ret 0 s" using unlock_own j(1) by blast
  then show ?thesis using j(2) I(2) tree_elem(1) [OF I(1)]
    by (cases "at_pc S j") (auto simp: moves_def Let_def)
qed

lemma moves_enter:
  assumes inv: "trn_inv owner live good d N S" and j: "j < N" and free: "\<And>i. i < N \<Longrightarrow> \<not> in_lock (at_pc S i)"
    and w: "at_pc S j = AcqEnter ID \<or> at_pc S j = RelEnter ID \<or> at_pc S j = RelEnd ID"
  shows "moves lock unlock S j"
proof -
  have "good (sys S)" "live (sys S) (tlock (tree S))" "owner (sys S) (tlock (tree S)) = None"
    using inv free unfolding trn_inv_def mut_inv_def by (simp_all, metis not_Some_eq)
  then obtain s where "lock j (tlock (tree S)) (sys S) = Ret 0 s" using lock_free j by blast
  then show ?thesis using w by (auto simp: moves_def)
qed

lemma moves_release:
  assumes inv: "trn_inv owner live good d N S" and j: "j < N" and w: "at_pc S j = RelTree ID ns acc"
  shows "moves lock unlock S j"
proof (cases ns)
  case (Cons n ns')
  note I = inv_parts [OF inv j]
  obtain m where p: "id_ok d ID" "ns = drop m (rev (up (leafn d ID)))" using I(2) w by auto
  have "n \<in> set (up (leafn d ID))" using Cons p(2) in_set_dropD [of n m "rev (up (leafn d ID))"] by simp
  then have n: "n < length (tnodes (tree S))" by (rule tree_elem(3) [OF I(1) p(1)])
  have m: "mut_inv (owner (sys S)) d N (tree S) (at_pc S)" using inv by (simp add: trn_inv_def)
  have "good (sys S)" "live (sys S) (tnodes (tree S) ! n)" "owner (sys S) (tnodes (tree S) ! n) = Some j"
    using inv n mut_node [OF m n] j w Cons by (auto simp: trn_inv_def)
  then obtain s where "unlock j (tnodes (tree S) ! n) (sys S) = Ret 0 s" using unlock_own j by blast
  then show ?thesis using w Cons n by (intro moves_rel [of lock j unlock S "RelTree ID ns' acc" "tree S" s]) simp_all
qed (use w in \<open>auto simp: moves_def\<close>)

lemma moves_climb:
  assumes inv: "trn_inv owner live good d N S" and j: "j < N" and w: "at_pc S j = AcqClimb ID par i"
    and free: "i < int d \<Longrightarrow> owner (sys S) (tnodes (tree S) ! (up (leafn d ID) ! nat i)) = None"
  shows "moves lock unlock S j"
proof -
  note I = inv_parts [OF inv j]
  have p: "id_ok d ID" "0 \<le> i" "par = int ((leafn d ID # up (leafn d ID)) ! nat i)" using I(2) w by simp_all
  have dep: "tdepth (tree S) = int d" using I(1) by (simp add: tree_ok_def)
  show ?thesis
  proof (cases "i < int d")
    case True
    let ?n = "up (leafn d ID) ! nat i"
    note e = tree_elem [OF I(1) p(1)]
    have i: "nat i < length (up (leafn d ID))" using True p(2) e(5) by simp
    have par: "half (par - 1) = int ?n" using half_int up_nth [OF i] p(3) by simp
    have l: "?n < length (tnodes (tree S))" using e(3) i by simp
    then have "good (sys S)" "live (sys S) (tnodes (tree S) ! ?n)" using inv by (auto simp: trn_inv_def)
    then obtain s where "lock j (tnodes (tree S) ! ?n) (sys S) = Ret 0 s" using lock_free [OF _ _ j free] True by blast
    then show ?thesis using w True dep l
      by (intro moves_acq [of lock j unlock S "AcqClimb ID (int ?n) (i + 1)" "tree S" s]) (simp_all add: par Let_def)
  qed (use w dep in \<open>auto simp: moves_def\<close>)
qed

lemma climb_moves:
  assumes inv: "trn_inv owner live good d N S" and out: "\<And>j ID. j < N \<Longrightarrow> at_pc S j \<noteq> Inside ID"
    and free: "\<And>i. i < N \<Longrightarrow> \<not> in_lock (at_pc S i)"
  shows "j < N \<Longrightarrow> at_pc S j = AcqClimb ID par i \<Longrightarrow> \<exists>k<N. moves lock unlock S k"
proof (induction "if i < int d then Suc (up (leafn d ID) ! nat i) else 0" arbitrary: j ID par i rule: less_induct)
  case less
  note I = inv_parts [OF inv less.prems(1)]
  have p: "id_ok d ID" "0 \<le> i" using I(2) less.prems(2) by simp_all
  note e = tree_elem [OF I(1) p(1)]
  have m: "mut_inv (owner (sys S)) d N (tree S) (at_pc S)" using inv by (simp add: trn_inv_def)
  let ?n = "up (leafn d ID) ! nat i"
  show ?case
  proof (cases "i < int d \<and> owner (sys S) (tnodes (tree S) ! ?n) \<noteq> None")
    case False
    then have "moves lock unlock S j" by (intro moves_climb [OF inv less.prems]) blast
    then show ?thesis using less.prems(1) by blast
  next
    case True
    then obtain k where k: "owner (sys S) (tnodes (tree S) ! ?n) = Some k" by blast
    have "?n < length (tnodes (tree S))" by (intro e(3) nth_mem) (use e(5) conjunct1 [OF True] p(2) in simp)
    then have k: "k < N" "?n \<in> holds d (at_pc S k)" using mut_node [OF m] k by auto
    show ?thesis
    proof (cases "at_pc S k")
      case (AcqClimb ID' par' i')
      have p': "id_ok d ID'" "0 \<le> i'" using inv_parts(2) [OF inv k(1)] AcqClimb by simp_all
      have "up (leafn d ID') ! nat i' < ?n" if "i' < int d"
      proof -
        obtain q where q: "q < nat i'" "up (leafn d ID') ! q = ?n" using k(2) AcqClimb by (auto simp: in_set_conv_nth)
        have "nat i' < length (up (leafn d ID'))" using that p'(2) tree_elem(5) [OF I(1) p'(1)] by simp
        then show ?thesis using sorted_wrt_nth_less [OF up_sorted q(1), of "leafn d ID'"] q(2) by simp
      qed
      then show ?thesis using less.hyps [OF _ k(1) AcqClimb] True by auto
    next
      case (Inside ID')
      then show ?thesis using out [OF k(1)] by simp
    next
      case (RelEnter ID')
      then show ?thesis using moves_enter [OF inv k(1) free] k(1) by blast
    next
      case (RelTree ID' ns acc)
      then show ?thesis using moves_release [OF inv k(1)] k(1) by blast
    qed (use k free [OF k(1)] in auto)
  qed
qed

lemma progress:
  assumes inv: "trn_inv owner live good d N S" and out: "\<And>j ID. j < N \<Longrightarrow> at_pc S j \<noteq> Inside ID"
    and j: "j < N" "at_pc S j \<noteq> Idle" "at_pc S j \<noteq> Refused"
  shows "\<exists>k<N. moves lock unlock S k"
proof (cases "\<exists>i<N. in_lock (at_pc S i)")
  case True
  then show ?thesis using moves_in_lock [OF inv] by blast
next
  case False
  then have free: "\<And>i. i < N \<Longrightarrow> \<not> in_lock (at_pc S i)" by blast
  have ok: "pc_ok d (at_pc S j)" using inv_parts(2) [OF inv j(1)] .
  note e = moves_enter [OF inv j(1) free] and r = moves_release [OF inv j(1)] and c = climb_moves [OF inv out free j(1)]
  show ?thesis
  proof (cases "at_pc S j")
    case (AcqClimb ID par i)
    then show ?thesis using c by blast
  next
    case (RelTree ID ns acc)
    then show ?thesis using r j(1) by blast
  qed (use e j ok out [OF j(1)] free [OF j(1)] in auto)
qed

text \<open>A thread that is alone gets in.\<close>

lemma alone_climbs:
  assumes "trn_run lock unlock N S0 S" "trn_inv owner live good d N S" "j < N" "at_pc S j = AcqClimb ID par i"
    "\<And>k. k < N \<Longrightarrow> k \<noteq> j \<Longrightarrow> at_pc S k = Idle"
  shows "\<exists>S'. trn_run lock unlock N S0 S' \<and> at_pc S' j = Inside ID"
  using assms
proof (induction "nat (int d - i)" arbitrary: S par i)
  case 0
  have "\<not> i < tdepth (tree S)" using 0(1) inv_parts(1) [OF 0(3,4)] by (simp add: tree_ok_def)
  then show ?case using trn_acquire_step [OF 0(2,4), of "Inside ID" "tree S" "sys S"] 0(5) by force
next
  case (Suc n)
  note I = inv_parts [OF Suc.prems(2,3)]
  have p: "id_ok d ID" "0 \<le> i" "i < int d" "par = int ((leafn d ID # up (leafn d ID)) ! nat i)" using I(2) Suc.prems(4) Suc.hyps(2) by simp_all
  note e = tree_elem [OF I(1) p(1)]
  let ?n = "up (leafn d ID) ! nat i"
  have i: "nat i < length (up (leafn d ID))" using p e(5) by simp
  have par: "half (par - 1) = int ?n" using half_int up_nth [OF i] p(4) by simp
  have l: "?n < length (tnodes (tree S))" using e(3) i by simp
  have m: "mut_inv (owner (sys S)) d N (tree S) (at_pc S)" using Suc.prems(2) by (simp add: trn_inv_def)
  have "?n \<notin> holds d (at_pc S j)" using up_distinct [of "leafn d ID"] i Suc.prems(4) by (auto simp: in_set_conv_nth nth_eq_iff_index_eq)
  then have "?n \<notin> holds d (at_pc S k)" if "k < N" for k using Suc.prems(5) [OF that] by (cases "k = j") auto
  then have "owner (sys S) (tnodes (tree S) ! ?n) = None" using mut_node [OF m l] by (metis not_Some_eq)
  moreover have "good (sys S)" "live (sys S) (tnodes (tree S) ! ?n)" using Suc.prems(2) l by (auto simp: trn_inv_def)
  ultimately obtain s where "lock j (tnodes (tree S) ! ?n) (sys S) = Ret 0 s" using lock_free Suc.prems(3) by blast
  then have s: "trnmnt_tree_acquire (lock j) (unlock j) (at_pc S j) (tree S) (sys S) = Ret (AcqClimb ID (int ?n) (i + 1), tree S) s"
    using Suc.prems(4) p(3) I(1) l par by (simp add: tree_ok_def Let_def)
  note r = trn_acquire_step [OF Suc.prems(1,3) s] and v = acquire_inv [OF Suc.prems(2,3) s]
  show ?case using Suc.hyps(1) [of "i + 1", OF _ r v Suc.prems(3)] Suc.hyps(2) Suc.prems(5) by simp
qed

lemma alone_gets_in:
  assumes inv: "trn_inv owner live good d N S" and out: "\<And>i. i < N \<Longrightarrow> at_pc S i = Idle" and j: "j < N" and ID: "id_ok d ID"
  shows "\<exists>S'. trn_run lock unlock N S S' \<and> at_pc S' j = Inside ID"
proof -
  note I = inv_parts [OF inv j]
  let ?S1 = "S\<lparr>at_pc := (at_pc S)(j := AcqEnter ID)\<rparr>"
  have "acquire_entry (Some (tree S)) ID = AcqEnter ID" using I(1) ID by (simp add: acquire_entry_def tree_ok_def id_ok_def)
  then have r1: "trn_run lock unlock N S ?S1" using trn_acquire [OF trn_start j, of S ID lock unlock] out [OF j] ID by (simp add: id_ok_def)
  note v1 = run_inv [OF r1 inv]
  have free: "owner (sys S) (tlock (tree S)) = None" "good (sys S)" "live (sys S) (tlock (tree S))"
    using inv out unfolding trn_inv_def mut_inv_def by (auto, metis in_lock.simps(4) not_Some_eq)
  obtain s2 where s2: "lock j (tlock (tree S)) (sys S) = Ret 0 s2" using lock_free [OF free(2,3) j free(1)] by blast
  then have a2: "trnmnt_tree_acquire (lock j) (unlock j) (at_pc ?S1 j) (tree ?S1) (sys ?S1) = Ret (AcqBody ID, tree S) s2" by simp
  let ?S2 = "?S1\<lparr>at_pc := (at_pc ?S1)(j := AcqBody ID), tree := tree S, sys := s2\<rparr>"
  note r2 = trn_acquire_step [OF r1 j a2] and v2 = acquire_inv [OF v1 j a2]
  have "in_lock (at_pc ?S2 j)" by simp
  then have "owner s2 (tlock (tree S)) = Some j" "good s2" "live s2 (tlock (tree S))" using v2 j by (auto simp: trn_inv_def mut_inv_def)
  then obtain s3 where "unlock j (tlock (tree S)) s2 = Ret 0 s3" using unlock_own j by blast
  moreover have "taken_ids (tree S) ! nat ID = 0" using id_taken [OF I(3) ID] out by auto
  ultimately obtain T where a3: "trnmnt_tree_acquire (lock j) (unlock j) (at_pc ?S2 j) (tree ?S2) (sys ?S2) = Ret (AcqClimb ID (leaf T ID) 0, T) s3"
    using tree_elem(1) [OF I(1) ID] by (simp add: Let_def)
  note r3 = trn_acquire_step [OF r2 j a3] and v3 = acquire_inv [OF v2 j a3]
  show ?thesis using alone_climbs [OF r3 v3 j] out by simp
qed

end

text \<open>
  Making and unmaking mutexes: \<open>room s\<close> of them can still be made.
\<close>

locale mutex_pool = mutexes +
  fixes alloc :: "nat \<Rightarrow> 's \<Rightarrow> int \<times> 's" and dealloc :: "nat \<Rightarrow> int \<Rightarrow> 's \<Rightarrow> int \<times> 's" and room :: "'s \<Rightarrow> nat"
  assumes not_live: "\<not> live s k \<Longrightarrow> owner s k = None"
    and alloc_new: "good s \<Longrightarrow> 0 < room s \<Longrightarrow> j < N \<Longrightarrow> \<exists>k s'. alloc j s = (k, s') \<and> good s' \<and> \<not> live s k \<and>
      live s' = (live s)(k := True) \<and> owner s' = owner s \<and> room s' = room s - 1"
    and dealloc_free: "good s \<Longrightarrow> live s k \<Longrightarrow> j < N \<Longrightarrow> owner s k = None \<Longrightarrow> \<exists>s'. dealloc j k s = (0, s') \<and> good s' \<and>
      live s' = (live s)(k := False) \<and> owner s' = owner s"
    and lock_room: "lock j k s = Ret v s' \<Longrightarrow> room s' = room s"
begin

lemma alloc_nodes_ok:
  assumes "good s" "n \<le> room s" "j < N"
  shows "\<exists>ks s'. alloc_nodes (alloc j) n s = (ks, s') \<and> good s' \<and> length ks = n \<and> distinct ks \<and> (\<forall>k\<in>set ks. \<not> live s k) \<and>
    live s' = (\<lambda>k. k \<in> set ks \<or> live s k) \<and> owner s' = owner s \<and> room s' = room s - n"
  using assms
proof (induction n arbitrary: s)
  case (Suc n)
  obtain k s1 where 1: "alloc j s = (k, s1)" "good s1" "\<not> live s k" "live s1 = (live s)(k := True)" "owner s1 = owner s" "room s1 = room s - 1"
    using alloc_new [OF Suc.prems(1) _ Suc.prems(3)] Suc.prems(2) by auto
  have "n \<le> room s1" using 1(6) Suc.prems(2) by simp
  then obtain ks s2 where 2: "alloc_nodes (alloc j) n s1 = (ks, s2)" "good s2" "length ks = n" "distinct ks" "\<forall>k\<in>set ks. \<not> live s1 k"
      "live s2 = (\<lambda>k. k \<in> set ks \<or> live s1 k)" "owner s2 = owner s1" "room s2 = room s1 - n"
    using Suc.IH [OF 1(2) _ Suc.prems(3)] by blast
  have "k \<notin> set ks" "\<forall>k\<in>set ks. \<not> live s k" using 2(5) 1(4) by (auto split: if_splits)
  then show ?case using 1 2 by (auto simp: fun_eq_iff)
qed (auto simp: fun_eq_iff)

lemma tree_alloc_ok:
  assumes "good s" "1 \<le> d" "2 ^ Suc d \<le> room s" "j < N" "num_of_locked junk = 0"
  shows "\<exists>T s'. trnmnt_tree_alloc (alloc j) (lock j) (unlock j) junk (\<lambda>_. 0) (int d) s = Ret T s' \<and>
    trn_inv owner live good d N \<lparr>sys = s', tree = T, at_pc = (\<lambda>_. Idle)\<rparr> \<and>
    (\<forall>k. live s' k \<longleftrightarrow> live s k \<or> k \<in> set (tlock T # tnodes T)) \<and> (\<forall>k\<in>set (tlock T # tnodes T). \<not> live s k)"
proof -
  have one: "(1 :: nat) \<le> 2 ^ d" by simp
  obtain lk s1 where 1: "alloc j s = (lk, s1)" "good s1" "\<not> live s lk" "live s1 = (live s)(lk := True)" "owner s1 = owner s" "room s1 = room s - 1"
    using alloc_new [OF assms(1) _ assms(4)] assms(3) one by fastforce
  have lk: "live s1 lk" "owner s1 lk = None" using 1 not_live by simp_all
  obtain s2 where 2: "lock j lk s1 = Ret 0 s2" "good s2" "live s2 = live s1" "owner s2 = (owner s1)(lk := Some j)"
    using lock_free [OF 1(2) lk(1) assms(4) lk(2)] by blast
  have "2 ^ Suc d - 1 \<le> room s2" using assms(3) 1(6) lock_room [OF 2(1)] by simp
  then obtain ks s3 where 3: "alloc_nodes (alloc j) (2 ^ Suc d - 1) s2 = (ks, s3)" "good s3" "length ks = 2 ^ Suc d - 1" "distinct ks"
      "\<forall>k\<in>set ks. \<not> live s2 k" "live s3 = (\<lambda>k. k \<in> set ks \<or> live s2 k)" "owner s3 = owner s2"
    using alloc_nodes_ok [OF 2(2) _ assms(4)] by blast
  have "live s3 lk" "owner s3 lk = Some j" using 2 3 lk by simp_all
  then obtain s4 where 4: "unlock j lk s3 = Ret 0 s4" "good s4" "live s4 = live s3" "owner s4 = (owner s3)(lk := None)"
    using unlock_own [OF 3(2) _ assms(4)] by blast
  let ?T = "junk\<lparr>tlock := lk, tthreads := 2 ^ d, tdepth := int d, total_nodes := 2 ^ Suc d - 1, tnodes := ks, taken_ids := map (\<lambda>_. 0) [0..<2 ^ d]\<rparr>"
  have n: "nat (int d + 1) = Suc d" "nat (2 ^ Suc d - 1) = 2 ^ Suc d - (1 :: nat)" "nat (2 ^ d :: int) = 2 ^ d" "(2 ^ Suc d :: int) div 2 = 2 ^ d"
    by (rule nat_pred_power | simp add: nat_power_eq)+
  have r: "trnmnt_tree_alloc (alloc j) (lock j) (unlock j) junk (\<lambda>_. 0) (int d) s = Ret ?T s4"
    using 1(1) 2(1) 3(1) 4(1) by (simp only: trnmnt_tree_alloc_def n Let_def) simp
  have fresh: "lk \<notin> set ks" "\<forall>k\<in>set ks. \<not> live s k" "\<And>k. owner s4 k = owner s k"
    using 1 2 3 4 lk not_live by (auto split: if_splits)
  have own: "owner s4 k = None" if "k = lk \<or> k \<in> set ks" for k using that fresh not_live 1(3) by metis
  have "tree_ok d ?T" using 3(3,4) assms(2) fresh(1) by (simp add: tree_ok_def)
  moreover have "mut_inv (owner s4) d N ?T (\<lambda>_. Idle)" using own by (simp add: mut_inv_def)
  moreover have "id_inv d N ?T (\<lambda>_. Idle)" using assms(5) by (simp add: id_inv_def id_ok_nat)
  ultimately have "trn_inv owner live good d N \<lparr>sys = s4, tree = ?T, at_pc = (\<lambda>_. Idle)\<rparr>"
    using 4(2,3) 3(6) 2(3) lk(1) by (simp add: trn_inv_def)
  moreover have "(\<forall>k. live s4 k \<longleftrightarrow> live s k \<or> k \<in> set (tlock ?T # tnodes ?T)) \<and> (\<forall>k\<in>set (tlock ?T # tnodes ?T). \<not> live s k)"
    using 1(3,4) 2(3) 3(6) 4(3) fresh(2) by auto
  ultimately show ?thesis using r by blast
qed

lemma dealloc_nodes_ok:
  assumes "good s" "j < N" "distinct ks" "\<forall>k\<in>set ks. live s k \<and> owner s k = None"
  shows "\<exists>s'. dealloc_nodes (dealloc j) ks s = s' \<and> good s' \<and> live s' = (\<lambda>k. live s k \<and> k \<notin> set ks) \<and> owner s' = owner s"
  using assms
proof (induction ks arbitrary: s)
  case (Cons k ks)
  obtain s1 where 1: "dealloc j k s = (0, s1)" "good s1" "live s1 = (live s)(k := False)" "owner s1 = owner s"
    using dealloc_free [OF Cons.prems(1) _ Cons.prems(2)] Cons.prems(4) by auto
  have d: "distinct ks" "\<forall>x\<in>set ks. live s1 x \<and> owner s1 x = None" using 1(3,4) Cons.prems(3,4) by auto
  then obtain s2 where "dealloc_nodes (dealloc j) ks s1 = s2" "good s2" "live s2 = (\<lambda>k. live s1 k \<and> k \<notin> set ks)" "owner s2 = owner s1"
    using Cons.IH [OF 1(2) Cons.prems(2)] by blast
  then show ?case using 1 by (auto simp: fun_eq_iff)
qed (auto simp: fun_eq_iff)

lemma tree_dealloc_ok:
  assumes inv: "trn_inv owner live good d N S" and j: "j < N" and out: "\<And>i. i < N \<Longrightarrow> at_pc S i = Idle \<or> at_pc S i = Refused"
  shows "\<exists>s'. trnmnt_tree_dealloc (lock j) (unlock j) (dealloc j) (Some (tree S)) (sys S) = Ret 0 s' \<and> good s' \<and>
    live s' = (\<lambda>k. live (sys S) k \<and> k \<notin> set (tnodes (tree S)))"
proof -
  let ?T = "tree S"
  have I: "good (sys S)" "tree_ok d ?T" "live (sys S) (tlock ?T)" "\<forall>k\<in>set (tnodes ?T). live (sys S) k" "mut_inv (owner (sys S)) d N ?T (at_pc S)"
    "id_inv d N ?T (at_pc S)" using inv by (auto simp: trn_inv_def)
  have h: "holds d (at_pc S i) = {}" "\<not> in_lock (at_pc S i)" "uses_id (at_pc S i) = None" if "i < N" for i using out [OF that] by auto
  have own: "owner (sys S) (tlock ?T) = None" "\<And>n. n < length (tnodes ?T) \<Longrightarrow> owner (sys S) (tnodes ?T ! n) = None"
    using I(5) h unfolding mut_inv_def by (metis empty_iff not_Some_eq)+
  obtain s1 where 1: "lock j (tlock ?T) (sys S) = Ret 0 s1" "good s1" "live s1 = live (sys S)" "owner s1 = (owner (sys S))(tlock ?T := Some j)"
    using lock_free [OF I(1,3) j own(1)] by blast
  have num: "num_of_locked ?T = 0" using id_count [OF I(6)] h(3) by simp
  have t: "nat (total_nodes ?T) = length (tnodes ?T)" "distinct (tnodes ?T)" "tlock ?T \<notin> set (tnodes ?T)"
    using I(2) nat_pred_power [of "Suc d"] unfolding tree_ok_def by simp_all
  have "\<forall>k\<in>set (tnodes ?T). live s1 k \<and> owner s1 k = None" using 1(3,4) I(4) own(2) t(3) by (auto simp: in_set_conv_nth)
  then obtain s2 where 2: "dealloc_nodes (dealloc j) (tnodes ?T) s1 = s2" "good s2" "live s2 = (\<lambda>k. live s1 k \<and> k \<notin> set (tnodes ?T))" "owner s2 = owner s1"
    using dealloc_nodes_ok [OF 1(2) j t(2)] by blast
  have "live s2 (tlock ?T)" "owner s2 (tlock ?T) = Some j" using 1 2 I(3) t(3) by auto
  then obtain s3 where "unlock j (tlock ?T) s2 = Ret 0 s3" "good s3" "live s3 = live s2" using unlock_own [OF 2(2) _ j] by blast
  then show ?thesis using 1 2 num t(1) by (simp add: trnmnt_tree_dealloc_def)
qed

end

end
