(* ===== verification/Tmutex.thy ===== *)
theory Tmutex
  imports Tournament
begin

section \<open>The tournament tree on the kernel's mutexes\<close>

text \<open>
  The calls \<^verbatim>\<open>kthread_mutex_alloc\<close>, \<^verbatim>\<open>kthread_mutex_lock\<close>, \<^verbatim>\<open>kthread_mutex_unlock\<close> and \<^verbatim>\<open>kthread_mutex_dealloc\<close> of \<^verbatim>\<open>proc.c\<close>
  keep the contracts \<open>mutexes\<close> and \<open>mutex_pool\<close> for the threads of a process; with that, mutual exclusion and freedom from deadlock
  of the tree follow for every interleaving, and what \<^verbatim>\<open>trnmnt_tree_dealloc\<close> leaves behind.
\<close>

subsection \<open>The mutexes of the kernel\<close>

text \<open>
  The system calls of thread \<open>j\<close> of process \<open>i\<close>. A call of \<^verbatim>\<open>kthread_mutex_lock\<close> that sleeps does not return.
\<close>

definition lock_call :: "nat \<Rightarrow> nat \<Rightarrow> int \<Rightarrow> proc_st \<Rightarrow> (int, proc_st) res" where
  "lock_call i j k s = (case kthread_mutex_lock i j k s of (Done v, s') \<Rightarrow> Ret v s' | (_, s') \<Rightarrow> Block (chan (thr s' i j)) s')"

definition unlock_call :: "nat \<Rightarrow> nat \<Rightarrow> int \<Rightarrow> proc_st \<Rightarrow> (int, proc_st) res" where
  "unlock_call i j k s = rbind (kthread_mutex_unlock i j k s) (\<lambda>r s.
     case r of Done v \<Rightarrow> Ret v s
     | Gap q \<Rightarrow> (case q of UnlockWakeup m \<Rightarrow> Ret 0 (wakeup (MutexChan m) s) | _ \<Rightarrow> Ret 0 s)
     | Off q \<Rightarrow> Block (chan (thr s i j)) s)"

definition klive :: "proc_st \<Rightarrow> int \<Rightarrow> bool" where
  "klive s k \<longleftrightarrow> 0 < k \<and> (\<exists>m<MAX_MUTEXES. mid (mtable s m) = k)"

definition kowner :: "proc_st \<Rightarrow> int \<Rightarrow> nat option" where
  "kowner s k = (if 0 < k then case find_mutex k s of None \<Rightarrow> None | Some m \<Rightarrow> map_option snd (mythread (mtable s m)) else None)"

definition kroom :: "proc_st \<Rightarrow> nat" where
  "kroom s = card {m. m < MAX_MUTEXES \<and> mid (mtable s m) = 0}"

text \<open>
  A table in which ids are unique, a mutex is locked when it has an owner, and the owners are among the first \<open>N\<close> threads of
  process \<open>i\<close>, which have different ids.
\<close>

definition mutex_ok :: "nat \<Rightarrow> nat \<Rightarrow> int \<Rightarrow> kthread_mutex_t \<Rightarrow> bool" where
  "mutex_ok i N nx x \<longleftrightarrow> 0 \<le> mid x \<and> mid x < nx \<and> (mid x \<noteq> 0 \<longrightarrow> (mstate x = MLOCKED \<longleftrightarrow> mythread x \<noteq> None) \<and>
     (\<forall>t. mythread x = Some t \<longrightarrow> fst t = i \<and> snd t < N))"

definition kgood :: "nat \<Rightarrow> nat \<Rightarrow> proc_st \<Rightarrow> bool" where
  "kgood i N s \<longleftrightarrow> 0 < nextmid s \<and> (\<forall>m<MAX_MUTEXES. mutex_ok i N (nextmid s) (mtable s m)) \<and>
     (\<forall>m<MAX_MUTEXES. \<forall>m'<MAX_MUTEXES. mid (mtable s m) \<noteq> 0 \<longrightarrow> mid (mtable s m) = mid (mtable s m') \<longrightarrow> m = m') \<and>
     inj_on (\<lambda>j. tid (thr s i j)) {..<N}"

lemma kgood_unique:
  assumes "kgood i N s" "m < MAX_MUTEXES" "n < MAX_MUTEXES" "mid (mtable s m) = k" "mid (mtable s n) = k" "0 < k"
  shows "n = m"
proof -
  have "mid (mtable s n) \<noteq> 0" "mid (mtable s n) = mid (mtable s m)" using assms by simp_all
  then show ?thesis using assms(1-3) unfolding kgood_def by blast
qed

lemma kgood_slot: "kgood i N s \<Longrightarrow> m < MAX_MUTEXES \<Longrightarrow> mutex_ok i N (nextmid s) (mtable s m)"
  by (simp add: kgood_def)

lemma find_live:
  assumes "kgood i N s" "klive s k"
  obtains m where "find_mutex k s = Some m" "m < MAX_MUTEXES" "mid (mtable s m) = k" "0 < k" "kowner s k = map_option snd (mythread (mtable s m))"
    "mutex_ok i N (nextmid s) (mtable s m)"
proof -
  obtain m where m: "find_mutex k s = Some m" using assms(2) by (cases "find_mutex k s") (auto simp: find_mutex_def klive_def first_from_None_iff)
  then have "m < MAX_MUTEXES" "mid (mtable s m) = k" by (auto simp: find_mutex_def dest: first_from_SomeD)
  then show ?thesis using that m assms by (simp add: kowner_def klive_def kgood_def)
qed

text \<open>A change of the owner of one mutex.\<close>

lemma find_upd: "(\<And>m. mid (mtable s' m) = mid (mtable s m)) \<Longrightarrow> find_mutex k s' = find_mutex k s"
  by (simp add: find_mutex_def)

lemma owner_change:
  assumes g: "kgood i N s" and m: "find_mutex k s = Some m" "0 < k"
    and s': "mtable s' = (mtable s)(m := x)" "mid x = k" "nextmid s' = nextmid s" "\<And>j. tid (thr s' i j) = tid (thr s i j)"
    and x: "mutex_ok i N (nextmid s) x"
  shows "kgood i N s'" "klive s' = klive s" "kowner s' = (kowner s)(k := map_option snd (mythread x))" "kroom s' = kroom s"
proof -
  have mm: "m < MAX_MUTEXES" "mid (mtable s m) = k" using m(1) by (auto simp: find_mutex_def dest: first_from_SomeD)
  have ids: "mid (mtable s' n) = mid (mtable s n)" for n using s'(1,2) mm by simp
  note f = find_upd [of s' s, OF ids]
  show "klive s' = klive s" "kroom s' = kroom s" by (simp_all add: klive_def kroom_def ids fun_eq_iff)
  show "kgood i N s'" using g s'(3,4) x unfolding kgood_def ids by (simp add: s'(1) mm(2) s'(2))
  have "kowner s' l = (if l = k then map_option snd (mythread x) else kowner s l)" for l
  proof (cases "0 < l \<and> find_mutex l s \<noteq> None")
    case True
    then obtain n where n: "find_mutex l s = Some n" by blast
    then have "mid (mtable s n) = l" by (auto simp: find_mutex_def dest: first_from_SomeD)
    then have "l \<noteq> k \<Longrightarrow> n \<noteq> m" using mm by auto
    then show ?thesis using True n m by (cases "l = k") (simp_all add: kowner_def f s'(1))
  next
    case False
    then show ?thesis using m by (cases "l = k") (auto simp: kowner_def f)
  qed
  then show "kowner s' = (kowner s)(k := map_option snd (mythread x))" by auto
qed

lemma lock_call_free:
  assumes g: "kgood i N s" "klive s k" "j < N" "kowner s k = None"
  shows "\<exists>s'. lock_call i j k s = Ret 0 s' \<and> kgood i N s' \<and> klive s' = klive s \<and> kowner s' = (kowner s)(k := Some j)"
proof -
  obtain m where m: "find_mutex k s = Some m" "0 < k" "kowner s k = map_option snd (mythread (mtable s m))" "mutex_ok i N (nextmid s) (mtable s m)"
    "mid (mtable s m) = k" using find_live [OF g(1,2)] by metis
  let ?x = "(mtable s m)\<lparr>mstate := MLOCKED, mythread := Some (i, j)\<rparr>"
  have u: "mstate (mtable s m) = MUNLOCKED" using m g(4) by (cases "mstate (mtable s m)") (auto simp: mutex_ok_def)
  have "lock_call i j k s = Ret 0 (s\<lparr>mtable := (mtable s)(m := ?x)\<rparr>)"
    using u by (simp add: lock_call_def kthread_mutex_lock_def mutex_lock_loop_def m(1) upd_mutex_def Let_def)
  moreover have "mutex_ok i N (nextmid s) ?x" using m(4) g(3) by (simp add: mutex_ok_def)
  ultimately show ?thesis using owner_change [OF g(1) m(1,2), of "s\<lparr>mtable := (mtable s)(m := ?x)\<rparr>" ?x] m(5) by simp
qed

lemma lock_call_busy:
  assumes g: "kgood i N s" "klive s k" "kowner s k = Some l" "l \<noteq> j"
  shows "lock_call i j k s \<noteq> Ret v s'"
proof -
  obtain m where m: "find_mutex k s = Some m" "0 < k" "kowner s k = map_option snd (mythread (mtable s m))" "mutex_ok i N (nextmid s) (mtable s m)"
    "mid (mtable s m) = k" using find_live [OF g(1,2)] by metis
  obtain t where t: "mythread (mtable s m) = Some t" "snd t = l" using m(3) g(3) by (cases "mythread (mtable s m)") auto
  then have "mstate (mtable s m) = MLOCKED" "t \<noteq> (i, j)" using m(2,4,5) g(4) by (cases t; auto simp: mutex_ok_def)+
  then show ?thesis by (simp add: lock_call_def kthread_mutex_lock_def mutex_lock_loop_def m(1) t(1) Let_def)
qed

lemma unlock_call_own:
  assumes g: "kgood i N s" "klive s k" "j < N" "kowner s k = Some j"
  shows "\<exists>s'. unlock_call i j k s = Ret 0 s' \<and> kgood i N s' \<and> klive s' = klive s \<and> kowner s' = (kowner s)(k := None)"
proof -
  obtain m where m: "find_mutex k s = Some m" "0 < k" "kowner s k = map_option snd (mythread (mtable s m))" "mutex_ok i N (nextmid s) (mtable s m)"
    "mid (mtable s m) = k" using find_live [OF g(1,2)] by metis
  let ?x = "(mtable s m)\<lparr>mythread := None, mstate := MUNLOCKED\<rparr>"
  let ?s = "wakeup (MutexChan m) (s\<lparr>mtable := (mtable s)(m := ?x)\<rparr>)"
  obtain t where t: "mythread (mtable s m) = Some t" "snd t = j" using m(3) g(4) by (cases "mythread (mtable s m)") auto
  then have "mstate (mtable s m) = MLOCKED" "mythread (mtable s m) = Some (i, j)" using m(2,4,5) by (auto simp: mutex_ok_def)
  then have "unlock_call i j k s = Ret 0 ?s" by (simp add: unlock_call_def kthread_mutex_unlock_def m(1) upd_mutex_def)
  moreover have "mutex_ok i N (nextmid s) ?x" using m(4) by (simp add: mutex_ok_def)
  ultimately show ?thesis using owner_change [OF g(1) m(1,2), of ?s ?x] m(5) by (simp add: wakeup_def thr_wakeup1)
qed

interpretation kmut: mutexes "lock_call i" "unlock_call i" kowner klive "kgood i N" N for i N
  by unfold_locales (blast intro: lock_call_free lock_call_busy [THEN notE] unlock_call_own)+

text \<open>A change of one slot of the table that no thread owns, before or after.\<close>

lemma kowner_iff:
  assumes "kgood i N s"
  shows "kowner s k = Some j \<longleftrightarrow> 0 < k \<and> (\<exists>m<MAX_MUTEXES. mid (mtable s m) = k \<and> map_option snd (mythread (mtable s m)) = Some j)"
proof (cases "klive s k")
  case True
  then obtain m where m: "m < MAX_MUTEXES" "mid (mtable s m) = k" "0 < k" "kowner s k = map_option snd (mythread (mtable s m))"
    using find_live [OF assms] by metis
  then have "n = m" if "n < MAX_MUTEXES" "mid (mtable s n) = k" for n using kgood_unique [OF assms _ that(1) _ that(2)] by blast
  then show ?thesis unfolding m(4) using m(1-3) by blast
next
  case False
  then have "find_mutex k s = None \<or> k \<le> 0" by (auto simp: klive_def find_mutex_def first_from_None_iff)
  then show ?thesis using False by (auto simp: kowner_def klive_def)
qed

lemma klive_upd:
  assumes "mtable s' = (mtable s)(m := x)" "m < MAX_MUTEXES"
  shows "klive s' k \<longleftrightarrow> 0 < k \<and> (mid x = k \<or> (\<exists>n<MAX_MUTEXES. n \<noteq> m \<and> mid (mtable s n) = k))"
proof -
  have "(\<exists>n<MAX_MUTEXES. mid (((mtable s)(m := x)) n) = k) \<longleftrightarrow> mid x = k \<or> (\<exists>n<MAX_MUTEXES. n \<noteq> m \<and> mid (mtable s n) = k)"
    using assms(2) by (metis fun_upd_apply)
  then show ?thesis unfolding klive_def assms(1) by blast
qed

lemma owner_same:
  assumes g: "kgood i N s" "kgood i N s'" and m: "mtable s' = (mtable s)(m := x)"
    and free: "mid (mtable s m) = 0 \<or> mythread (mtable s m) = None" "mid x = 0 \<or> mythread x = None"
  shows "kowner s' = kowner s"
proof
  fix k
  have "kowner s' k = Some j \<longleftrightarrow> kowner s k = Some j" for j
    unfolding kowner_iff [OF g(1)] kowner_iff [OF g(2)] m using free by (auto simp: fun_upd_def)
  then show "kowner s' k = kowner s k" by (cases "kowner s' k") (metis not_Some_eq)+
qed

lemma alloc_call_new:
  assumes g: "kgood i N s" "0 < kroom s"
  shows "\<exists>k s'. kthread_mutex_alloc i j s = (k, s') \<and> kgood i N s' \<and> \<not> klive s k \<and> klive s' = (klive s)(k := True) \<and>
    kowner s' = kowner s \<and> kroom s' = kroom s - 1"
proof -
  have "{m. m < MAX_MUTEXES \<and> mid (mtable s m) = 0} \<noteq> {}" using g(2) unfolding kroom_def by (metis card.empty less_irrefl)
  then obtain m where m: "find_mutex 0 s = Some m"
    by (cases "find_mutex 0 s") (auto simp: find_mutex_def first_from_None_iff)
  then have mm: "m < MAX_MUTEXES" "mid (mtable s m) = 0" by (auto simp: find_mutex_def dest: first_from_SomeD)
  let ?k = "nextmid s" and ?x = "(mtable s m)\<lparr>mid := nextmid s, mythread := None, myproc := Some i, mstate := MUNLOCKED\<rparr>"
  obtain s' where s': "kthread_mutex_alloc i j s = (?k, s')" "mtable s' = (mtable s)(m := ?x)" "nextmid s' = ?k + 1" "\<And>l. tid (thr s' i l) = tid (thr s i l)"
    by (simp add: kthread_mutex_alloc_def m Let_def upd_mutex_def)
  have k: "0 < ?k" "\<And>n. n < MAX_MUTEXES \<Longrightarrow> mid (mtable s n) < ?k" using g(1) by (auto simp: kgood_def mutex_ok_def)
  have "mutex_ok i N (?k + 1) (mtable s' n)" if "n < MAX_MUTEXES" for n
    using kgood_slot [OF g(1) that] k(1) by (cases "n = m") (simp_all add: mutex_ok_def s'(2))
  moreover have "a = b" if "a < MAX_MUTEXES" "b < MAX_MUTEXES" "mid (mtable s' a) \<noteq> 0" "mid (mtable s' a) = mid (mtable s' b)" for a b
    using kgood_unique [OF g(1) that(2,1)] kgood_slot [OF g(1) that(1)] k(2) [OF that(1)] k(2) [OF that(2)] that(3,4)
    by (cases "a = m"; cases "b = m") (simp_all add: s'(2) mutex_ok_def)
  ultimately have good: "kgood i N s'" using g(1) k(1) unfolding kgood_def s'(3,4) by auto
  have "{n. n < MAX_MUTEXES \<and> mid (mtable s' n) = 0} = {n. n < MAX_MUTEXES \<and> mid (mtable s n) = 0} - {m}"
    using k(1) by (auto simp: s'(2))
  then have "kroom s' = kroom s - 1" using mm by (simp add: kroom_def)
  moreover have "\<not> klive s ?k" using k(2) unfolding klive_def by (metis less_irrefl)
  moreover have "klive s' l = ((klive s)(?k := True)) l" for l
    unfolding klive_upd [OF s'(2) mm(1)] using k(1) mm by (cases "l = ?k") (auto simp: klive_def)
  then have "klive s' = (klive s)(?k := True)" by blast
  ultimately show ?thesis using s'(1) good owner_same [OF g(1) good s'(2)] mm(2) by simp
qed

lemma dealloc_call_free:
  assumes g: "kgood i N s" "klive s k" "kowner s k = None"
  shows "\<exists>s'. kthread_mutex_dealloc i j k s = (0, s') \<and> kgood i N s' \<and> klive s' = (klive s)(k := False) \<and> kowner s' = kowner s"
proof -
  obtain m where m: "find_mutex k s = Some m" "m < MAX_MUTEXES" "mid (mtable s m) = k" "0 < k" "mythread (mtable s m) = None" "mutex_ok i N (nextmid s) (mtable s m)"
    using find_live [OF g(1,2)] g(3) by (metis option.map_disc_iff)
  let ?x = "(mtable s m)\<lparr>mid := 0, mythread := None, mstate := MUNLOCKED\<rparr>"
  have "mstate (mtable s m) \<noteq> MLOCKED" using m by (auto simp: mutex_ok_def)
  then have r: "kthread_mutex_dealloc i j k s = (0, upd_thread i j (\<lambda>t. t\<lparr>mutex := None\<rparr>) (s\<lparr>mtable := (mtable s)(m := ?x)\<rparr>))" (is "_ = (0, ?s)")
    by (simp add: kthread_mutex_dealloc_def m(1) upd_mutex_def)
  obtain s' where s': "kthread_mutex_dealloc i j k s = (0, s')" "mtable s' = (mtable s)(m := ?x)" "nextmid s' = nextmid s" "\<And>l. tid (thr s' i l) = tid (thr s i l)"
    using that [OF r] by simp
  have u: "a = m" if "a < MAX_MUTEXES" "mid (mtable s a) = k" for a
    by (rule kgood_unique [OF g(1) m(2) that(1) m(3) that(2) m(4)])
  have "mutex_ok i N (nextmid s) (mtable s' n)" if "n < MAX_MUTEXES" for n
    using kgood_slot [OF g(1) that] by (cases "n = m") (simp_all add: mutex_ok_def s'(2))
  moreover have "a = b" if "a < MAX_MUTEXES" "b < MAX_MUTEXES" "mid (mtable s' a) \<noteq> 0" "mid (mtable s' a) = mid (mtable s' b)" for a b
    using kgood_unique [OF g(1) that(2,1)] kgood_slot [OF g(1) that(1)] that(3,4)
    by (cases "a = m"; cases "b = m") (simp_all add: s'(2) mutex_ok_def)
  ultimately have good: "kgood i N s'" using g(1) unfolding kgood_def s'(3,4) by auto
  have "klive s' l = ((klive s)(k := False)) l" for l
    unfolding klive_upd [OF s'(2) m(2)] using m(3,4) u by (cases "l = k") (auto simp: klive_def)
  then have "klive s' = (klive s)(k := False)" by blast
  then show ?thesis using s'(1) good owner_same [OF g(1) good s'(2)] m(5) by auto
qed

lemma lock_call_room: "lock_call i j k s = Ret v s' \<Longrightarrow> kroom s' = kroom s"
proof -
  assume "lock_call i j k s = Ret v s'"
  then have "\<And>n. mid (mtable s' n) = mid (mtable s n)"
    by (auto simp: lock_call_def kthread_mutex_lock_def mutex_lock_loop_def upd_mutex_def Let_def split: option.splits if_splits kout.splits prod.splits)
  then show "kroom s' = kroom s" by (simp add: kroom_def)
qed

interpretation kpool: mutex_pool "lock_call i" "unlock_call i" kowner klive "kgood i N" N
  "kthread_mutex_alloc i" "kthread_mutex_dealloc i" kroom for i N
proof unfold_locales
  show "kowner s k = None" if "\<not> klive s k" for s k
    using that by (auto simp: kowner_def klive_def find_mutex_def dest: first_from_SomeD split: option.split)
qed (blast intro: alloc_call_new dealloc_call_free lock_call_room)+

subsection \<open>The tree on the kernel's mutexes\<close>

definition tree_start :: "trnmnt_tree \<Rightarrow> 's \<Rightarrow> 's tsys" where
  "tree_start T s = \<lparr>sys = s, tree = T, at_pc = (\<lambda>_. Idle)\<rparr>"




text \<open>A tree of depth 0 has no node to lock, but \<^verbatim>\<open>release_lock\<close> unlocks node 0 all the same.\<close>

lemma unlock_call_free:
  assumes "kgood i N s" "klive s k" "kowner s k = None"
  shows "unlock_call i j k s = Ret (-1) s"
proof -
  obtain m where m: "find_mutex k s = Some m" "mid (mtable s m) = k" "0 < k" "mythread (mtable s m) = None" "mutex_ok i N (nextmid s) (mtable s m)"
    using find_live [OF assms(1,2)] assms(3) by (metis option.map_disc_iff)
  then have "mstate (mtable s m) = MUNLOCKED" by (cases "mstate (mtable s m)") (auto simp: mutex_ok_def)
  then show ?thesis by (simp add: unlock_call_def kthread_mutex_unlock_def m(1))
qed

lemma lock_unlock:
  assumes "kgood p N s" "klive s k" "j < N" "kowner s k = None"
  obtains s1 s2 where "lock_call p j k s = Ret 0 s1" "unlock_call p j k s1 = Ret 0 s2" "kgood p N s1" "kgood p N s2"
    "klive s1 = klive s" "klive s2 = klive s" "kowner s1 = (kowner s)(k := Some j)" "kowner s2 = kowner s"
proof -
  obtain s1 where 1: "lock_call p j k s = Ret 0 s1" "kgood p N s1" "klive s1 = klive s" "kowner s1 = (kowner s)(k := Some j)"
    using lock_call_free [OF assms] by blast
  then obtain s2 where "unlock_call p j k s1 = Ret 0 s2" "kgood p N s2" "klive s2 = klive s1" "kowner s2 = (kowner s1)(k := None)"
    using unlock_call_own [OF 1(2) _ assms(3), of k] assms(2) by auto
  then show ?thesis using that 1 assms(4) by (metis fun_upd_triv fun_upd_upd)
qed

lemma alloc_depth_0:
  assumes g: "kgood p N s" "2 \<le> kroom s" "j < N"
  obtains T s' a b where "trnmnt_tree_alloc (kthread_mutex_alloc p j) (lock_call p j) (unlock_call p j) junk (\<lambda>_. 0) 0 s = Ret T s'"
    "T = junk\<lparr>tlock := a, tthreads := 1, tdepth := 0, total_nodes := 1, tnodes := [b], taken_ids := [0]\<rparr>"
    "kgood p N s'" "klive s' a" "klive s' b" "kowner s' a = None" "kowner s' b = None" "a \<noteq> b"
proof -
  obtain a s1 where 1: "kthread_mutex_alloc p j s = (a, s1)" "kgood p N s1" "\<not> klive s a" "klive s1 = (klive s)(a := True)" "kowner s1 = kowner s" "kroom s1 = kroom s - 1"
    using alloc_call_new [OF g(1)] g(2) by force
  have a: "klive s1 a" "kowner s1 a = None" using 1 kpool.not_live by simp_all
  obtain s2 where 2: "lock_call p j a s1 = Ret 0 s2" "kgood p N s2" "klive s2 = klive s1" "kowner s2 = (kowner s1)(a := Some j)"
    using lock_call_free [OF 1(2) a(1) g(3) a(2)] by blast
  have "0 < kroom s2" using lock_call_room [OF 2(1)] 1(6) g(2) by simp
  then obtain b s3 where 3: "kthread_mutex_alloc p j s2 = (b, s3)" "kgood p N s3" "\<not> klive s2 b" "klive s3 = (klive s2)(b := True)" "kowner s3 = kowner s2"
    using alloc_call_new [OF 2(2)] by blast
  have ab: "a \<noteq> b" "kowner s2 b = None" using 3(3) 2(3) a(1) kpool.not_live by auto
  have "klive s3 a" "kowner s3 a = Some j" using 2 3 a(1) by simp_all
  then obtain s4 where 4: "unlock_call p j a s3 = Ret 0 s4" "kgood p N s4" "klive s4 = klive s3" "kowner s4 = (kowner s3)(a := None)"
    using unlock_call_own [OF 3(2) _ g(3)] by blast
  have "trnmnt_tree_alloc (kthread_mutex_alloc p j) (lock_call p j) (unlock_call p j) junk (\<lambda>_. 0) 0 s =
      Ret (junk\<lparr>tlock := a, tthreads := 1, tdepth := 0, total_nodes := 1, tnodes := [b], taken_ids := [0]\<rparr>) s4"
    using 1(1) 2(1) 3(1) 4(1) by (simp add: trnmnt_tree_alloc_def Let_def)
  then show ?thesis using that ab 2 3 4 a(1) by simp
qed


subsection \<open>Examples\<close>

text \<open>Two threads of the first process.\<close>

definition duo :: proc_st where
  "duo = upd_thread 0 1 (\<lambda>t. t\<lparr>tid := 2\<rparr>) boot_st"

definition blank_tree :: trnmnt_tree where
  "blank_tree = \<lparr>tdepth = 0, tthreads = 0, total_nodes = 0, tree_killed = 0, num_of_locked = 0, tlock = 0, taken_ids = [], tnodes = []\<rparr>"

lemma duo_ok: "kgood 0 2 duo" "kroom duo = 64"
proof -
  have m: "mtable duo = mtable boot_st" "nextmid duo = 1" by (simp_all add: duo_def) (simp add: boot_st_def)
  have "{m. m < MAX_MUTEXES \<and> mid (mtable duo m) = 0} = {..<64}" unfolding m(1) by (auto simp: boot_st_def)
  then show "kroom duo = 64" by (simp add: kroom_def)
  have "inj_on (\<lambda>j. tid (thr duo 0 j)) {..<2}"
    by (simp add: duo_def inj_on_def less_2_cases_iff) (simp add: thr_def boot_st_def idle_proc_def idle_thread_def)
  then show "kgood 0 2 duo" unfolding kgood_def m by (simp add: mutex_ok_def boot_st_def)
qed

lemma duo_tree:
  obtains T s where "trnmnt_tree_alloc (kthread_mutex_alloc 0 0) (lock_call 0 0) (unlock_call 0 0) blank_tree (\<lambda>_. 0) (int 1) duo = Ret T s"
    "trn_inv kowner klive (kgood 0 2) 1 2 (tree_start T s)"
  using kpool.tree_alloc_ok [OF duo_ok(1), of 1 0 blank_tree] duo_ok(2) by (auto simp: tree_start_def blank_tree_def)





end
