(* ===== verification/Bio.thy ===== *)
theory Bio
  imports Proc
begin

section \<open>Sleep locks, the disk driver and the buffer cache (sleeplock.c, ide.c, bio.c)\<close>

text \<open>
  The layers below the log. From here up the kernel is followed along one thread at a time: a
  routine that finds a sleep lock taken ends in \<^const>\<open>Block\<close> on the lock's channel, and a routine that
  waits for the disk lets the disk's interrupts happen in queue order until its own request is done.

  Contents of a block are functions from offsets to bytes; only the first 512 offsets matter. The
  buffers are numbered 0 to 29; the list head of the cache is number 30, and \<open>bnext\<close> and \<open>bprev\<close> are
  the pointers of the doubly linked list as the C code has them.
\<close>

type_synonym blockdata = "nat \<Rightarrow> byte"

abbreviation (input) NBUF :: nat where "NBUF \<equiv> 30"
abbreviation (input) HEAD :: nat where "HEAD \<equiv> 30"
abbreviation (input) BSIZE :: nat where "BSIZE \<equiv> 512"
abbreviation (input) FSSIZE :: "32 word" where "FSSIZE \<equiv> 1000"

record sleeplock =
  slocked :: bool
  spid :: int

record buf =
  b_valid :: bool
  b_dirty :: bool
  dev :: "32 word"
  blockno :: "32 word"
  lock :: sleeplock
  refcnt :: "32 word"
  data :: blockdata

text \<open>
  \<open>me\<close> is the thread that runs; \<open>fault\<close> says for which blocks the drive reports a read error. The
  queue of the driver is the list that the \<^verbatim>\<open>qnext\<close> pointers form. The history variable \<open>writes\<close>
  lists the blocks written to the drives so far, in order; nothing in the code reads it.
\<close>

record bio_st =
  ps :: proc_st
  me :: "nat \<times> nat"
  bufs :: "nat \<Rightarrow> buf"
  bnext :: "nat \<Rightarrow> nat"
  bprev :: "nat \<Rightarrow> nat"
  idequeue :: "nat list"
  havedisk1 :: bool
  disk :: "32 word \<Rightarrow> 32 word \<Rightarrow> blockdata"
  fault :: "32 word \<Rightarrow> 32 word \<Rightarrow> bool"
  writes :: "(32 word \<times> 32 word \<times> blockdata) list"

definition mypid :: "'z bio_st_scheme \<Rightarrow> int" where
  "mypid s = pid (ptable (ps s) (fst (me s)))"

definition upd_buf :: "nat \<Rightarrow> (buf \<Rightarrow> buf) \<Rightarrow> 'z bio_st_scheme \<Rightarrow> 'z bio_st_scheme" where
  "upd_buf b f s = s\<lparr>bufs := (bufs s)(b := f (bufs s b))\<rparr>"

definition wakeup_b :: "chan \<Rightarrow> 'z bio_st_scheme \<Rightarrow> 'z bio_st_scheme" where
  "wakeup_b c s = s\<lparr>ps := wakeup c (ps s)\<rparr>"

definition sleep_b :: "chan \<Rightarrow> 'z bio_st_scheme \<Rightarrow> ('a, 'z bio_st_scheme) res" where
  "sleep_b c s = Block c (s\<lparr>ps := sleep (fst (me s)) (snd (me s)) c (ps s)\<rparr>)"

subsection \<open>Sleep locks\<close>

definition initsleeplock :: sleeplock where
  "initsleeplock = \<lparr>slocked = False, spid = 0\<rparr>"

text \<open>On the lock of a buffer; inodes have the same three operations.\<close>

definition acquiresleep :: "nat \<Rightarrow> 'z bio_st_scheme \<Rightarrow> (unit, 'z bio_st_scheme) res" where
  "acquiresleep b s =
     (if slocked (lock (bufs s b)) then sleep_b (BufLockChan b) s
      else Ret () (upd_buf b (\<lambda>x. x\<lparr>lock := \<lparr>slocked = True, spid = mypid s\<rparr>\<rparr>) s))"

definition releasesleep :: "nat \<Rightarrow> 'z bio_st_scheme \<Rightarrow> 'z bio_st_scheme" where
  "releasesleep b s =
     wakeup_b (BufLockChan b) (upd_buf b (\<lambda>x. x\<lparr>lock := \<lparr>slocked = False, spid = 0\<rparr>\<rparr>) s)"

definition holdingsleep :: "nat \<Rightarrow> 'z bio_st_scheme \<Rightarrow> bool" where
  "holdingsleep b s \<longleftrightarrow> slocked (lock (bufs s b)) \<and> spid (lock (bufs s b)) = mypid s"

subsection \<open>The disk\<close>

text \<open>
  \<^verbatim>\<open>idestart\<close>: for a dirty buffer the data goes out to the drive at once. The port numbers and the
  busy wait are those of the hardware and have no counterpart here.
\<close>

definition idestart :: "nat \<Rightarrow> 'z bio_st_scheme \<Rightarrow> (unit, 'z bio_st_scheme) res" where
  "idestart b s =
     (let x = bufs s b
      in if blockno x \<ge> FSSIZE then Panic ''incorrect blockno''
         else if b_dirty x
         then Ret () (s\<lparr>disk := (disk s)(dev x AND 1 := (disk s (dev x AND 1))(blockno x := data x)),
                        writes := writes s @ [(dev x AND 1, blockno x, data x)]\<rparr>)
         else Ret () s)"

text \<open>
  \<^verbatim>\<open>ideintr\<close>: the request at the head of the queue is done. When the drive reports an error no data
  is read, and the buffer is marked valid all the same.
\<close>

definition ideintr :: "'z bio_st_scheme \<Rightarrow> (unit, 'z bio_st_scheme) res" where
  "ideintr s =
     (case idequeue s of
        [] \<Rightarrow> Ret () s
      | b # q \<Rightarrow>
          let s = s\<lparr>idequeue := q\<rparr>;
              x = bufs s b;
              s = (if \<not> b_dirty x \<and> \<not> fault s (dev x AND 1) (blockno x)
                   then upd_buf b (\<lambda>y. y\<lparr>data := disk s (dev x AND 1) (blockno x)\<rparr>) s else s);
              s = upd_buf b (\<lambda>y. y\<lparr>b_valid := True, b_dirty := False\<rparr>) s;
              s = wakeup_b (BufChan b) s
          in (case q of [] \<Rightarrow> Ret () s | b' # _ \<Rightarrow> idestart b' s))"

text \<open>
  \<^verbatim>\<open>iderw\<close>: the request goes to the end of the queue, and while the caller sleeps the drive serves the
  requests in order; its own is done after one interrupt per request in the queue.
\<close>

fun ide_serve :: "nat \<Rightarrow> 'z bio_st_scheme \<Rightarrow> (unit, 'z bio_st_scheme) res" where
  "ide_serve 0 s = Ret () s"
| "ide_serve (Suc n) s = rbind (ideintr s) (\<lambda>_ s. ide_serve n s)"

definition iderw :: "nat \<Rightarrow> 'z bio_st_scheme \<Rightarrow> (unit, 'z bio_st_scheme) res" where
  "iderw b s =
     (if \<not> holdingsleep b s then Panic ''iderw: buf not locked''
      else if b_valid (bufs s b) \<and> \<not> b_dirty (bufs s b) then Panic ''iderw: nothing to do''
      else if dev (bufs s b) \<noteq> 0 \<and> \<not> havedisk1 s then Panic ''iderw: ide disk 1 not present''
      else let s = s\<lparr>idequeue := idequeue s @ [b]\<rparr>
           in rbind (if hd (idequeue s) = b then idestart b s else Ret () s) (\<lambda>_ s.
                ide_serve (length (idequeue s)) s))"

subsection \<open>The buffer cache\<close>

text \<open>\<^verbatim>\<open>binit\<close> puts each buffer at the front of the list in turn.\<close>

definition link_front :: "nat \<Rightarrow> 'z bio_st_scheme \<Rightarrow> 'z bio_st_scheme" where
  "link_front b s =
     (let s = s\<lparr>bnext := (bnext s)(b := bnext s HEAD), bprev := (bprev s)(b := HEAD)\<rparr>;
          s = s\<lparr>bprev := (bprev s)(bnext s HEAD := b)\<rparr>
      in s\<lparr>bnext := (bnext s)(HEAD := b)\<rparr>)"

definition binit :: "'z bio_st_scheme \<Rightarrow> 'z bio_st_scheme" where
  "binit s =
     fold (\<lambda>b s. link_front b (upd_buf b (\<lambda>x. x\<lparr>lock := initsleeplock\<rparr>) s)) [0..<NBUF]
       (s\<lparr>bprev := (bprev s)(HEAD := HEAD), bnext := (bnext s)(HEAD := HEAD)\<rparr>)"

text \<open>The two loops of \<^verbatim>\<open>bget\<close> follow the pointers until they are back at the head.\<close>

partial_function (option) scan :: "(nat \<Rightarrow> nat) \<Rightarrow> (nat \<Rightarrow> bool) \<Rightarrow> nat \<Rightarrow> nat option option" where
  "scan nxt P b =
     (if b = HEAD then Some None else if P b then Some (Some b) else scan nxt P (nxt b))"

definition bget :: "32 word \<Rightarrow> 32 word \<Rightarrow> 'z bio_st_scheme \<Rightarrow> (nat, 'z bio_st_scheme) res" where
  "bget d n s =
     (case scan (bnext s) (\<lambda>b. dev (bufs s b) = d \<and> blockno (bufs s b) = n) (bnext s HEAD) of
        None \<Rightarrow> Diverge
      | Some (Some b) \<Rightarrow>
          rbind (acquiresleep b (upd_buf b (\<lambda>x. x\<lparr>refcnt := refcnt x + 1\<rparr>) s)) (\<lambda>_ s. Ret b s)
      | Some None \<Rightarrow>
          (case scan (bprev s) (\<lambda>b. refcnt (bufs s b) = 0 \<and> \<not> b_dirty (bufs s b)) (bprev s HEAD) of
             None \<Rightarrow> Diverge
           | Some (Some b) \<Rightarrow>
               rbind (acquiresleep b (upd_buf b (\<lambda>x. x\<lparr>dev := d, blockno := n, b_valid := False,
                                                       b_dirty := False, refcnt := 1\<rparr>) s)) (\<lambda>_ s. Ret b s)
           | Some None \<Rightarrow> Panic ''bget: no buffers''))"

definition bread :: "32 word \<Rightarrow> 32 word \<Rightarrow> 'z bio_st_scheme \<Rightarrow> (nat, 'z bio_st_scheme) res" where
  "bread d n s =
     rbind (bget d n s) (\<lambda>b s.
       if \<not> b_valid (bufs s b) then rbind (iderw b s) (\<lambda>_ s. Ret b s) else Ret b s)"

definition bwrite :: "nat \<Rightarrow> 'z bio_st_scheme \<Rightarrow> (unit, 'z bio_st_scheme) res" where
  "bwrite b s =
     (if \<not> holdingsleep b s then Panic ''bwrite''
      else iderw b (upd_buf b (\<lambda>x. x\<lparr>b_dirty := True\<rparr>) s))"

definition unlink_buf :: "nat \<Rightarrow> 'z bio_st_scheme \<Rightarrow> 'z bio_st_scheme" where
  "unlink_buf b s =
     (let s = s\<lparr>bprev := (bprev s)(bnext s b := bprev s b)\<rparr>
      in s\<lparr>bnext := (bnext s)(bprev s b := bnext s b)\<rparr>)"

definition brelse :: "nat \<Rightarrow> 'z bio_st_scheme \<Rightarrow> (unit, 'z bio_st_scheme) res" where
  "brelse b s =
     (if \<not> holdingsleep b s then Panic ''brelse''
      else let s = releasesleep b s;
               s = upd_buf b (\<lambda>x. x\<lparr>refcnt := refcnt x - 1\<rparr>) s
           in if refcnt (bufs s b) = 0 then Ret () (link_front b (unlink_buf b s)) else Ret () s)"

subsection \<open>The disk in memory (memide.c)\<close>

text \<open>
  The alternative driver keeps the blocks of disk 1 in memory: \<^verbatim>\<open>disksize\<close> blocks, given by the
  linker. Its \<^verbatim>\<open>iderw\<close> has no queue and never sleeps.
\<close>

definition memide_rw :: "32 word \<Rightarrow> nat \<Rightarrow> 'z bio_st_scheme \<Rightarrow> (unit, 'z bio_st_scheme) res" where
  "memide_rw disksize b s =
     (let x = bufs s b
      in if \<not> holdingsleep b s then Panic ''iderw: buf not locked''
         else if b_valid x \<and> \<not> b_dirty x then Panic ''iderw: nothing to do''
         else if dev x \<noteq> 1 then Panic ''iderw: request not for disk 1''
         else if blockno x \<ge> disksize then Panic ''iderw: block out of range''
         else let s = (if b_dirty x
                       then (upd_buf b (\<lambda>y. y\<lparr>b_dirty := False\<rparr>) s)
                              \<lparr>disk := (disk s)(1 := (disk s 1)(blockno x := data x)),
                               writes := writes s @ [(1, blockno x, data x)]\<rparr>
                       else upd_buf b (\<lambda>y. y\<lparr>data := disk s 1 (blockno x)\<rparr>) s)
              in Ret () (upd_buf b (\<lambda>y. y\<lparr>b_valid := True\<rparr>) s))"

subsection \<open>The linked list as a list\<close>

text \<open>
  \<open>lseg nxt a xs b\<close>: following \<open>nxt\<close> from \<open>a\<close> visits the nodes \<open>xs\<close> and then arrives at \<open>b\<close>. The
  cache's list is a ring through the head in both directions.
\<close>

fun lseg :: "('a \<Rightarrow> 'a) \<Rightarrow> 'a \<Rightarrow> 'a list \<Rightarrow> 'a \<Rightarrow> bool" where
  "lseg nxt a [] b \<longleftrightarrow> a = b"
| "lseg nxt a (x # xs) b \<longleftrightarrow> a = x \<and> lseg nxt (nxt x) xs b"

definition ring :: "(nat \<Rightarrow> nat) \<Rightarrow> nat list \<Rightarrow> bool" where
  "ring nxt xs \<longleftrightarrow> lseg nxt HEAD (HEAD # xs) HEAD"

definition lru :: "'z bio_st_scheme \<Rightarrow> nat list \<Rightarrow> bool" where
  "lru s xs \<longleftrightarrow> ring (bnext s) xs \<and> ring (bprev s) (rev xs) \<and> distinct (HEAD # xs)"

lemma lseg_append: "lseg nxt a (xs @ ys) b \<longleftrightarrow> (\<exists>c. lseg nxt a xs c \<and> lseg nxt c ys b)"
  by (induction xs arbitrary: a) auto

lemma lseg_upd_other: "c \<notin> set xs \<Longrightarrow> lseg (nxt(c := d)) a xs b = lseg nxt a xs b"
  by (induction xs arbitrary: a) auto

lemma lseg_last: "lseg nxt a xs b \<Longrightarrow> xs \<noteq> [] \<Longrightarrow> nxt (last xs) = b"
  by (induction xs arbitrary: a) (auto split: if_splits)

lemma lseg_redirect:
  assumes "lseg nxt a xs b" "xs \<noteq> []" "distinct xs"
  shows "lseg (nxt(last xs := c)) a xs c"
proof -
  obtain ys y where xs: "xs = ys @ [y]" using assms(2) by (cases xs rule: rev_cases) auto
  then show ?thesis using assms by (auto simp: lseg_append lseg_upd_other)
qed

text \<open>Taking a node out of the ring, and putting one in behind the head or before it.\<close>

lemma ring_unlink:
  assumes "ring nxt (us @ b # vs)" "distinct (HEAD # us @ b # vs)"
  shows "ring (nxt(last (HEAD # us) := nxt b)) (us @ vs)"
proof -
  have "lseg nxt HEAD (HEAD # us) b" "lseg nxt (nxt b) vs HEAD"
    using assms(1) by (auto simp: ring_def lseg_append)
  then have "lseg (nxt(last (HEAD # us) := nxt b)) HEAD (HEAD # us) (nxt b)"
    using assms(2) by (intro lseg_redirect) auto
  moreover have "last (HEAD # us) \<notin> set vs" using assms(2) by (auto split: if_splits dest: last_in_set)
  ultimately have "lseg (nxt(last (HEAD # us) := nxt b)) HEAD ((HEAD # us) @ vs) HEAD"
    using \<open>lseg nxt (nxt b) vs HEAD\<close> unfolding lseg_append by (metis lseg_upd_other)
  then show ?thesis by (simp add: ring_def)
qed

lemma ring_front:
  assumes "ring nxt xs" "b \<notin> set (HEAD # xs)" "HEAD \<notin> set xs"
  shows "ring (nxt(b := nxt HEAD, HEAD := b)) (b # xs)"
  using assms by (auto simp: ring_def lseg_upd_other)

lemma ring_back:
  assumes "ring prv xs" "distinct (HEAD # xs)" "b \<notin> set (HEAD # xs)"
  shows "ring (prv(b := HEAD, last (HEAD # xs) := b)) (xs @ [b])"
proof -
  have "lseg (prv(b := HEAD)) HEAD (HEAD # xs) HEAD"
    using assms by (simp add: ring_def lseg_upd_other)
  from lseg_redirect [OF this _ assms(2), of b]
  have "lseg (prv(b := HEAD, last (HEAD # xs) := b)) HEAD (HEAD # xs) b" by simp
  moreover have "last (HEAD # xs) \<noteq> b" using assms(3) by (auto split: if_splits)
  ultimately have "lseg (prv(b := HEAD, last (HEAD # xs) := b)) HEAD ((HEAD # xs) @ [b]) HEAD"
    unfolding lseg_append by auto
  then show ?thesis by (simp add: ring_def)
qed

lemma ring_first: "ring nxt xs \<Longrightarrow> nxt HEAD = hd (xs @ [HEAD])"
  by (cases xs) (auto simp: ring_def)

lemma ring_next: "ring nxt (us @ b # vs) \<Longrightarrow> nxt b = hd (vs @ [HEAD])"
  by (cases vs) (auto simp: ring_def lseg_append)

lemma last_rev_head: "last (HEAD # rev xs) = hd (xs @ [HEAD])"
  by (cases xs) auto

text \<open>
  \<^verbatim>\<open>brelse\<close>'s pointer updates move a node to the front of the list; \<^verbatim>\<open>binit\<close>'s add one there.
\<close>

lemma lru_link_front:
  assumes "lru s xs" "b \<notin> set (HEAD # xs)"
  shows "lru (link_front b s) (b # xs)"
proof -
  have ok: "ring (bnext s) xs" "ring (bprev s) (rev xs)" "distinct (HEAD # xs)" using assms by (auto simp: lru_def)
  have h: "bnext s HEAD = last (HEAD # rev xs)" using ring_first [OF ok(1)] last_rev_head by simp
  have ne: "bnext s HEAD \<noteq> b" using assms(2) h by (cases xs) (auto simp: last_rev)
  have "b \<noteq> HEAD" using assms(2) by simp
  have "bnext (link_front b s) = (bnext s)(b := bnext s HEAD, HEAD := b)"
    and "bprev (link_front b s) = (bprev s)(b := HEAD, last (HEAD # rev xs) := b)"
    using h \<open>b \<noteq> HEAD\<close> by (simp_all add: link_front_def Let_def)
  then show ?thesis
    using ring_front [OF ok(1) assms(2)] ring_back [OF ok(2), of b] ok(3) assms(2) by (simp add: lru_def)
qed

lemma lru_unlink:
  assumes "lru s (us @ b # vs)"
  shows "lru (unlink_buf b s) (us @ vs)"
proof -
  have ok: "ring (bnext s) (us @ b # vs)" "ring (bprev s) (rev vs @ b # rev us)" "distinct (HEAD # us @ b # vs)"
    using assms by (auto simp: lru_def)
  have n: "bnext s b = last (HEAD # rev vs)" using ring_next [OF ok(1)] last_rev_head by simp
  have p: "bprev s b = last (HEAD # us)" using ring_next [OF ok(2)] last_rev_head [of "rev us"] by simp
  have "bnext s b \<noteq> b" using n ok(3) by (cases vs) (auto simp: last_rev)
  then have "bnext (unlink_buf b s) = (bnext s)(last (HEAD # us) := bnext s b)"
    and "bprev (unlink_buf b s) = (bprev s)(last (HEAD # rev vs) := bprev s b)"
    using n p by (simp_all add: unlink_buf_def Let_def)
  moreover have "distinct (HEAD # rev vs @ b # rev us)" using ok(3) by auto
  ultimately show ?thesis
    using ring_unlink [OF ok(1) ok(3)] ring_unlink [OF ok(2)] ok(3) by (simp add: lru_def)
qed

lemma scan_lseg: "lseg nxt b xs HEAD \<Longrightarrow> HEAD \<notin> set xs \<Longrightarrow> scan nxt P b = Some (find P xs)"
proof (induction xs arbitrary: b)
  case Nil
  then show ?case by (simp add: scan.simps)
next
  case (Cons x xs)
  then show ?case by (subst scan.simps) auto
qed

lemma scan_ring: "ring nxt xs \<Longrightarrow> HEAD \<notin> set xs \<Longrightarrow> scan nxt P (nxt HEAD) = Some (find P xs)"
  by (auto simp: ring_def intro: scan_lseg)

subsection \<open>The cache as a view of the disk\<close>

text \<open>
  \<open>bio_ok s H\<close>: the cache is consistent, no request is pending, and the buffers in use are those in
  \<open>H\<close>, each locked by the running process. The buffers that have never been used carry the key
  \<open>(0, 0)\<close> of zeroed memory; apart from that a block has at most one buffer. A buffer that is valid,
  not dirty and not in use agrees with the disk.
\<close>

abbreviation (input) bkey :: "'z bio_st_scheme \<Rightarrow> nat \<Rightarrow> 32 word \<times> 32 word" where
  "bkey s b \<equiv> (dev (bufs s b), blockno (bufs s b))"

definition synced :: "'z bio_st_scheme \<Rightarrow> nat \<Rightarrow> bool" where
  "synced s b \<longleftrightarrow> (b_valid (bufs s b) \<and> \<not> b_dirty (bufs s b) \<longrightarrow>
     data (bufs s b) = disk s (dev (bufs s b)) (blockno (bufs s b)))"

definition buf_ok :: "'z bio_st_scheme \<Rightarrow> nat set \<Rightarrow> nat \<Rightarrow> bool" where
  "buf_ok s H b \<longleftrightarrow>
     slocked (lock (bufs s b)) = (b \<in> H) \<and> (b \<in> H \<longrightarrow> spid (lock (bufs s b)) = mypid s) \<and>
     refcnt (bufs s b) = (if b \<in> H then 1 else 0) \<and>
     blockno (bufs s b) < FSSIZE \<and> (dev (bufs s b) = 0 \<or> dev (bufs s b) = 1 \<and> havedisk1 s) \<and>
     (b_dirty (bufs s b) \<longrightarrow> b_valid (bufs s b)) \<and> (b_valid (bufs s b) \<longrightarrow> bkey s b \<noteq> (0, 0)) \<and>
     (b \<notin> H \<longrightarrow> synced s b)"

definition keys_ok :: "'z bio_st_scheme \<Rightarrow> bool" where
  "keys_ok s \<longleftrightarrow>
     (\<forall>b<NBUF. \<forall>b'<NBUF. bkey s b = bkey s b' \<longrightarrow> bkey s b \<noteq> (0, 0) \<longrightarrow> b = b')"

definition bio_ok :: "'z bio_st_scheme \<Rightarrow> nat set \<Rightarrow> bool" where
  "bio_ok s H \<longleftrightarrow> (\<exists>xs. lru s xs \<and> set xs = {..<NBUF}) \<and> idequeue s = [] \<and>
     (\<forall>b<NBUF. buf_ok s H b) \<and>
     keys_ok s"

definition buf_of :: "'z bio_st_scheme \<Rightarrow> 32 word \<Rightarrow> 32 word \<Rightarrow> nat option" where
  "buf_of s d n = find (\<lambda>b. bkey s b = (d, n)) [0..<NBUF]"

definition content :: "'z bio_st_scheme \<Rightarrow> 32 word \<Rightarrow> 32 word \<Rightarrow> blockdata" where
  "content s d n =
     (case buf_of s d n of
        Some b \<Rightarrow> if b_valid (bufs s b) then data (bufs s b) else disk s d n
      | None \<Rightarrow> disk s d n)"

lemma buf_of_SomeD: "buf_of s d n = Some b \<Longrightarrow> b < NBUF \<and> bkey s b = (d, n)"
  by (auto simp: buf_of_def find_Some_iff)

lemma buf_of_NoneD: "buf_of s d n = None \<Longrightarrow> b < NBUF \<Longrightarrow> bkey s b \<noteq> (d, n)"
  by (auto simp: buf_of_def find_None_iff)

lemma bio_ok_key:
  "bio_ok s H \<Longrightarrow> b < NBUF \<Longrightarrow> b' < NBUF \<Longrightarrow> bkey s b = bkey s b' \<Longrightarrow> bkey s b \<noteq> (0, 0) \<Longrightarrow> b = b'"
  unfolding bio_ok_def keys_ok_def by blast

lemma buf_of_eq:
  assumes "bio_ok s H" "b < NBUF" "bkey s b = (d, n)" "(d, n) \<noteq> (0, 0)"
  shows "buf_of s d n = Some b"
proof (cases "buf_of s d n")
  case None
  then show ?thesis using buf_of_NoneD [OF None assms(2)] assms(3) by simp
next
  case (Some b')
  then show ?thesis using buf_of_SomeD [OF Some] bio_ok_key [OF assms(1,2), of b'] assms by auto
qed

lemma find_SomeD: "find P xs = Some b \<Longrightarrow> b \<in> set xs \<and> P b"
  by (induction xs) (auto split: if_splits)

text \<open>Searching the linked list finds the buffer of a block wherever it is in the list.\<close>

lemma find_by_key:
  assumes "bio_ok s H" "lru s xs" "set xs = {..<NBUF}" "(d, n) \<noteq> (0, 0)"
  shows "find (\<lambda>b. dev (bufs s b) = d \<and> blockno (bufs s b) = n) xs = buf_of s d n"
proof (cases "find (\<lambda>b. dev (bufs s b) = d \<and> blockno (bufs s b) = n) xs")
  case None
  then have "\<forall>b<NBUF. bkey s b \<noteq> (d, n)" using assms(3) by (auto simp: find_None_iff)
  then have "buf_of s d n = None" by (auto simp: buf_of_def find_None_iff)
  then show ?thesis using None by simp
next
  case (Some b)
  then have "b < NBUF" "bkey s b = (d, n)" using assms(3) find_SomeD [OF Some] by auto
  then show ?thesis using Some buf_of_eq [OF assms(1) _ _ assms(4)] by simp
qed

definition idle_buf :: "'z bio_st_scheme \<Rightarrow> nat \<Rightarrow> bool" where
  "idle_buf s b \<longleftrightarrow> refcnt (bufs s b) = 0 \<and> \<not> b_dirty (bufs s b)"

text \<open>\<^verbatim>\<open>bget\<close> on a consistent cache.\<close>

lemma bget_hit:
  assumes ok: "bio_ok s H" and b: "buf_of s d n = Some b" "b \<notin> H" and nz: "(d, n) \<noteq> (0, 0)"
  shows "bget d n s = Ret b (upd_buf b (\<lambda>x. x\<lparr>refcnt := 1, lock := \<lparr>slocked = True, spid = mypid s\<rparr>\<rparr>) s)"
proof -
  obtain xs where xs: "lru s xs" "set xs = {..<NBUF}" using ok by (auto simp: bio_ok_def)
  have "buf_ok s H b" using ok buf_of_SomeD [OF b(1)] by (auto simp: bio_ok_def)
  moreover have "scan (bnext s) (\<lambda>b. dev (bufs s b) = d \<and> blockno (bufs s b) = n) (bnext s HEAD) = Some (Some b)"
    using scan_ring [of "bnext s" xs] xs find_by_key [OF ok xs nz] b(1) by (auto simp: lru_def)
  ultimately show ?thesis
    using b(2) by (simp add: bget_def acquiresleep_def buf_ok_def upd_buf_def mypid_def)
qed

lemma bget_miss:
  assumes ok: "bio_ok s H" and none: "buf_of s d n = None" and nz: "(d, n) \<noteq> (0, 0)"
    and free: "f < NBUF" "idle_buf s f"
  shows "\<exists>b. b < NBUF \<and> idle_buf s b \<and> bget d n s = Ret b (upd_buf b (\<lambda>x. x\<lparr>dev := d, blockno := n,
      b_valid := False, b_dirty := False, refcnt := 1, lock := \<lparr>slocked = True, spid = mypid s\<rparr>\<rparr>) s)"
proof -
  obtain xs where xs: "lru s xs" "set xs = {..<NBUF}" using ok by (auto simp: bio_ok_def)
  have "scan (bnext s) (\<lambda>b. dev (bufs s b) = d \<and> blockno (bufs s b) = n) (bnext s HEAD) = Some None"
    using scan_ring [of "bnext s" xs] xs find_by_key [OF ok xs nz] none by (auto simp: lru_def)
  moreover have "scan (bprev s) (idle_buf s) (bprev s HEAD) = Some (find (idle_buf s) (rev xs))"
    using scan_ring [of "bprev s" "rev xs"] xs by (auto simp: lru_def)
  moreover obtain b where b: "find (idle_buf s) (rev xs) = Some b"
    using free xs(2) by (cases "find (idle_buf s) (rev xs)") (auto simp: find_None_iff)
  ultimately have scans: "scan (bnext s) (\<lambda>b. dev (bufs s b) = d \<and> blockno (bufs s b) = n) (bnext s HEAD) = Some None"
    "scan (bprev s) (\<lambda>b. refcnt (bufs s b) = 0 \<and> \<not> b_dirty (bufs s b)) (bprev s HEAD) = Some (Some b)"
    by (simp_all add: idle_buf_def [abs_def])
  have bb: "b < NBUF" "idle_buf s b" using find_SomeD [OF b] xs(2) by auto
  then have "buf_ok s H b" using ok by (auto simp: bio_ok_def)
  then have "\<not> slocked (lock (bufs s b))" using bb(2) by (auto simp: buf_ok_def idle_buf_def split: if_splits)
  then show ?thesis
    using bb scans by (auto simp: bget_def acquiresleep_def upd_buf_def mypid_def)
qed

lemma bio_ok_buf: "bio_ok s H \<Longrightarrow> b < NBUF \<Longrightarrow> buf_ok s H b"
  by (simp add: bio_ok_def)

lemma content_buf:
  assumes "bio_ok s H" "b < NBUF" "bkey s b = (d, n)" "(d, n) \<noteq> (0, 0)"
  shows "content s d n = (if b_valid (bufs s b) then data (bufs s b) else disk s d n)"
  using buf_of_eq [OF assms] by (simp add: content_def)

lemma content_none: "buf_of s d n = None \<Longrightarrow> content s d n = disk s d n"
  by (simp add: content_def)

lemma mypid_upd [simp]: "mypid (upd_buf b f s) = mypid s" "mypid (wakeup_b c s) = mypid s"
  by (simp_all add: mypid_def upd_buf_def wakeup_b_def wakeup_def wakeup1_def)

lemma mypid_disk [simp]: "mypid (s\<lparr>disk := d\<rparr>) = mypid s" "mypid (s\<lparr>writes := w\<rparr>) = mypid s"
  by (simp_all add: mypid_def)

lemma upd_buf_sel [simp]:
  "bufs (upd_buf b f s) = (bufs s)(b := f (bufs s b))"
  "ps (upd_buf b f s) = ps s" "me (upd_buf b f s) = me s" "bnext (upd_buf b f s) = bnext s"
  "bprev (upd_buf b f s) = bprev s" "idequeue (upd_buf b f s) = idequeue s"
  "havedisk1 (upd_buf b f s) = havedisk1 s" "disk (upd_buf b f s) = disk s"
  "fault (upd_buf b f s) = fault s" "writes (upd_buf b f s) = writes s" "bio_st.more (upd_buf b f s) = bio_st.more s"
  by (simp_all add: upd_buf_def)

lemma wakeup_b_sel [simp]:
  "bufs (wakeup_b c s) = bufs s" "me (wakeup_b c s) = me s" "bnext (wakeup_b c s) = bnext s"
  "bprev (wakeup_b c s) = bprev s" "idequeue (wakeup_b c s) = idequeue s"
  "havedisk1 (wakeup_b c s) = havedisk1 s" "disk (wakeup_b c s) = disk s"
  "fault (wakeup_b c s) = fault s" "writes (wakeup_b c s) = writes s" "bio_st.more (wakeup_b c s) = bio_st.more s"
  by (simp_all add: wakeup_b_def)

lemma idequeue_Nil: "idequeue s = [] \<Longrightarrow> s\<lparr>idequeue := []\<rparr> = s"
  by (cases s) simp

lemma bit01: "d = 0 \<or> d = 1 \<Longrightarrow> d AND 1 = (d :: 32 word)"
  by auto

text \<open>The driver on an idle queue: one request, served by its own interrupt.\<close>

lemma iderw_read:
  assumes "bio_ok s H" "b < NBUF" "b \<in> H" "\<not> b_valid (bufs s b)" "\<not> fault s (dev (bufs s b)) (blockno (bufs s b))"
  shows "iderw b s = Ret () (wakeup_b (BufChan b) (upd_buf b (\<lambda>x. x\<lparr>data := disk s (dev x) (blockno x),
           b_valid := True, b_dirty := False\<rparr>) s))"
proof -
  have ok: "buf_ok s H b" "idequeue s = []" using assms by (auto simp: bio_ok_def)
  then have d: "dev (bufs s b) AND 1 = dev (bufs s b)" by (intro bit01) (auto simp: buf_ok_def)
  show ?thesis
    using assms ok idequeue_Nil [OF ok(2)] d
    by (auto simp: iderw_def buf_ok_def holdingsleep_def idestart_def ideintr_def mypid_def upd_buf_def wakeup_b_def Let_def linorder_not_le [symmetric])
qed

lemma iderw_write:
  assumes "bio_ok s H" "b < NBUF" "b \<in> H" "b_dirty (bufs s b)"
  shows "iderw b s = Ret () (wakeup_b (BufChan b) ((upd_buf b (\<lambda>x. x\<lparr>b_valid := True, b_dirty := False\<rparr>) s)
           \<lparr>disk := (disk s)(dev (bufs s b) := (disk s (dev (bufs s b)))(blockno (bufs s b) := data (bufs s b))),
            writes := writes s @ [(dev (bufs s b), blockno (bufs s b), data (bufs s b))]\<rparr>))"
proof -
  have ok: "buf_ok s H b" "idequeue s = []" using assms by (auto simp: bio_ok_def)
  then have d: "dev (bufs s b) AND 1 = dev (bufs s b)" by (intro bit01) (auto simp: buf_ok_def)
  show ?thesis
    using assms ok idequeue_Nil [OF ok(2)] d
    by (auto simp: iderw_def buf_ok_def holdingsleep_def idestart_def ideintr_def mypid_def upd_buf_def wakeup_b_def Let_def linorder_not_le [symmetric])
qed

text \<open>
  What the layers above rely on: nothing but the buffers changes when a block is read or released, and
  the content of every block stays.
\<close>

definition bio_frame :: "'z bio_st_scheme \<Rightarrow> 'z bio_st_scheme \<Rightarrow> bool" where
  "bio_frame s s' \<longleftrightarrow> bio_st.more s' = bio_st.more s \<and> me s' = me s \<and> mypid s' = mypid s \<and> havedisk1 s' = havedisk1 s \<and> fault s' = fault s"

definition busy :: "'z bio_st_scheme \<Rightarrow> nat set" where
  "busy s = {b. b < NBUF \<and> \<not> idle_buf s b}"

text \<open>The blocks whose buffers the log has pinned.\<close>

definition pinned :: "'z bio_st_scheme \<Rightarrow> (32 word \<times> 32 word) set" where
  "pinned s = {k. \<exists>b<NBUF. bkey s b = k \<and> b_dirty (bufs s b)}"

lemma bget_ok:
  assumes ok: "bio_ok s H" and nz: "(d, n) \<noteq> (0, 0)" and n: "n < FSSIZE" and d: "d = 0 \<or> d = 1 \<and> havedisk1 s"
    and room: "(d, n) \<in> pinned s \<or> card (busy s) < NBUF" and other: "\<forall>b\<in>H. bkey s b \<noteq> (d, n)"
  shows "\<exists>b x. bget d n s = Ret b (upd_buf b (\<lambda>_. x) s) \<and> b < NBUF \<and> b \<notin> H \<and>
     refcnt x = 1 \<and> lock x = \<lparr>slocked = True, spid = mypid s\<rparr> \<and> (dev x, blockno x) = (d, n) \<and>
     (if bkey s b = (d, n) \<and> b_valid (bufs s b)
      then b_valid x \<and> b_dirty x = b_dirty (bufs s b) \<and> data x = data (bufs s b)
      else \<not> b_valid x \<and> \<not> b_dirty x) \<and>
     (bkey s b = (d, n) \<or> idle_buf s b \<and> buf_of s d n = None)"
proof (cases "buf_of s d n")
  case (Some b)
  have b: "b < NBUF" "bkey s b = (d, n)" using buf_of_SomeD [OF Some] by auto
  then have "b \<notin> H" using other by blast
  moreover have "buf_ok s H b" using bio_ok_buf [OF ok b(1)] .
  ultimately show ?thesis
    using b bget_hit [OF ok Some _ nz]
    by (intro exI [of _ b] exI [of _ "(bufs s b)\<lparr>refcnt := 1, lock := \<lparr>slocked = True, spid = mypid s\<rparr>\<rparr>"])
      (auto simp: upd_buf_def buf_ok_def)
next
  case None
  then have "(d, n) \<notin> pinned s" using buf_of_NoneD [OF None] unfolding pinned_def by blast
  then have room: "card (busy s) < NBUF" using room by blast
  have "\<exists>f. f < NBUF \<and> idle_buf s f"
  proof (rule ccontr)
    assume "\<not> ?thesis"
    then have "busy s = {..<NBUF}" by (auto simp: busy_def)
    then show False using room by simp
  qed
  then obtain b where b: "b < NBUF" "idle_buf s b" "bget d n s = Ret b (upd_buf b (\<lambda>x. x\<lparr>dev := d, blockno := n,
      b_valid := False, b_dirty := False, refcnt := 1, lock := \<lparr>slocked = True, spid = mypid s\<rparr>\<rparr>) s)"
    using bget_miss [OF ok None nz] by blast
  have "b \<notin> H" using bio_ok_buf [OF ok b(1)] b(2) by (auto simp: buf_ok_def idle_buf_def)
  moreover have "bkey s b \<noteq> (d, n)" by (rule buf_of_NoneD [OF None b(1)])
  ultimately show ?thesis
    using b None
    by (intro exI [of _ b] exI [of _ "(bufs s b)\<lparr>dev := d, blockno := n,
      b_valid := False, b_dirty := False, refcnt := 1, lock := \<lparr>slocked = True, spid = mypid s\<rparr>\<rparr>"])
      (auto simp: upd_buf_def)
qed

text \<open>A buffer with a new key: the invariant, and the content of the blocks.\<close>

lemma bio_ok_claim:
  assumes ok: "bio_ok s H" and b: "b < NBUF" and key: "(dev x, blockno x) \<noteq> (0, 0)"
    "\<forall>b'<NBUF. b' \<noteq> b \<longrightarrow> bkey s b' \<noteq> (dev x, blockno x)"
    and x: "buf_ok (upd_buf b (\<lambda>_. x) s) (insert b H) b"
  shows "bio_ok (upd_buf b (\<lambda>_. x) s) (insert b H)"
proof -
  have "buf_ok (upd_buf b (\<lambda>_. x) s) (insert b H) c" if "c < NBUF" for c
    using bio_ok_buf [OF ok that] x by (cases "c = b") (auto simp: buf_ok_def synced_def mypid_def)
  moreover have "keys_ok (upd_buf b (\<lambda>_. x) s)"
    unfolding keys_ok_def
  proof (intro allI impI)
    fix c c' assume c: "c < NBUF" "c' < NBUF" "bkey (upd_buf b (\<lambda>_. x) s) c = bkey (upd_buf b (\<lambda>_. x) s) c'"
      "bkey (upd_buf b (\<lambda>_. x) s) c \<noteq> (0, 0)"
    show "c = c'"
    proof (cases "c = b \<or> c' = b")
      case True
      have "e = b" if "e < NBUF" "bkey s e = (dev x, blockno x)" for e using key(2) that by blast
      moreover have "bkey s c' = (dev x, blockno x)" if "c = b" "c' \<noteq> b" using c(3) that by simp
      moreover have "bkey s c = (dev x, blockno x)" if "c' = b" "c \<noteq> b" using c(3) that by simp
      ultimately show ?thesis using True c(1,2) by metis
    next
      case False
      then show ?thesis using c bio_ok_key [OF ok c(1,2)] by auto
    qed
  qed
  ultimately show ?thesis using ok by (simp add: bio_ok_def lru_def)
qed

lemma content_claim:
  assumes ok: "bio_ok s H" and ok': "bio_ok (upd_buf b (\<lambda>_. x) s) H'" and b: "b < NBUF" "b \<notin> H"
    and keep: "bkey s b = (dev x, blockno x) \<or> idle_buf s b \<and> buf_of s (dev x) (blockno x) = None"
    and x: "b_valid x \<longrightarrow> data x = content s (dev x) (blockno x)" "\<not> b_valid x \<longrightarrow> disk s (dev x) (blockno x) = content s (dev x) (blockno x)"
    and nz: "(d, n) \<noteq> (0, 0)"
  shows "content (upd_buf b (\<lambda>_. x) s) d n = content s d n"
proof (cases "(d, n) = (dev x, blockno x)")
  case True
  then show ?thesis using content_buf [OF ok' b(1), of d n] x nz by auto
next
  case False
  show ?thesis
  proof (cases "\<exists>c<NBUF. c \<noteq> b \<and> bkey s c = (d, n)")
    case True
    then obtain c where c: "c < NBUF" "c \<noteq> b" "bkey s c = (d, n)" by blast
    then show ?thesis using content_buf [OF ok' c(1), of d n] content_buf [OF ok c(1), of d n] nz by simp
  next
    case none: False
    then have "buf_of (upd_buf b (\<lambda>_. x) s) d n = None" using False by (auto simp: buf_of_def find_None_iff)
    then have 1: "content (upd_buf b (\<lambda>_. x) s) d n = disk s d n" by (simp add: content_none)
    show ?thesis
    proof (cases "bkey s b = (d, n)")
      case True
      then have "idle_buf s b" using keep False by auto
      then have "b_valid (bufs s b) \<longrightarrow> data (bufs s b) = disk s d n"
        using bio_ok_buf [OF ok b(1)] b(2) True by (auto simp: buf_ok_def synced_def idle_buf_def)
      then show ?thesis using 1 content_buf [OF ok b(1) True nz] by simp
    next
      case False
      then have "buf_of s d n = None" using none by (auto simp: buf_of_def find_None_iff)
      then show ?thesis using 1 by (simp add: content_none)
    qed
  qed
qed

lemma finite_pinned [simp]: "finite (pinned s)"
proof -
  have "pinned s \<subseteq> (\<lambda>b. bkey s b) ` {..<NBUF}" by (auto simp: pinned_def)
  then show ?thesis by (rule finite_subset) simp
qed

lemma busy_le:
  assumes ok: "bio_ok s H" and fin: "finite H"
  shows "card (busy s) \<le> card (pinned s) + card H"
proof -
  let ?D = "{b. b < NBUF \<and> b_dirty (bufs s b)}"
  have "busy s \<subseteq> ?D \<union> H"
    using bio_ok_buf [OF ok] by (auto simp: busy_def idle_buf_def buf_ok_def split: if_splits)
  then have "card (busy s) \<le> card (?D \<union> H)" using fin by (intro card_mono) auto
  also have "\<dots> \<le> card ?D + card H" by (rule card_Un_le)
  also have "card ?D = card ((\<lambda>b. bkey s b) ` ?D)"
  proof (rule card_image [symmetric], rule inj_onI)
    fix b c assume bc: "b \<in> ?D" "c \<in> ?D" "bkey s b = bkey s c"
    then have "bkey s b \<noteq> (0, 0)" using bio_ok_buf [OF ok, of b] by (auto simp: buf_ok_def)
    then show "b = c" using bio_ok_key [OF ok, of b c] bc by blast
  qed
  also have "(\<lambda>b. bkey s b) ` ?D = pinned s" by (auto simp: pinned_def)
  finally show ?thesis by simp
qed

lemma view_wakeup [simp]:
  "bio_ok (wakeup_b c s) H = bio_ok s H" "content (wakeup_b c s) = content s" "pinned (wakeup_b c s) = pinned s"
  "buf_of (wakeup_b c s) = buf_of s"
  by (auto simp: bio_ok_def lru_def buf_ok_def synced_def keys_ok_def content_def buf_of_def pinned_def fun_eq_iff
      split: option.splits)

lemma upd_buf_twice [simp]: "upd_buf b f (upd_buf b g s) = upd_buf b (\<lambda>x. f (g x)) s"
  by (simp add: upd_buf_def)

lemma pinned_claim:
  assumes "b < NBUF" "if b_dirty x then bkey s b = (dev x, blockno x) \<and> b_dirty (bufs s b) else \<not> b_dirty (bufs s b)"
  shows "pinned (upd_buf b (\<lambda>_. x) s) = pinned s"
proof -
  have "pinned (upd_buf b (\<lambda>_. x) s) = {k. \<exists>c<NBUF. c \<noteq> b \<and> bkey s c = k \<and> b_dirty (bufs s c)} \<union>
      (if b_dirty x then {(dev x, blockno x)} else {})"
    using assms(1) by (auto simp: pinned_def)
  also have "\<dots> = pinned s" using assms by (auto simp: pinned_def split: if_splits)
  finally show ?thesis .
qed

definition views :: "'z bio_st_scheme \<Rightarrow> 'z bio_st_scheme \<Rightarrow> bool" where
  "views s s' \<longleftrightarrow> bio_frame s s' \<and> (\<forall>d n. (d, n) \<noteq> (0, 0) \<longrightarrow> content s' d n = content s d n) \<and>
     pinned s' = pinned s \<and> disk s' = disk s \<and> writes s' = writes s"

lemma bread_ok:
  assumes ok: "bio_ok s H" and nz: "(d, n) \<noteq> (0, 0)" and n: "n < FSSIZE" and d: "d = 0 \<or> d = 1 \<and> havedisk1 s"
    and nf: "\<not> fault s d n" and fin: "finite H" and room: "(d, n) \<in> pinned s \<or> card (pinned s) + card H < NBUF" and other: "\<forall>b\<in>H. bkey s b \<noteq> (d, n)"
  shows "\<exists>b s'. bread d n s = Ret b s' \<and> b < NBUF \<and> b \<notin> H \<and> bio_ok s' (insert b H) \<and> views s s' \<and>
     bkey s' b = (d, n) \<and> b_valid (bufs s' b) \<and> data (bufs s' b) = content s d n \<and> synced s' b \<and> (\<forall>c. c \<noteq> b \<longrightarrow> bufs s' c = bufs s c)"
proof -
  have "(d, n) \<in> pinned s \<or> card (busy s) < NBUF" using busy_le [OF ok fin] room by linarith
  then obtain b x where g: "bget d n s = Ret b (upd_buf b (\<lambda>_. x) s)" "b < NBUF" "b \<notin> H"
     "refcnt x = 1" "lock x = \<lparr>slocked = True, spid = mypid s\<rparr>" "(dev x, blockno x) = (d, n)"
     "if bkey s b = (d, n) \<and> b_valid (bufs s b)
      then b_valid x \<and> b_dirty x = b_dirty (bufs s b) \<and> data x = data (bufs s b)
      else \<not> b_valid x \<and> \<not> b_dirty x"
     "bkey s b = (d, n) \<or> idle_buf s b \<and> buf_of s d n = None"
    using bget_ok [OF ok nz n d _ other] by blast
  define y where "y = (if b_valid x then x else x\<lparr>data := disk s d n, b_valid := True, b_dirty := False\<rparr>)"
  let ?s = "upd_buf b (\<lambda>_. x) s" and ?s' = "upd_buf b (\<lambda>_. y) s"
  have other_key: "\<forall>b'<NBUF. b' \<noteq> b \<longrightarrow> bkey s b' \<noteq> (d, n)"
    using g(8) bio_ok_key [OF ok g(2)] buf_of_NoneD [of s d n] nz by metis
  have bx: "bio_ok (upd_buf b (\<lambda>_. z) s) (insert b H)"
    if z: "z = x \<or> z = y" for z
  proof (rule bio_ok_claim [OF ok g(2)])
    have k: "dev z = d" "blockno z = n" "lock z = lock x" "refcnt z = 1" "b_dirty z \<longrightarrow> b_valid z"
      using z g(4,6,7) bio_ok_buf [OF ok g(2)] by (auto simp: y_def buf_ok_def split: if_splits)
    then show "(dev z, blockno z) \<noteq> (0, 0)" "\<forall>b'<NBUF. b' \<noteq> b \<longrightarrow> bkey s b' \<noteq> (dev z, blockno z)"
      using nz other_key by (simp, blast)
    show "buf_ok (upd_buf b (\<lambda>_. z) s) (insert b H) b"
      using k g(5) n d nz by (simp add: buf_ok_def)
  qed
  have data: "data y = content s d n" "b_valid y" "disk s d n = content s d n \<or> b_valid x"
    using g(7,8) content_buf [OF ok g(2), of d n] nz content_none [of s d n] by (auto simp: y_def split: if_splits)
  have "bread d n s = Ret b ?s' \<or> bread d n s = Ret b (wakeup_b (BufChan b) ?s')"
    using iderw_read [OF bx [of x], of b] g nf by (auto simp: bread_def y_def)
  moreover have "views s ?s'"
  proof -
    have "content ?s' e m = content s e m" if "(e, m) \<noteq> (0, 0)" for e m
      using content_claim [OF ok bx [of y] g(2,3)] g(6,8) data that by (simp add: y_def split: if_splits)
    moreover have "pinned ?s' = pinned s"
      using g bio_ok_buf [OF ok g(2)]
      by (intro pinned_claim) (auto simp: y_def buf_ok_def idle_buf_def split: if_splits)
    ultimately show ?thesis by (simp add: views_def bio_frame_def)
  qed
  moreover have "synced ?s' b"
    using g bio_ok_buf [OF ok g(2)] by (auto simp: y_def synced_def buf_ok_def split: if_splits)
  moreover have "synced (wakeup_b c s') b = synced s' b" for c and s' :: "'a bio_st_scheme" by (simp add: synced_def)
  ultimately show ?thesis
    using g(2,3,6) data(1,2) bx [of y] by (auto simp: views_def bio_frame_def y_def split: if_splits)
qed

text \<open>Moving a buffer to the front of the list: the most recently used one comes first.\<close>

lemma lru_to_front:
  assumes "lru s xs" "b \<in> set xs"
  shows "lru (link_front b (unlink_buf b s)) (b # remove1 b xs)"
proof -
  obtain us vs where xs: "xs = us @ b # vs" "b \<notin> set us" using split_list_first [OF assms(2)] by blast
  then have "lru (unlink_buf b s) (us @ vs)" using assms(1) lru_unlink by blast
  moreover have "b \<notin> set (HEAD # us @ vs)" using assms(1) xs by (auto simp: lru_def)
  ultimately show ?thesis using lru_link_front [of "unlink_buf b s" "us @ vs" b] xs by (simp add: remove1_append)
qed

lemma link_sel [simp]:
  "bufs (link_front b s) = bufs s" "me (link_front b s) = me s" "ps (link_front b s) = ps s"
  "idequeue (link_front b s) = idequeue s" "havedisk1 (link_front b s) = havedisk1 s" "disk (link_front b s) = disk s"
  "fault (link_front b s) = fault s" "writes (link_front b s) = writes s" "mypid (link_front b s) = mypid s"
  "bio_st.more (link_front b s) = bio_st.more s" "bio_st.more (unlink_buf b s) = bio_st.more s"
  "bufs (unlink_buf b s) = bufs s" "me (unlink_buf b s) = me s" "ps (unlink_buf b s) = ps s"
  "idequeue (unlink_buf b s) = idequeue s" "havedisk1 (unlink_buf b s) = havedisk1 s" "disk (unlink_buf b s) = disk s"
  "fault (unlink_buf b s) = fault s" "writes (unlink_buf b s) = writes s" "mypid (unlink_buf b s) = mypid s"
  by (simp_all add: link_front_def unlink_buf_def mypid_def Let_def)

text \<open>The content of the blocks depends on the buffers and the disk only.\<close>

lemma content_cong:
  assumes "\<And>b. b < NBUF \<Longrightarrow> bkey s' b = bkey s b \<and> b_valid (bufs s' b) = b_valid (bufs s b) \<and> data (bufs s' b) = data (bufs s b)"
    and "disk s' = disk s"
  shows "content s' d n = content s d n"
proof -
  have "buf_of s' d n = buf_of s d n"
    unfolding buf_of_def by (rule find_cong) (use assms(1) in auto)
  then show ?thesis using assms buf_of_SomeD [of s d n] by (auto simp: content_def split: option.splits)
qed

lemma pinned_cong:
  assumes "\<And>b. b < NBUF \<Longrightarrow> bkey s' b = bkey s b \<and> b_dirty (bufs s' b) = b_dirty (bufs s b)"
  shows "pinned s' = pinned s"
  unfolding pinned_def using assms by auto

lemma bio_ok_keys: "bio_ok s H \<Longrightarrow> keys_ok s"
  by (simp add: bio_ok_def)

lemma keys_ok_cong:
  assumes "keys_ok s" "\<And>b. b < NBUF \<Longrightarrow> bkey s' b = bkey s b"
  shows "keys_ok s'"
  using assms unfolding keys_ok_def by simp

lemma holding: "bio_ok s H \<Longrightarrow> b \<in> H \<Longrightarrow> b < NBUF \<Longrightarrow> holdingsleep b s"
  using bio_ok_buf [of s H b] by (auto simp: buf_ok_def holdingsleep_def)

lemma upd_buf_wakeup: "upd_buf b f (wakeup_b c s) = wakeup_b c (upd_buf b f s)"
  by (simp add: upd_buf_def wakeup_b_def)

lemma brelse_eq:
  assumes "bio_ok s H" "b \<in> H" "b < NBUF"
  shows "brelse b s = Ret () (link_front b (unlink_buf b (wakeup_b (BufLockChan b)
     (upd_buf b (\<lambda>x. x\<lparr>lock := \<lparr>slocked = False, spid = 0\<rparr>, refcnt := 0\<rparr>) s))))"
  using holding [OF assms] bio_ok_buf [OF assms(1,3)] assms(2)
  by (simp add: brelse_def releasesleep_def buf_ok_def upd_buf_wakeup Let_def) (simp add: upd_buf_def)

lemma brelse_ok:
  assumes ok: "bio_ok s H" and b: "b \<in> H" "b < NBUF" and sy: "synced s b"
  shows "\<exists>s'. brelse b s = Ret () s' \<and> bio_ok s' (H - {b}) \<and> views s s' \<and> (\<forall>c. c \<noteq> b \<longrightarrow> bufs s' c = bufs s c) \<and>
     (\<forall>xs. lru s xs \<longrightarrow> b \<in> set xs \<longrightarrow> lru s' (b # remove1 b xs))"
proof -
  let ?u = "wakeup_b (BufLockChan b) (upd_buf b (\<lambda>x. x\<lparr>lock := \<lparr>slocked = False, spid = 0\<rparr>, refcnt := 0\<rparr>) s)"
  let ?s' = "link_front b (unlink_buf b ?u)"
  have lru: "lru ?u xs = lru s xs" for xs by (simp add: lru_def)
  have front: "lru ?s' (b # remove1 b xs)" if "lru s xs" "b \<in> set xs" for xs
    using lru_to_front [of ?u xs b] that lru by simp
  obtain xs where xs: "lru s xs" "set xs = {..<NBUF}" using ok by (auto simp: bio_ok_def)
  then have "set (b # remove1 b xs) = {..<NBUF}" using b(2) by (auto simp: lru_def)
  then have "\<exists>xs. lru ?s' xs \<and> set xs = {..<NBUF}" using front [of xs] xs b(2) by blast
  moreover have "buf_ok ?s' (H - {b}) c" if "c < NBUF" for c
    using bio_ok_buf [OF ok that] sy by (auto simp: buf_ok_def synced_def)
  moreover have "keys_ok ?s'" by (rule keys_ok_cong [OF bio_ok_keys [OF ok]]) auto
  ultimately have "bio_ok ?s' (H - {b})" using ok by (simp add: bio_ok_def)
  moreover have "views s ?s'"
  proof -
    have "content ?s' d n = content s d n" for d n by (rule content_cong) auto
    moreover have "pinned ?s' = pinned s" by (rule pinned_cong) auto
    ultimately show ?thesis by (simp add: views_def bio_frame_def)
  qed
  ultimately show ?thesis using brelse_eq [OF ok b] front by simp
qed

text \<open>Changing the data of a buffer one holds, and writing it out.\<close>

lemma set_data_ok:
  assumes ok: "bio_ok s H" and b: "b \<in> H" "b < NBUF" "b_valid (bufs s b)"
  shows "bio_ok (upd_buf b (\<lambda>x. x\<lparr>data := f\<rparr>) s) H"
    and "(d, n) \<noteq> (0, 0) \<Longrightarrow> content (upd_buf b (\<lambda>x. x\<lparr>data := f\<rparr>) s) d n = (if bkey s b = (d, n) then f else content s d n)"
    and "pinned (upd_buf b (\<lambda>x. x\<lparr>data := f\<rparr>) s) = pinned s"
proof -
  let ?s' = "upd_buf b (\<lambda>x. x\<lparr>data := f\<rparr>) s"
  have "buf_ok ?s' H c" if "c < NBUF" for c
    using bio_ok_buf [OF ok that] b by (auto simp: buf_ok_def synced_def)
  moreover have "keys_ok ?s'" by (rule keys_ok_cong [OF bio_ok_keys [OF ok]]) auto
  ultimately show ok': "bio_ok ?s' H" using ok by (simp add: bio_ok_def lru_def)
  show "pinned ?s' = pinned s" by (rule pinned_cong) auto
  assume nz: "(d, n) \<noteq> (0, 0)"
  show "content ?s' d n = (if bkey s b = (d, n) then f else content s d n)"
  proof (cases "bkey s b = (d, n)")
    case True
    then show ?thesis using content_buf [OF ok' b(2), of d n] b nz by simp
  next
    case False
    have "buf_of ?s' d n = buf_of s d n" unfolding buf_of_def by (rule find_cong) auto
    then show ?thesis using False buf_of_SomeD [of s d n] by (auto simp: content_def split: option.splits)
  qed
qed

lemma set_dirty_ok:
  assumes ok: "bio_ok s H" and b: "b \<in> H" "b < NBUF" "b_valid (bufs s b)"
  shows "bio_ok (upd_buf b (\<lambda>x. x\<lparr>b_dirty := True\<rparr>) s) H"
    and "content (upd_buf b (\<lambda>x. x\<lparr>b_dirty := True\<rparr>) s) d n = content s d n"
    and "pinned (upd_buf b (\<lambda>x. x\<lparr>b_dirty := True\<rparr>) s) = insert (bkey s b) (pinned s)"
proof -
  let ?s' = "upd_buf b (\<lambda>x. x\<lparr>b_dirty := True\<rparr>) s"
  have "buf_ok ?s' H c" if "c < NBUF" for c
    using bio_ok_buf [OF ok that] b by (auto simp: buf_ok_def synced_def)
  moreover have "keys_ok ?s'" by (rule keys_ok_cong [OF bio_ok_keys [OF ok]]) auto
  ultimately show "bio_ok ?s' H" using ok by (simp add: bio_ok_def lru_def)
  show "content ?s' d n = content s d n" by (rule content_cong) auto
  show "pinned ?s' = insert (bkey s b) (pinned s)" using b(2) by (auto simp: pinned_def)
qed

lemma bwrite_ok:
  assumes ok: "bio_ok s H" and b: "b \<in> H" "b < NBUF" "b_valid (bufs s b)"
  defines "k \<equiv> bkey s b"
  shows "\<exists>s'. bwrite b s = Ret () s' \<and> bio_ok s' H \<and> synced s' b \<and> bio_frame s s' \<and>
     (\<forall>d n. (d, n) \<noteq> (0, 0) \<longrightarrow> content s' d n = content s d n) \<and> pinned s' = pinned s - {k} \<and>
     disk s' = (disk s)(fst k := (disk s (fst k))(snd k := data (bufs s b))) \<and>
     writes s' = writes s @ [(fst k, snd k, data (bufs s b))] \<and>
     bufs s' = (bufs s)(b := (bufs s b)\<lparr>b_valid := True, b_dirty := False\<rparr>)"
proof -
  let ?u = "upd_buf b (\<lambda>x. x\<lparr>b_dirty := True\<rparr>) s"
  let ?s' = "wakeup_b (BufChan b) ((upd_buf b (\<lambda>x. x\<lparr>b_valid := True, b_dirty := False\<rparr>) s)
           \<lparr>disk := (disk s)(fst k := (disk s (fst k))(snd k := data (bufs s b))),
            writes := writes s @ [(fst k, snd k, data (bufs s b))]\<rparr>)"
  have bb: "buf_ok s H b" using bio_ok_buf [OF ok b(2)] .
  have nz: "k \<noteq> (0, 0)" using bb b(3) by (auto simp: buf_ok_def k_def)
  have keep: "keys_ok s' " if "\<And>c. bkey s' c = bkey s c" for s' by (rule keys_ok_cong [OF bio_ok_keys [OF ok] that])
  note u = set_dirty_ok(1) [OF ok b]
  have eq: "bwrite b s = Ret () ?s'"
    using holding [OF ok b(1,2)] iderw_write [OF u b(2,1)] by (simp add: bwrite_def upd_buf_def k_def)
  have other: "bkey s c \<noteq> k" if "c < NBUF" "c \<noteq> b" for c
    using bio_ok_key [OF ok b(2) that(1)] that nz by (auto simp: k_def)
  have "buf_ok ?s' H c" if "c < NBUF" for c
    using bio_ok_buf [OF ok that] other [OF that] b by (cases "c = b") (auto simp: buf_ok_def synced_def k_def)
  then have ok': "bio_ok ?s' H" using ok keep [of ?s'] by (simp add: bio_ok_def lru_def)
  have "content ?s' d n = content s d n" if "(d, n) \<noteq> (0, 0)" for d n
  proof (cases "buf_of s d n")
    case None
    then have "buf_of ?s' d n = None" by (auto simp: buf_of_def find_None_iff)
    moreover have "(d, n) \<noteq> k" using buf_of_NoneD [OF None b(2)] by (auto simp: k_def)
    ultimately show ?thesis using None by (auto simp: content_none)
  next
    case (Some c)
    then have c: "c < NBUF" "bkey s c = (d, n)" using buf_of_SomeD by auto
    then show ?thesis
      using content_buf [OF ok c that] content_buf [OF ok' c(1), of d n] that b(3) other [OF c(1)] by (auto simp: k_def)
  qed
  moreover have "pinned ?s' = pinned s - {k}"
  proof -
    have "pinned ?s' = {q. \<exists>c<NBUF. c \<noteq> b \<and> bkey s c = q \<and> b_dirty (bufs s c)}" by (auto simp: pinned_def)
    also have "\<dots> = pinned s - {k}" using other unfolding pinned_def k_def by blast
    finally show ?thesis .
  qed
  moreover have "bio_frame s ?s'" by (simp add: bio_frame_def)
  moreover have "synced ?s' b" by (simp add: synced_def k_def)
  ultimately show ?thesis using eq ok' by simp
qed

subsection \<open>The list after initialisation\<close>

abbreviation (input) binit_step :: "nat \<Rightarrow> 'z bio_st_scheme \<Rightarrow> 'z bio_st_scheme" where
  "binit_step \<equiv> (\<lambda>b s. link_front b (upd_buf b (\<lambda>x. x\<lparr>lock := initsleeplock\<rparr>) s))"

lemma binit_fold:
  assumes "lru s []" "k \<le> NBUF"
  shows "lru (fold binit_step [0..<k] s) (rev [0..<k])"
  using assms(2)
proof (induction k)
  case (Suc k)
  then have "lru (upd_buf k (\<lambda>x. x\<lparr>lock := initsleeplock\<rparr>) (fold binit_step [0..<k] s)) (rev [0..<k])"
    by (simp add: lru_def)
  then show ?case using Suc.prems lru_link_front [of _ "rev [0..<k]" k] by simp
qed (use assms in simp)

lemma binit_fold_sel:
  assumes "s' = fold binit_step bs s"
  shows "bufs s' = (\<lambda>b. if b \<in> set bs then (bufs s b)\<lparr>lock := initsleeplock\<rparr> else bufs s b) \<and>
    idequeue s' = idequeue s \<and> havedisk1 s' = havedisk1 s \<and> disk s' = disk s \<and> fault s' = fault s \<and> writes s' = writes s \<and>
    me s' = me s \<and> mypid s' = mypid s \<and> bio_st.more s' = bio_st.more s"
  using assms
proof (induction bs arbitrary: s)
  case (Cons b bs)
  have "s' = fold binit_step bs
     (link_front b (upd_buf b (\<lambda>x. x\<lparr>lock := initsleeplock\<rparr>) s))" using Cons.prems by simp
  from Cons.IH [OF this] show ?case by (auto simp: fun_eq_iff)
qed auto

text \<open>Memory the loader has zeroed.\<close>

definition zeroed :: "'z bio_st_scheme \<Rightarrow> bool" where
  "zeroed s \<longleftrightarrow> idequeue s = [] \<and>
     (\<forall>b<NBUF. \<not> b_valid (bufs s b) \<and> \<not> b_dirty (bufs s b) \<and> bkey s b = (0, 0) \<and> refcnt (bufs s b) = 0)"

lemma binit_lru: "lru (binit s) (rev [0..<NBUF])"
proof -
  have "lru (s\<lparr>bprev := (bprev s)(HEAD := HEAD), bnext := (bnext s)(HEAD := HEAD)\<rparr>) []"
    by (simp add: lru_def ring_def)
  from binit_fold [OF this, of NBUF] show ?thesis by (simp add: binit_def)
qed

lemma binit_ok:
  assumes "zeroed s"
  shows "bio_ok (binit s) {}" "disk (binit s) = disk s" "idequeue (binit s) = []" "bufs (binit s) = (\<lambda>b. if b < NBUF then (bufs s b)\<lparr>lock := initsleeplock\<rparr> else bufs s b)"
proof -
  have sel: "bufs (binit s) = (\<lambda>b. if b \<in> set [0..<NBUF] then (bufs s b)\<lparr>lock := initsleeplock\<rparr> else bufs s b) \<and>
    idequeue (binit s) = idequeue s \<and> havedisk1 (binit s) = havedisk1 s \<and> disk (binit s) = disk s"
    using binit_fold_sel [OF binit_def [of s]] by (simp cong: if_cong)
  then show "disk (binit s) = disk s" "idequeue (binit s) = []"
    "bufs (binit s) = (\<lambda>b. if b < NBUF then (bufs s b)\<lparr>lock := initsleeplock\<rparr> else bufs s b)"
    using assms by (auto simp: zeroed_def)
  have "buf_ok (binit s) {} b" if "b < NBUF" for b
    using sel that assms by (auto simp: zeroed_def buf_ok_def initsleeplock_def synced_def)
  moreover have "bkey (binit s) b = (0, 0)" if "b < NBUF" for b using sel that assms by (simp add: zeroed_def)
  then have "keys_ok (binit s)" unfolding keys_ok_def by blast
  moreover have "lru (binit s) (rev [0..<NBUF]) \<and> set (rev [0..<NBUF]) = {..<NBUF}"
    using binit_lru [of s] by (simp only: set_rev atLeast_upt)
  then have "\<exists>xs. lru (binit s) xs \<and> set xs = {..<NBUF}" by blast
  ultimately show "bio_ok (binit s) {}" using sel assms by (simp add: bio_ok_def zeroed_def)
qed

text \<open>
  C19. \<^verbatim>\<open>binit\<close> on zeroed memory builds the doubly linked list of all thirty buffers in both directions,
  the last buffer first, and leaves a consistent cache in which no buffer is in use.
\<close>

theorem binit_consistent:
  assumes "zeroed s"
  shows "bio_ok (binit s) {} \<and> lru (binit s) (rev [0..<NBUF])"
  using binit_ok(1) [OF assms] binit_lru by blast

text \<open>A cache just initialised, over two blank drives, seen by the first process.\<close>

definition blank_buf :: buf where
  "blank_buf = \<lparr>b_valid = False, b_dirty = False, dev = 0, blockno = 0, lock = initsleeplock, refcnt = 0,
     data = (\<lambda>_. 0)\<rparr>"

definition bio_boot :: bio_st where
  "bio_boot = \<lparr>ps = boot_st, me = (0, 0), bufs = (\<lambda>_. blank_buf), bnext = (\<lambda>_. 0), bprev = (\<lambda>_. 0),
     idequeue = [], havedisk1 = True, disk = (\<lambda>_ _ _. 0), fault = (\<lambda>_ _. False), writes = []\<rparr>"

lemma zeroed_boot: "zeroed bio_boot"
  by (simp add: zeroed_def bio_boot_def blank_buf_def)

lemma bio_ok_boot: "bio_ok (binit bio_boot) {}"
  by (rule binit_ok [OF zeroed_boot])

lemma binit_boot_sel:
  "pinned (binit bio_boot) = {}" "havedisk1 (binit bio_boot)" "fault (binit bio_boot) = (\<lambda>_ _. False)"
  using binit_ok(4) [OF zeroed_boot] binit_fold_sel [OF binit_def, of bio_boot]
  by (auto simp: pinned_def bio_boot_def blank_buf_def)

theorem binit_consistent_witness: "bio_ok (binit bio_boot) {} \<and> lru (binit bio_boot) (rev [0..<NBUF])"
  by (rule binit_consistent [OF zeroed_boot])

text \<open>One block changed through the cache, as \<^verbatim>\<open>write_head\<close> does.\<close>

definition put_block :: "32 word \<Rightarrow> 32 word \<Rightarrow> (blockdata \<Rightarrow> blockdata) \<Rightarrow> 'z bio_st_scheme \<Rightarrow> (unit, 'z bio_st_scheme) res" where
  "put_block d n g s =
     rbind (bread d n s) (\<lambda>b s.
       rbind (bwrite b (upd_buf b (\<lambda>x. x\<lparr>data := g (data x)\<rparr>) s)) (\<lambda>_ s. brelse b s))"

lemma put_block_ok:
  fixes g :: "blockdata \<Rightarrow> blockdata"
  assumes "bio_ok s H" "finite H" "(d, n) \<noteq> (0, 0)" "n < FSSIZE" "d = 0 \<or> d = 1 \<and> havedisk1 s" "\<not> fault s d n"
    and "(d, n) \<in> pinned s \<or> card (pinned s) + card H < NBUF" "\<forall>b\<in>H. bkey s b \<noteq> (d, n)"
  defines "f \<equiv> g (content s d n)"
  shows "\<exists>s'. put_block d n g s = Ret () s' \<and> bio_ok s' H \<and> bio_frame s s' \<and>
    (\<forall>e m. (e, m) \<noteq> (0, 0) \<longrightarrow> content s' e m = (if (e, m) = (d, n) then f else content s e m)) \<and>
    pinned s' = pinned s - {(d, n)} \<and> disk s' = (disk s)(d := (disk s d)(n := f)) \<and> writes s' = writes s @ [(d, n, f)] \<and>
    (\<forall>c\<in>H. bufs s' c = bufs s c)"
proof -
  obtain b s1 where 1: "bread d n s = Ret b s1" "b < NBUF" "b \<notin> H" "bio_ok s1 (insert b H)" "views s s1"
     "bkey s1 b = (d, n)" "b_valid (bufs s1 b)" "data (bufs s1 b) = content s d n" "\<forall>c. c \<noteq> b \<longrightarrow> bufs s1 c = bufs s c"
    using bread_ok [OF assms(1,3-6,2,7,8)] by blast
  let ?u = "upd_buf b (\<lambda>x. x\<lparr>data := f\<rparr>) s1"
  have eq: "upd_buf b (\<lambda>x. x\<lparr>data := g (data x)\<rparr>) s1 = ?u" using 1(8) by (simp add: upd_buf_def f_def)
  note u = set_data_ok [OF 1(4) insertI1 1(2,7), where f = f]
  have ub: "bkey ?u b = (d, n)" "data (bufs ?u b) = f" using 1(6) by auto
  obtain s2 where 2: "bwrite b ?u = Ret () s2" "bio_ok s2 (insert b H)" "synced s2 b" "bio_frame ?u s2"
     "\<forall>e m. (e, m) \<noteq> (0, 0) \<longrightarrow> content s2 e m = content ?u e m" "pinned s2 = pinned ?u - {(d, n)}"
     "disk s2 = (disk ?u)(d := (disk ?u d)(n := f))" "writes s2 = writes ?u @ [(d, n, f)]"
     "bufs s2 = (bufs ?u)(b := (bufs ?u b)\<lparr>b_valid := True, b_dirty := False\<rparr>)"
    using bwrite_ok [OF u(1) insertI1 1(2)] 1(7) ub by auto
  obtain s3 where 3: "brelse b s2 = Ret () s3" "bio_ok s3 (insert b H - {b})" "views s2 s3" "\<forall>c. c \<noteq> b \<longrightarrow> bufs s3 c = bufs s2 c"
    using brelse_ok [OF 2(2) insertI1 1(2) 2(3)] by blast
  have "insert b H - {b} = H" using 1(3) by blast
  moreover have "content s3 e m = (if (e, m) = (d, n) then f else content s e m)" if "(e, m) \<noteq> (0, 0)" for e m
    using 3(3) 2(5) u(2) [OF that] 1(5,6) that by (auto simp: views_def)
  moreover have "\<forall>c\<in>H. bufs s3 c = bufs s c"
    using 1(3,9) 2(9) 3(4) by (metis fun_upd_other upd_buf_sel(1))
  ultimately show ?thesis
    using 1 2 3 u(3) eq by (simp add: put_block_def views_def bio_frame_def)
qed

text \<open>
  C17. A block written through the cache is read back: after reading block \<open>n\<close> of drive \<open>d\<close>, overwriting it
  with \<open>f\<close>, writing and releasing it, the drive holds \<open>f\<close> in that block and what it held in every other, and
  the next \<^verbatim>\<open>bread\<close> returns a buffer with \<open>f\<close>. No step of this panics or blocks as long as the log has not
  pinned every buffer.
\<close>

theorem bread_after_bwrite:
  assumes "bio_ok s {}" "(d, n) \<noteq> (0, 0)" "n < FSSIZE" "d = 0 \<or> d = 1 \<and> havedisk1 s" "\<not> fault s d n"
    "card (pinned s) < NBUF"
  shows "\<exists>s' b s''. put_block d n (\<lambda>_. f) s = Ret () s' \<and> disk s' = (disk s)(d := (disk s d)(n := f)) \<and>
    bread d n s' = Ret b s'' \<and> data (bufs s'' b) = f"
proof -
  obtain s' where s': "put_block d n (\<lambda>_. f) s = Ret () s'" "bio_ok s' {}" "bio_frame s s'" "content s' d n = f"
    "pinned s' = pinned s - {(d, n)}" "disk s' = (disk s)(d := (disk s d)(n := f))"
    using put_block_ok [OF assms(1) _ assms(2-5), of "\<lambda>_. f"] assms(2,6) by auto
  have "card (pinned s') < NBUF" using assms(6) s'(5) by (metis card_Diff1_le finite_pinned le_less_trans)
  then show ?thesis
    using bread_ok [OF s'(2) assms(2,3)] assms(4,5) s' by (auto simp: bio_frame_def)
qed

theorem bread_after_bwrite_witness:
  "\<exists>s' b s''. put_block 1 7 (\<lambda>_ _. 42) (binit bio_boot) = Ret () s' \<and> disk s' = (disk (binit bio_boot))(1 := (disk (binit bio_boot) 1)(7 := (\<lambda>_. 42))) \<and>
    bread 1 7 s' = Ret b s'' \<and> data (bufs s'' b) = (\<lambda>_. 42)"
  by (rule bread_after_bwrite [OF bio_ok_boot]) (simp_all add: binit_boot_sel)

text \<open>
  C18. \<^verbatim>\<open>brelse\<close> keeps the list in order of use: when the list is \<open>xs\<close> and \<open>b\<close> is released by its last user, the
  four pointer assignments and the four of the insertion make the list \<open>b\<close> followed by \<open>xs\<close> without \<open>b\<close>, in
  both directions, so that the search for a victim from the other end finds the least recently used.
\<close>

theorem brelse_moves_to_front:
  assumes "bio_ok s H" "b \<in> H" "b < NBUF" "lru s xs" "b \<in> set xs"
  shows "\<exists>s'. brelse b s = Ret () s' \<and> lru s' (b # remove1 b xs)"
proof -
  let ?u = "wakeup_b (BufLockChan b) (upd_buf b (\<lambda>x. x\<lparr>lock := \<lparr>slocked = False, spid = 0\<rparr>, refcnt := 0\<rparr>) s)"
  have "lru ?u xs" using assms(4) by (simp add: lru_def)
  then show ?thesis using brelse_eq [OF assms(1-3)] lru_to_front [OF _ assms(5), of ?u] by simp
qed

text \<open>
  C20. The two drivers agree: on a request for drive 1 that both accept, with an idle queue and no read error,
  \<^verbatim>\<open>iderw\<close> of \<^verbatim>\<open>ide.c\<close> and \<^verbatim>\<open>iderw\<close> of \<^verbatim>\<open>memide.c\<close> leave the same buffers and the same drive; they differ
  only in the wakeup of sleeping threads.
\<close>

theorem iderw_memide_agree:
  assumes "bio_ok s H" "b \<in> H" "b < NBUF" "dev (bufs s b) = 1" "\<not> b_valid (bufs s b) \<or> b_dirty (bufs s b)"
    "\<not> fault s 1 (blockno (bufs s b))"
  shows "\<exists>s'. memide_rw FSSIZE b s = Ret () s' \<and> iderw b s = Ret () (wakeup_b (BufChan b) s')"
proof (cases "b_dirty (bufs s b)")
  case True
  then show ?thesis
    using iderw_write [OF assms(1,3,2) True] holding [OF assms(1-3)] assms bio_ok_buf [OF assms(1,3)]
    by (auto simp: memide_rw_def Let_def buf_ok_def upd_buf_def linorder_not_le intro!: arg_cong [of _ _ "wakeup_b _"] bio_st.equality)
next
  case False
  then show ?thesis
    using iderw_read [OF assms(1,3,2)] holding [OF assms(1-3)] assms bio_ok_buf [OF assms(1,3)]
    by (auto simp: memide_rw_def Let_def buf_ok_def upd_buf_def linorder_not_le
        intro!: arg_cong [of _ _ "wakeup_b _"] bio_st.equality ext buf.equality)
qed

text \<open>The first block read after boot, for the examples.\<close>

lemma bread_boot:
  "\<exists>b s. bread 1 7 (binit bio_boot) = Ret b s \<and> b < NBUF \<and> bio_ok s {b} \<and> dev (bufs s b) = 1 \<and>
     b_valid (bufs s b) \<and> fault s = (\<lambda>_ _. False)"
proof -
  obtain b s where "bread 1 7 (binit bio_boot) = Ret b s" "b < NBUF" "bio_ok s {b}" "views (binit bio_boot) s"
     "bkey s b = (1, 7)" "b_valid (bufs s b)"
    using bread_ok [OF bio_ok_boot, of 1 7] binit_boot_sel by auto
  then show ?thesis using binit_boot_sel by (auto simp: views_def bio_frame_def)
qed

theorem brelse_moves_to_front_witness:
  "\<exists>b s xs s'. bread 1 7 (binit bio_boot) = Ret b s \<and> lru s xs \<and> brelse b s = Ret () s' \<and> lru s' (b # remove1 b xs)"
proof -
  obtain b s where bs: "bread 1 7 (binit bio_boot) = Ret b s" "b < NBUF" "bio_ok s {b}" using bread_boot by blast
  then obtain xs where "lru s xs" "b \<in> set xs" by (auto simp: bio_ok_def)
  then show ?thesis using brelse_moves_to_front [OF bs(3) _ bs(2)] bs(1) by blast
qed

theorem iderw_memide_agree_witness:
  "\<exists>b s s'. bread 1 7 (binit bio_boot) = Ret b s \<and> memide_rw FSSIZE b (upd_buf b (\<lambda>x. x\<lparr>b_dirty := True\<rparr>) s) = Ret () s' \<and>
     iderw b (upd_buf b (\<lambda>x. x\<lparr>b_dirty := True\<rparr>) s) = Ret () (wakeup_b (BufChan b) s')"
proof -
  obtain b s where bs: "bread 1 7 (binit bio_boot) = Ret b s" "b < NBUF" "bio_ok s {b}" "dev (bufs s b) = 1"
    "b_valid (bufs s b)" "fault s = (\<lambda>_ _. False)" using bread_boot by blast
  then show ?thesis
    using iderw_memide_agree [OF set_dirty_ok(1) [OF bs(3) _ bs(2,5)] _ bs(2)] by auto
qed

end
