(* ===== verification/Log.thy ===== *)
theory Log
  imports Bio
begin

section \<open>The log (log.c) and the superblock\<close>

text \<open>
  The write-ahead log on top of the buffer cache. \<^verbatim>\<open>struct log\<close> becomes the fields that \<open>log_st\<close> adds to
  the cache's state, so the routines of \<^verbatim>\<open>bio.c\<close> apply to it as they are. The signed counters stay
  integers; block numbers are 32-bit words, as \<^verbatim>\<open>bread\<close> takes them.

  The lemmas describe a stretch of the log's code by the list of disk writes it makes
  (\<open>wrote s s' ws\<close>). They lead to: \<^verbatim>\<open>commit\<close> followed by a crash after any of its writes and by recovery
  leaves either the old or the new contents of every block, never a mixture.
\<close>

subsection \<open>Words inside a block\<close>

definition rd32 :: "blockdata \<Rightarrow> nat \<Rightarrow> 32 word" where
  "rd32 d i =
     ucast (d i) OR push_bit 8 (ucast (d (i + 1))) OR
     push_bit 16 (ucast (d (i + 2))) OR push_bit 24 (ucast (d (i + 3)))"

definition wr32 :: "nat \<Rightarrow> 32 word \<Rightarrow> blockdata \<Rightarrow> blockdata" where
  "wr32 i v d =
     d(i := ucast v, i + 1 := ucast (drop_bit 8 v),
       i + 2 := ucast (drop_bit 16 v), i + 3 := ucast (drop_bit 24 v))"

lemma rd32_wr32 [simp]: "rd32 (wr32 i v d) i = v"
  by (simp add: rd32_def wr32_def word32_bytes)

lemma rd32_wr32_other: "j + 4 \<le> i \<or> i + 4 \<le> j \<Longrightarrow> rd32 (wr32 i v d) j = rd32 d j"
  by (auto simp: rd32_def wr32_def)

subsection \<open>The superblock\<close>

record superblock =
  ssize :: "32 word"
  nblocks :: "32 word"
  ninodes :: "32 word"
  nlog :: "32 word"
  logstart :: "32 word"
  inodestart :: "32 word"
  bmapstart :: "32 word"

definition rd_sb :: "blockdata \<Rightarrow> superblock" where
  "rd_sb d = \<lparr>ssize = rd32 d 0, nblocks = rd32 d 4, ninodes = rd32 d 8, nlog = rd32 d 12,
     logstart = rd32 d 16, inodestart = rd32 d 20, bmapstart = rd32 d 24\<rparr>"

definition readsb :: "32 word \<Rightarrow> 'z bio_st_scheme \<Rightarrow> (superblock, 'z bio_st_scheme) res" where
  "readsb d s =
     rbind (bread d 1 s) (\<lambda>b s.
       let sb = rd_sb (data (bufs s b)) in rbind (brelse b s) (\<lambda>_ s. Ret sb s))"

subsection \<open>Operations\<close>

abbreviation (input) MAXOPBLOCKS :: int where "MAXOPBLOCKS \<equiv> 10"
abbreviation (input) LOGSIZE :: int where "LOGSIZE \<equiv> 30"

text \<open>
  The array \<^verbatim>\<open>lh.block\<close> has thirty entries; a header read from a corrupted disk could make the C code run
  past its end, which here goes on into further entries.
\<close>

record log_st = bio_st +
  lstart :: "32 word"
  lsize :: int
  outstanding :: int
  committing :: bool
  ldev :: "32 word"
  lh_n :: int
  lh_block :: "nat \<Rightarrow> 32 word"

definition install_one :: "nat \<Rightarrow> 'z log_st_scheme \<Rightarrow> (unit, 'z log_st_scheme) res" where
  "install_one tail s =
     rbind (bread (ldev s) (lstart s + of_nat tail + 1) s) (\<lambda>lbuf s.
     rbind (bread (ldev s) (lh_block s tail) s) (\<lambda>dbuf s.
     rbind (bwrite dbuf (upd_buf dbuf (\<lambda>x. x\<lparr>data := data (bufs s lbuf)\<rparr>) s)) (\<lambda>_ s.
     rbind (brelse lbuf s) (\<lambda>_ s. brelse dbuf s))))"

definition install_trans :: "'z log_st_scheme \<Rightarrow> (unit, 'z log_st_scheme) res" where
  "install_trans s = for_each install_one [0..<nat (lh_n s)] s"

definition read_head :: "'z log_st_scheme \<Rightarrow> (unit, 'z log_st_scheme) res" where
  "read_head s =
     rbind (bread (ldev s) (lstart s) s) (\<lambda>b s.
       let lh = data (bufs s b);
           s = s\<lparr>lh_n := sint (rd32 lh 0)\<rparr>;
           s = s\<lparr>lh_block := fold (\<lambda>i f. f(i := rd32 lh (4 + 4 * i))) [0..<nat (lh_n s)] (lh_block s)\<rparr>
       in brelse b s)"

text \<open>What \<^verbatim>\<open>write_head\<close> stores into the header block.\<close>

definition put_header :: "int \<Rightarrow> (nat \<Rightarrow> 32 word) \<Rightarrow> blockdata \<Rightarrow> blockdata" where
  "put_header n blk d = fold (\<lambda>i. wr32 (4 + 4 * i) (blk i)) [0..<nat n] (wr32 0 (word_of_int n) d)"

definition write_head :: "'z log_st_scheme \<Rightarrow> (unit, 'z log_st_scheme) res" where
  "write_head s =
     rbind (bread (ldev s) (lstart s) s) (\<lambda>b s.
     rbind (bwrite b (upd_buf b (\<lambda>x. x\<lparr>data := put_header (lh_n s) (lh_block s) (data x)\<rparr>) s)) (\<lambda>_ s.
       brelse b s))"

definition recover_from_log :: "'z log_st_scheme \<Rightarrow> (unit, 'z log_st_scheme) res" where
  "recover_from_log s =
     rbind (read_head s) (\<lambda>_ s.
     rbind (install_trans s) (\<lambda>_ s. write_head (s\<lparr>lh_n := 0\<rparr>)))"

text \<open>The header of 124 bytes fits into a block, so the first test of \<^verbatim>\<open>initlog\<close> is never true.\<close>

definition initlog :: "32 word \<Rightarrow> 'z log_st_scheme \<Rightarrow> (unit, 'z log_st_scheme) res" where
  "initlog d s =
     rbind (readsb d s) (\<lambda>sb s.
       recover_from_log (s\<lparr>lstart := logstart sb, lsize := sint (nlog sb), ldev := d\<rparr>))"

definition begin_op :: "'z log_st_scheme \<Rightarrow> (unit, 'z log_st_scheme) res" where
  "begin_op s =
     (if committing s then sleep_b LogChan s
      else if lh_n s + (outstanding s + 1) * MAXOPBLOCKS > LOGSIZE then sleep_b LogChan s
      else Ret () (s\<lparr>outstanding := outstanding s + 1\<rparr>))"

definition write_one :: "nat \<Rightarrow> 'z log_st_scheme \<Rightarrow> (unit, 'z log_st_scheme) res" where
  "write_one tail s =
     rbind (bread (ldev s) (lstart s + of_nat tail + 1) s) (\<lambda>to s.
     rbind (bread (ldev s) (lh_block s tail) s) (\<lambda>from s.
     rbind (bwrite to (upd_buf to (\<lambda>x. x\<lparr>data := data (bufs s from)\<rparr>) s)) (\<lambda>_ s.
     rbind (brelse from s) (\<lambda>_ s. brelse to s))))"

definition write_log :: "'z log_st_scheme \<Rightarrow> (unit, 'z log_st_scheme) res" where
  "write_log s = for_each write_one [0..<nat (lh_n s)] s"

definition commit :: "'z log_st_scheme \<Rightarrow> (unit, 'z log_st_scheme) res" where
  "commit s =
     (if lh_n s > 0
      then rbind (write_log s) (\<lambda>_ s.
           rbind (write_head s) (\<lambda>_ s.
           rbind (install_trans s) (\<lambda>_ s. write_head (s\<lparr>lh_n := 0\<rparr>))))
      else Ret () s)"

definition end_op :: "'z log_st_scheme \<Rightarrow> (unit, 'z log_st_scheme) res" where
  "end_op s =
     (let s = s\<lparr>outstanding := outstanding s - 1\<rparr>
      in if committing s then Panic ''log.committing''
         else if outstanding s = 0
         then rbind (commit (s\<lparr>committing := True\<rparr>)) (\<lambda>_ s.
                Ret () (wakeup_b LogChan (s\<lparr>committing := False\<rparr>)))
         else Ret () (wakeup_b LogChan s))"

definition log_write :: "nat \<Rightarrow> 'z log_st_scheme \<Rightarrow> (unit, 'z log_st_scheme) res" where
  "log_write b s =
     (if lh_n s \<ge> LOGSIZE \<or> lh_n s \<ge> lsize s - 1 then Panic ''too big a transaction''
      else if outstanding s < 1 then Panic ''log_write outside of trans''
      else let i = (case first_from (\<lambda>i. lh_block s i = blockno (bufs s b)) 0 (nat (lh_n s)) of
                      Some i \<Rightarrow> i | None \<Rightarrow> nat (lh_n s));
               s = s\<lparr>lh_block := (lh_block s)(i := blockno (bufs s b))\<rparr>;
               s = (if int i = lh_n s then s\<lparr>lh_n := lh_n s + 1\<rparr> else s)
           in Ret () (upd_buf b (\<lambda>x. x\<lparr>b_dirty := True\<rparr>) s))"


subsection \<open>Stretches of code as lists of disk writes\<close>

fun apply_writes :: "(32 word \<times> 32 word \<times> blockdata) list \<Rightarrow> (32 word \<Rightarrow> 32 word \<Rightarrow> blockdata) \<Rightarrow> 32 word \<Rightarrow> 32 word \<Rightarrow> blockdata" where
  "apply_writes [] D = D"
| "apply_writes ((d, n, v) # ws) D = apply_writes ws (D(d := (D d)(n := v)))"

abbreviation (input) wkey :: "32 word \<times> 32 word \<times> blockdata \<Rightarrow> 32 word \<times> 32 word" where
  "wkey \<equiv> (\<lambda>w. (fst w, fst (snd w)))"

fun wkeys :: "(32 word \<times> 32 word \<times> blockdata) list \<Rightarrow> (32 word \<times> 32 word) set" where
  "wkeys [] = {}"
| "wkeys (w # ws) = insert (wkey w) (wkeys ws)"

lemma wkeys_set: "wkeys ws = wkey ` set ws"
  by (induction ws) auto

lemma wkeys_append [simp]: "wkeys (ws @ ws') = wkeys ws \<union> wkeys ws'"
  by (simp add: wkeys_set image_Un)

lemma apply_writes_append: "apply_writes (ws @ ws') D = apply_writes ws' (apply_writes ws D)"
  by (induction ws D rule: apply_writes.induct) (simp_all del: fun_upd_apply)

lemma apply_writes_other: "(d, n) \<notin> wkeys ws \<Longrightarrow> apply_writes ws D d n = D d n"
  by (induction ws D rule: apply_writes.induct) auto

lemma apply_writes_cong:
  "(d, n) \<in> wkeys ws \<or> D d n = D' d n \<Longrightarrow> apply_writes ws D d n = apply_writes ws D' d n"
proof (induction ws arbitrary: D D')
  case (Cons w ws)
  obtain e m v where w: "w = (e, m, v)" by (cases w)
  have "(d, n) \<in> wkeys ws \<or> (D(e := (D e)(m := v))) d n = (D'(e := (D' e)(m := v))) d n"
    using Cons.prems w by auto
  then show ?case
    using Cons.IH [of "D(e := (D e)(m := v))" "D'(e := (D' e)(m := v))"] by (simp add: w del: fun_upd_apply)
qed auto

lemma apply_writes_in:
  assumes "distinct (map wkey ws)" "(d, n, v) \<in> set ws"
  shows "apply_writes ws D d n = v"
  using assms
proof (induction ws arbitrary: D)
  case (Cons w ws)
  show ?case
  proof (cases "w = (d, n, v)")
    case True
    then have "(d, n) \<notin> wkeys ws" using Cons.prems(1) by (auto simp: wkeys_set)
    then show ?thesis using True by (simp add: apply_writes_other)
  next
    case False
    then show ?thesis using Cons by (cases w) auto
  qed
qed simp

text \<open>
  \<open>log_io s\<close>: the log's code can run: no buffer is held, the file system is on drive 1, which is there
  and reports no errors.
\<close>

definition log_io :: "'z log_st_scheme \<Rightarrow> bool" where
  "log_io s \<longleftrightarrow> bio_ok s {} \<and> ldev s = 1 \<and> havedisk1 s \<and> (\<forall>n. \<not> fault s 1 n)"

definition wrote :: "'z log_st_scheme \<Rightarrow> 'z log_st_scheme \<Rightarrow> (32 word \<times> 32 word \<times> blockdata) list \<Rightarrow> bool" where
  "wrote s s' ws \<longleftrightarrow> bio_ok s' {} \<and> bio_frame s s' \<and>
     (\<forall>n. content s' 1 n = apply_writes ws (content s) 1 n) \<and>
     pinned s' = pinned s - wkeys ws \<and> disk s' = apply_writes ws (disk s) \<and> writes s' = writes s @ ws"

lemma frame_sel:
  assumes "bio_frame s s'"
  shows "ldev s' = ldev s" "lstart s' = lstart s" "lh_n s' = lh_n s" "lh_block s' = lh_block s"
    "lsize s' = lsize s" "outstanding s' = outstanding s" "committing s' = committing s"
  using assms by (cases s; cases s'; simp add: bio_frame_def)+

lemma frame_trans: "bio_frame s s' \<Longrightarrow> bio_frame s' s'' \<Longrightarrow> bio_frame s s''"
  by (simp add: bio_frame_def)

lemma wrote_trans:
  assumes "wrote s s' ws" "wrote s' s'' ws'"
  shows "wrote s s'' (ws @ ws')"
proof -
  have "content s'' 1 n = apply_writes (ws @ ws') (content s) 1 n" for n
    using assms apply_writes_cong [of 1 n ws' "content s'" "apply_writes ws (content s)"]
    by (auto simp: wrote_def apply_writes_append)
  moreover have "bio_frame s s''" using assms frame_trans [of s s' s''] by (simp add: wrote_def)
  ultimately show ?thesis using assms by (simp add: wrote_def apply_writes_append Diff_eq Int_assoc)
qed

lemma wrote_io: "log_io s \<Longrightarrow> wrote s s' ws \<Longrightarrow> log_io s'"
  using frame_sel(1) [of s s'] by (auto simp: log_io_def wrote_def bio_frame_def)

text \<open>The common part of the two copying loops: both buffers are held.\<close>

definition holds2 :: "'z log_st_scheme \<Rightarrow> nat \<Rightarrow> 32 word \<Rightarrow> nat \<Rightarrow> 32 word \<Rightarrow> 'z log_st_scheme \<Rightarrow> bool" where
  "holds2 s a m b n s' \<longleftrightarrow> bio_ok s' {a, b} \<and> views s s' \<and> a \<noteq> b \<and> a < NBUF \<and> b < NBUF \<and>
     bkey s' a = (1, m) \<and> bkey s' b = (1, n) \<and> b_valid (bufs s' a) \<and> b_valid (bufs s' b) \<and>
     data (bufs s' a) = content s 1 m \<and> data (bufs s' b) = content s 1 n \<and> synced s' a \<and> synced s' b"

lemma holds2_sym: "holds2 s a m b n s' \<Longrightarrow> holds2 s b n a m s'"
  by (auto simp: holds2_def insert_commute)

lemma views_sel:
  assumes "views s s'"
  shows "pinned s' = pinned s" "fault s' = fault s" "havedisk1 s' = havedisk1 s" "content s' 1 n = content s 1 n"
    "disk s' = disk s" "writes s' = writes s" "bio_frame s s'"
  using assms by (auto simp: views_def bio_frame_def)

lemma views_trans: "views s s' \<Longrightarrow> views s' s'' \<Longrightarrow> views s s''"
  by (auto simp: views_def intro: frame_trans)

lemma read_two:
  assumes io: "log_io s" and mn: "m < FSSIZE" "n < FSSIZE" "m \<noteq> n"
    and room: "(1, m) \<in> pinned s \<or> card (pinned s) < NBUF" "(1, n) \<in> pinned s \<or> card (pinned s) + 1 < NBUF"
  shows "\<exists>a s1 b s2. bread 1 m s = Ret a s1 \<and> bread 1 n s1 = Ret b s2 \<and> bio_frame s s1 \<and> holds2 s a m b n s2"
proof -
  have ok: "bio_ok s {}" "havedisk1 s" "\<not> fault s 1 k" for k using io by (auto simp: log_io_def)
  obtain a s1 where 1: "bread 1 m s = Ret a s1" "a < NBUF" "bio_ok s1 {a}" "views s s1" "bkey s1 a = (1, m)"
    "b_valid (bufs s1 a)" "data (bufs s1 a) = content s 1 m" "synced s1 a"
    using bread_ok [OF ok(1), of 1 m] ok mn(1) room(1) by auto
  have "(1, n) \<in> pinned s1 \<or> card (pinned s1) + card {a} < NBUF" "\<forall>b\<in>{a}. bkey s1 b \<noteq> (1, n)"
    using room(2) views_sel(1) [OF 1(4)] 1(5) mn(3) by auto
  then obtain b s2 where 2: "bread 1 n s1 = Ret b s2" "b < NBUF" "b \<notin> {a}" "bio_ok s2 (insert b {a})" "views s1 s2"
    "bkey s2 b = (1, n)" "b_valid (bufs s2 b)" "data (bufs s2 b) = content s1 1 n" "synced s2 b" "\<forall>c. c \<noteq> b \<longrightarrow> bufs s2 c = bufs s1 c"
    using bread_ok [OF 1(3), of 1 n] ok mn(2) views_sel(2,3) [OF 1(4)] by auto
  have "synced s2 a" using 1(8) 2(3,10) views_sel(5) [OF 2(5)] by (auto simp: synced_def)
  then have "holds2 s a m b n s2"
    using 1 2 views_trans [OF 1(4) 2(5)] views_sel(4) [OF 1(4)] by (auto simp: holds2_def insert_commute)
  then show ?thesis using 1(1) 2(1) views_sel(7) [OF 1(4)] by blast
qed

lemma copy_out:
  assumes h: "holds2 s a m b n s1"
  shows "\<exists>s'. rbind (bwrite b (upd_buf b (\<lambda>x. x\<lparr>data := data (bufs s1 a)\<rparr>) s1)) (\<lambda>_ s. rbind (brelse a s) (\<lambda>_ s. brelse b s)) = Ret () s' \<and>
     wrote s s' [(1, n, content s 1 m)]"
proof -
  let ?v = "content s 1 m"
  let ?u = "upd_buf b (\<lambda>x. x\<lparr>data := ?v\<rparr>) s1"
  have 1: "bio_ok s1 {a, b}" "views s s1" "a \<noteq> b" "a < NBUF" "b < NBUF" "bkey s1 b = (1, n)" "b_valid (bufs s1 b)"
    "data (bufs s1 a) = ?v" "synced s1 a" using h by (auto simp: holds2_def)
  have b: "b \<in> {a, b}" by simp
  note u = set_data_ok [OF 1(1) b 1(5,7), where f = ?v]
  obtain s2 where 2: "bwrite b ?u = Ret () s2" "bio_ok s2 {a, b}" "synced s2 b" "bio_frame ?u s2"
     "\<forall>e k. (e, k) \<noteq> (0, 0) \<longrightarrow> content s2 e k = content ?u e k" "pinned s2 = pinned ?u - {(1, n)}"
     "disk s2 = (disk s1)(1 := (disk s1 1)(n := ?v))" "writes s2 = writes s1 @ [(1, n, ?v)]"
     "bufs s2 = (bufs ?u)(b := (bufs ?u b)\<lparr>b_valid := True, b_dirty := False\<rparr>)"
    using bwrite_ok [OF u(1) b 1(5)] 1(6,7) by auto
  have "bkey s1 a \<noteq> (1, n)" using h bio_ok_key [OF 1(1) 1(4,5)] 1(3,6) by auto
  then have "synced s2 a" using 1(3,9) 2(7,9) by (auto simp: synced_def)
  then obtain s3 where 3: "brelse a s2 = Ret () s3" "bio_ok s3 ({a, b} - {a})" "views s2 s3" "\<forall>c. c \<noteq> a \<longrightarrow> bufs s3 c = bufs s2 c"
    using brelse_ok [OF 2(2) insertI1 1(4)] by blast
  have "synced s3 b" using 2(3) 3(3,4) 1(3) by (auto simp: synced_def views_def)
  moreover have "{a, b} - {a} = {b}" "b \<in> {b}" "{b} - {b} = {}" using 1(3) by auto
  ultimately obtain s4 where 4: "brelse b s3 = Ret () s4" "bio_ok s4 {}" "views s3 s4"
    using brelse_ok [of s3 "{b}" b] 3(2) 1(5) by auto
  have "content s4 1 k = apply_writes [(1, n, ?v)] (content s) 1 k" for k
    using views_sel(4) [OF 4(3)] views_sel(4) [OF 3(3)] 2(5) u(2) [of 1 k] 1(6) views_sel(4) [OF 1(2)] by auto
  moreover have "bio_frame s s4"
    using views_sel(7) [OF 1(2)] 2(4) views_sel(7) [OF 3(3)] views_sel(7) [OF 4(3)] by (simp add: bio_frame_def)
  ultimately have "wrote s s4 [(1, n, ?v)]"
    using 2(6-8) 4(2) u(3) views_sel [OF 3(3)] views_sel [OF 4(3)] views_sel [OF 1(2)] by (simp add: wrote_def)
  then show ?thesis using 1(8) 2(1) 3(1) 4(1) by simp
qed

abbreviation (input) lslot :: "'z log_st_scheme \<Rightarrow> nat \<Rightarrow> 32 word" where
  "lslot s i \<equiv> lstart s + of_nat i + 1"

abbreviation (input) lcount :: "'z log_st_scheme \<Rightarrow> nat" where
  "lcount s \<equiv> nat (lh_n s)"

lemma install_one_ok:
  assumes io: "log_io s" and blk: "lslot s i < FSSIZE" "lh_block s i < FSSIZE" "lslot s i \<noteq> lh_block s i"
    and room: "card (pinned s) < NBUF" "(1, lh_block s i) \<in> pinned s \<or> card (pinned s) + 1 < NBUF"
  shows "\<exists>s'. install_one i s = Ret () s' \<and> wrote s s' [(1, lh_block s i, content s 1 (lslot s i))]"
proof -
  obtain a s1 b s2 where 1: "bread 1 (lslot s i) s = Ret a s1" "bread 1 (lh_block s i) s1 = Ret b s2" "bio_frame s s1"
    "holds2 s a (lslot s i) b (lh_block s i) s2" using read_two [OF io blk] room by blast
  then show ?thesis
    using copy_out [OF 1(4)] io frame_sel [OF 1(3)] by (simp add: install_one_def log_io_def)
qed

lemma write_one_ok:
  assumes io: "log_io s" and blk: "lslot s i < FSSIZE" "lh_block s i < FSSIZE" "lslot s i \<noteq> lh_block s i"
    and room: "card (pinned s) < NBUF" "(1, lh_block s i) \<in> pinned s \<or> card (pinned s) + 1 < NBUF"
  shows "\<exists>s'. write_one i s = Ret () s' \<and> wrote s s' [(1, lslot s i, content s 1 (lh_block s i))]"
proof -
  obtain a s1 b s2 where 1: "bread 1 (lslot s i) s = Ret a s1" "bread 1 (lh_block s i) s1 = Ret b s2" "bio_frame s s1"
    "holds2 s a (lslot s i) b (lh_block s i) s2" using read_two [OF io blk] room by blast
  then show ?thesis
    using copy_out [OF holds2_sym [OF 1(4)]] io frame_sel [OF 1(3)] by (simp add: write_one_def log_io_def)
qed

lemma copy_loop:
  assumes ok: "bio_ok s {}" and away: "\<forall>i<k. src i \<notin> dst ` {..<k}"
    and step: "\<And>i s'. i < k \<Longrightarrow> wrote s s' (map (\<lambda>i. (1, dst i, content s 1 (src i))) [0..<i]) \<Longrightarrow>
      \<exists>s''. f i s' = Ret () s'' \<and> wrote s' s'' [(1, dst i, content s' 1 (src i))]"
  shows "\<exists>s'. for_each f [0..<k] s = Ret () s' \<and> wrote s s' (map (\<lambda>i. (1, dst i, content s 1 (src i))) [0..<k])"
  using away step
proof (induction k)
  case 0
  then show ?case using ok by (simp add: wrote_def bio_frame_def)
next
  case (Suc k)
  let ?w = "\<lambda>k. map (\<lambda>i. (1, dst i, content s 1 (src i))) [0..<k]"
  have "src i \<notin> dst ` {..<k}" if "i < k" for i
    using Suc.prems(1) [rule_format, of i] that by (auto simp: lessThan_Suc)
  then have "\<forall>i<k. src i \<notin> dst ` {..<k}" by blast
  then obtain s1 where 1: "for_each f [0..<k] s = Ret () s1" "wrote s s1 (?w k)"
    using Suc.IH [OF _ Suc.prems(2)] by (meson less_SucI)
  then obtain s2 where 2: "f k s1 = Ret () s2" "wrote s1 s2 [(1, dst k, content s1 1 (src k))]"
    using Suc.prems(2) by blast
  have "(1, src k) \<notin> wkeys (?w k)" using Suc.prems(1) by (auto simp: wkeys_set)
  then have "content s1 1 (src k) = content s 1 (src k)" using 1(2) by (simp add: wrote_def apply_writes_other)
  then have "wrote s s2 (?w (Suc k))" using wrote_trans [OF 1(2) 2(2)] by simp
  then show ?case using 1(1) 2(1) by (simp add: for_each_append)
qed

text \<open>
  \<open>log_wf s\<close>: the header in memory is in order: at most 29 blocks, all different, none of them in the
  log's own area, which lies within the drive.
\<close>

definition log_wf :: "'z log_st_scheme \<Rightarrow> bool" where
  "log_wf s \<longleftrightarrow> 0 \<le> lh_n s \<and> lcount s < NBUF \<and> unat (lstart s) + lcount s < 1000 \<and>
     inj_on (lh_block s) {..<lcount s} \<and>
     (\<forall>i<lcount s. lh_block s i < FSSIZE \<and> (unat (lh_block s i) < unat (lstart s) \<or> unat (lstart s) + lcount s < unat (lh_block s i)))"

lemma lslot_unat:
  assumes "unat (lstart s) + k < 1000" "i < k"
  shows "unat (lslot s i) = unat (lstart s) + i + 1"
proof -
  have i: "unat (of_nat (i + 1) :: 32 word) = i + 1" using assms by (simp add: unat_of_nat del: of_nat_Suc)
  then have "unat (lstart s + of_nat (i + 1)) = unat (lstart s) + (i + 1)"
    using assms unat_add_lem [of "lstart s" "of_nat (i + 1)"] by (simp del: of_nat_add of_nat_Suc)
  then show ?thesis by (simp add: ac_simps)
qed

lemma log_wf_slots:
  assumes wf: "log_wf s"
  shows "i < lcount s \<Longrightarrow> lslot s i < FSSIZE"
    and "i < lcount s \<Longrightarrow> lslot s i \<noteq> lstart s"
    and "i < lcount s \<Longrightarrow> j < lcount s \<Longrightarrow> lslot s i \<noteq> lh_block s j"
    and "i < lcount s \<Longrightarrow> lh_block s i < FSSIZE"
    and "i < lcount s \<Longrightarrow> lh_block s i \<noteq> lstart s"
    and "inj_on (\<lambda>i. lslot s i) {..<lcount s}"
    and "lstart s < FSSIZE"
proof -
  have k: "unat (lstart s) + lcount s < 1000" using wf by (simp add: log_wf_def)
  note u = lslot_unat [OF k]
  show "lslot s i < FSSIZE" if "i < lcount s" using u [OF that] k that by (simp add: word_less_nat_alt)
  show "lslot s i \<noteq> lstart s" if "i < lcount s"
  proof
    assume "lslot s i = lstart s"
    then have "unat (lslot s i) = unat (lstart s)" by (rule arg_cong)
    then show False using u [OF that] by simp
  qed
  show "lslot s i \<noteq> lh_block s j" if "i < lcount s" "j < lcount s"
    using u [OF that(1)] wf that by (fastforce simp: log_wf_def)
  show "lh_block s i < FSSIZE" "lh_block s i \<noteq> lstart s" if "i < lcount s" using wf that by (auto simp: log_wf_def)
  show "inj_on (\<lambda>i. lslot s i) {..<lcount s}"
  proof (rule inj_onI)
    fix i j assume ij: "i \<in> {..<lcount s}" "j \<in> {..<lcount s}" "lslot s i = lslot s j"
    from ij(3) have "unat (lslot s i) = unat (lslot s j)" by (rule arg_cong)
    moreover have "unat (lslot s i) = unat (lstart s) + i + 1" "unat (lslot s j) = unat (lstart s) + j + 1"
      using u ij(1,2) by blast+
    ultimately show "i = j" by linarith
  qed
  show "lstart s < FSSIZE" using k by (simp add: word_less_nat_alt)
qed

lemma write_head_ok:
  assumes io: "log_io s" and start: "lstart s < FSSIZE" and room: "card (pinned s) < NBUF"
  shows "\<exists>s'. write_head s = Ret () s' \<and>
     wrote s s' [(1, lstart s, put_header (lh_n s) (lh_block s) (content s 1 (lstart s)))]"
proof -
  have ok: "bio_ok s {}" "havedisk1 s" "\<not> fault s 1 (lstart s)" "ldev s = 1" using io by (auto simp: log_io_def)
  obtain b s1 where 1: "bread 1 (lstart s) s = Ret b s1" "views s s1"
    using bread_ok [OF ok(1), of 1 "lstart s"] ok start room by auto
  have "write_head s = put_block 1 (lstart s) (put_header (lh_n s) (lh_block s)) s"
    using 1(1) ok(4) frame_sel [OF views_sel(7) [OF 1(2)]] by (simp add: write_head_def put_block_def)
  then show ?thesis
    using put_block_ok [OF ok(1) _ _ start _ ok(3), of "put_header (lh_n s) (lh_block s)"] ok room
    by (auto simp: wrote_def)
qed

lemma put_header_n:
  assumes "0 \<le> n" "n < 2 ^ 31"
  shows "sint (rd32 (put_header n blk d) 0) = n"
proof -
  have "rd32 (fold (\<lambda>i. wr32 (4 + 4 * i) (blk i)) is e) 0 = rd32 e 0" for "is" e
    by (induction "is" arbitrary: e) (auto simp: rd32_wr32_other)
  then have "rd32 (put_header n blk d) 0 = word_of_int n" by (simp add: put_header_def)
  then show ?thesis using assms by (simp add: signed_of_int signed_take_bit_int_eq_self)
qed

lemma put_header_block:
  assumes "int i < n"
  shows "rd32 (put_header n blk d) (4 + 4 * i) = blk i"
proof -
  have "rd32 (fold (\<lambda>j. wr32 (4 + 4 * j) (blk j)) [0..<k] e) (4 + 4 * i) = blk i" if "i < k" for k e
    using that
  proof (induction k)
    case (Suc k)
    then show ?case by (cases "i = k") (auto simp: rd32_wr32_other)
  qed simp
  then show ?thesis using assms by (simp add: put_header_def)
qed

definition log_blocks :: "'z log_st_scheme \<Rightarrow> (32 word \<times> 32 word) set" where
  "log_blocks s = (\<lambda>i. (1, lh_block s i)) ` {..<lcount s}"

lemma card_log_blocks: "card (log_blocks s) \<le> lcount s"
  using card_image_le [of "{..<lcount s}" "\<lambda>i. (1, lh_block s i)"] by (simp add: log_blocks_def)

lemma wrote_room:
  assumes "log_wf s" "pinned s \<subseteq> log_blocks s" "wrote s s' ws"
  shows "card (pinned s') < NBUF"
proof -
  have "card (pinned s') \<le> card (log_blocks s)"
    using assms(2,3) by (intro card_mono) (auto simp: wrote_def log_blocks_def)
  then show ?thesis using card_log_blocks [of s] assms(1) by (simp add: log_wf_def)
qed

lemma wrote_self: "bio_ok s {} \<Longrightarrow> wrote s s []"
  by (simp add: wrote_def bio_frame_def)

text \<open>The disk writes of the two loops.\<close>

definition log_ws :: "'z log_st_scheme \<Rightarrow> (nat \<Rightarrow> blockdata) \<Rightarrow> (32 word \<times> 32 word \<times> blockdata) list" where
  "log_ws s v = map (\<lambda>i. (1, lslot s i, v i)) [0..<lcount s]"

definition home_ws :: "'z log_st_scheme \<Rightarrow> (nat \<Rightarrow> blockdata) \<Rightarrow> (32 word \<times> 32 word \<times> blockdata) list" where
  "home_ws s v = map (\<lambda>i. (1, lh_block s i, v i)) [0..<lcount s]"

lemma write_log_ok:
  assumes io: "log_io s" and wf: "log_wf s" and pin: "pinned s = log_blocks s"
  shows "\<exists>s'. write_log s = Ret () s' \<and> wrote s s' (log_ws s (\<lambda>i. content s 1 (lh_block s i)))"
  unfolding write_log_def log_ws_def
proof (rule copy_loop)
  show "bio_ok s {}" using io by (simp add: log_io_def)
  show "\<forall>i<lcount s. lh_block s i \<notin> (\<lambda>i. lslot s i) ` {..<lcount s}"
    using log_wf_slots(3) [OF wf] by (metis (no_types, lifting) imageE lessThan_iff)
next
  fix i s'
  assume i: "i < lcount s" and w: "wrote s s' (map (\<lambda>i. (1, lslot s i, content s 1 (lh_block s i))) [0..<i])"
  have f: "bio_frame s s'" using w by (simp add: wrote_def)
  have "(1, lh_block s i) \<notin> wkeys (map (\<lambda>i. (1, lslot s i, content s 1 (lh_block s i))) [0..<i])"
  proof
    assume "(1, lh_block s i) \<in> wkeys (map (\<lambda>i. (1, lslot s i, content s 1 (lh_block s i))) [0..<i])"
    then obtain j where "j < i" "lslot s j = lh_block s i" by (auto simp: wkeys_set)
    then show False using log_wf_slots(3) [OF wf, of j i] i by simp
  qed
  then have "(1, lh_block s i) \<in> pinned s'" using w pin i by (auto simp: wrote_def log_blocks_def)
  then show "\<exists>s''. write_one i s' = Ret () s'' \<and> wrote s' s'' [(1, lslot s i, content s' 1 (lh_block s i))]"
    using write_one_ok [OF wrote_io [OF io w], of i] log_wf_slots(1,4) [OF wf i] log_wf_slots(3) [OF wf i i]
      wrote_room [OF wf _ w] pin frame_sel [OF f] by simp
qed

lemma install_trans_ok:
  assumes io: "log_io s" and wf: "log_wf s" and pin: "pinned s = log_blocks s \<or> pinned s = {}"
  shows "\<exists>s'. install_trans s = Ret () s' \<and> wrote s s' (home_ws s (\<lambda>i. content s 1 (lslot s i)))"
  unfolding install_trans_def home_ws_def
proof (rule copy_loop)
  show "bio_ok s {}" using io by (simp add: log_io_def)
  show "\<forall>i<lcount s. lslot s i \<notin> lh_block s ` {..<lcount s}"
    using log_wf_slots(3) [OF wf] by (metis (no_types, lifting) imageE lessThan_iff)
next
  fix i s'
  assume i: "i < lcount s" and w: "wrote s s' (map (\<lambda>i. (1, lh_block s i, content s 1 (lslot s i))) [0..<i])"
  have f: "bio_frame s s'" using w by (simp add: wrote_def)
  have "lh_block s j \<noteq> lh_block s i" if "j < i" for j
    using wf i that by (auto simp: log_wf_def dest: inj_onD)
  then have "(1, lh_block s i) \<notin> wkeys (map (\<lambda>i. (1, lh_block s i, content s 1 (lslot s i))) [0..<i])"
    by (fastforce simp: wkeys_set)
  then have "(1, lh_block s i) \<in> pinned s' \<or> pinned s' = {}" using w pin i by (auto simp: wrote_def log_blocks_def)
  then show "\<exists>s''. install_one i s' = Ret () s'' \<and> wrote s' s'' [(1, lh_block s i, content s' 1 (lslot s i))]"
    using install_one_ok [OF wrote_io [OF io w], of i] log_wf_slots(1,4) [OF wf i] log_wf_slots(3) [OF wf i i]
      wrote_room [OF wf _ w] pin frame_sel [OF f] by auto
qed

lemma bio_ok_cong:
  assumes "bufs s' = bufs s" "bnext s' = bnext s" "bprev s' = bprev s" "idequeue s' = idequeue s"
    "havedisk1 s' = havedisk1 s" "disk s' = disk s" "mypid s' = mypid s"
  shows "bio_ok s' H = bio_ok s H"
proof -
  have "lru s' xs = lru s xs" for xs using assms by (simp add: lru_def)
  moreover have "buf_ok s' H b = buf_ok s H b" for b using assms by (simp add: buf_ok_def synced_def)
  moreover have "keys_ok s' = keys_ok s" using assms by (simp add: keys_ok_def)
  ultimately show ?thesis using assms by (simp add: bio_ok_def)
qed

lemma view_lh_n [simp]:
  "bio_ok (s\<lparr>lh_n := k\<rparr>) H = bio_ok s H" "content (s\<lparr>lh_n := k\<rparr>) = content s" "pinned (s\<lparr>lh_n := k\<rparr>) = pinned s"
  by (rule bio_ok_cong, simp_all add: mypid_def, intro ext, rule content_cong [THEN fun_cong], simp_all, rule pinned_cong, simp)

lemma view_lh_block [simp]:
  "bio_ok (s\<lparr>lh_block := k\<rparr>) H = bio_ok s H" "content (s\<lparr>lh_block := k\<rparr>) = content s" "pinned (s\<lparr>lh_block := k\<rparr>) = pinned s"
  by (rule bio_ok_cong, simp_all add: mypid_def, intro ext, rule content_cong [THEN fun_cong], simp_all, rule pinned_cong, simp)

lemma wrote_lh_n:
  assumes "wrote s s' ws"
  shows "wrote (s\<lparr>lh_n := k\<rparr>) (s'\<lparr>lh_n := k\<rparr>) ws"
proof -
  have "bio_frame (s\<lparr>lh_n := k\<rparr>) (s'\<lparr>lh_n := k\<rparr>)"
    using assms by (cases s; cases s') (simp add: wrote_def bio_frame_def mypid_def)
  then show ?thesis using assms by (simp add: wrote_def)
qed

lemma log_wf_frame:
  assumes "bio_frame s s'"
  shows "log_wf s' = log_wf s" "log_blocks s' = log_blocks s" "home_ws s' v = home_ws s v" "log_ws s' v = log_ws s v"
  using frame_sel [OF assms] by (simp_all add: log_wf_def log_blocks_def home_ws_def log_ws_def)

lemma wkeys_ws:
  "wkeys (log_ws s v) = (\<lambda>i. (1, lslot s i)) ` {..<lcount s}" "wkeys (home_ws s v) = log_blocks s"
  by (simp_all add: wkeys_set log_ws_def home_ws_def log_blocks_def image_image atLeast0LessThan)

lemma log_ws_in:
  assumes "log_wf s" "i < lcount s"
  shows "apply_writes (log_ws s v) D 1 (lslot s i) = v i"
proof (rule apply_writes_in)
  show "distinct (map wkey (log_ws s v))"
    using log_wf_slots(6) [OF assms(1)] by (simp add: log_ws_def distinct_map comp_def inj_on_def atLeast0LessThan)
  show "(1, lslot s i, v i) \<in> set (log_ws s v)" using assms(2) by (auto simp: log_ws_def)
qed

lemma home_ws_in:
  assumes "log_wf s" "i < lcount s"
  shows "apply_writes (home_ws s v) D 1 (lh_block s i) = v i"
proof (rule apply_writes_in)
  show "distinct (map wkey (home_ws s v))"
    using assms(1) by (simp add: log_wf_def home_ws_def distinct_map comp_def inj_on_def atLeast0LessThan)
  show "(1, lh_block s i, v i) \<in> set (home_ws s v)" using assms(2) by (auto simp: home_ws_def)
qed

text \<open>Everything \<^verbatim>\<open>commit\<close> writes to the drive, in order.\<close>

definition commit_ws :: "'z log_st_scheme \<Rightarrow> (32 word \<times> 32 word \<times> blockdata) list" where
  "commit_ws s =
     (let v = (\<lambda>i. content s 1 (lh_block s i));
          h = put_header (lh_n s) (lh_block s) (content s 1 (lstart s))
      in log_ws s v @ [(1, lstart s, h)] @ home_ws s v @ [(1, lstart s, put_header 0 (lh_block s) h)])"

lemma home_ws_cong: "(\<And>i. i < lcount s \<Longrightarrow> v i = v' i) \<Longrightarrow> home_ws s v = home_ws s v'"
  by (simp add: home_ws_def)

lemma commit_ok:
  assumes io: "log_io s" and wf: "log_wf s" and pin: "pinned s = log_blocks s" and pos: "lh_n s > 0"
  shows "\<exists>s'. commit s = Ret () s' \<and> wrote (s\<lparr>lh_n := 0\<rparr>) s' (commit_ws s)"
proof -
  let ?v = "\<lambda>i. content s 1 (lh_block s i)" and ?h = "put_header (lh_n s) (lh_block s) (content s 1 (lstart s))"
  have start: "lstart s < FSSIZE" by (rule log_wf_slots [OF wf])
  obtain s1 where 1: "write_log s = Ret () s1" "wrote s s1 (log_ws s ?v)" using write_log_ok [OF io wf pin] by blast
  have f1: "bio_frame s s1" using 1(2) by (simp add: wrote_def)
  have "(1, lstart s) \<notin> wkeys (log_ws s ?v)" using log_wf_slots(2) [OF wf] by (fastforce simp: wkeys_ws)
  then have "content s1 1 (lstart s) = content s 1 (lstart s)" using 1(2) by (simp add: wrote_def apply_writes_other)
  then obtain s2 where 2: "write_head s1 = Ret () s2" "wrote s1 s2 [(1, lstart s, ?h)]"
    using write_head_ok [OF wrote_io [OF io 1(2)]] wrote_room [OF wf _ 1(2)] pin start frame_sel [OF f1] by auto
  note w2 = wrote_trans [OF 1(2) 2(2)]
  have f2: "bio_frame s s2" using w2 by (simp add: wrote_def)
  have "pinned s2 = log_blocks s"
  proof -
    have "(1, lh_block s i) \<notin> wkeys (log_ws s ?v @ [(1, lstart s, ?h)])" if "i < lcount s" for i
      using log_wf_slots(3,5) [OF wf] that by (fastforce simp: wkeys_ws)
    then show ?thesis using w2 pin by (auto simp: wrote_def log_blocks_def)
  qed
  then obtain s3 where 3: "install_trans s2 = Ret () s3" "wrote s2 s3 (home_ws s (\<lambda>i. content s2 1 (lslot s i)))"
    using install_trans_ok [OF wrote_io [OF io w2]] wf log_wf_frame [OF f2] frame_sel [OF f2] by auto
  have "content s2 1 (lslot s i) = ?v i" if "i < lcount s" for i
    using w2 log_ws_in [OF wf that] log_wf_slots(2) [OF wf that] by (simp add: wrote_def apply_writes_append)
  then have "home_ws s (\<lambda>i. content s2 1 (lslot s i)) = home_ws s ?v" by (rule home_ws_cong)
  then have 3: "install_trans s2 = Ret () s3" "wrote s2 s3 (home_ws s ?v)" using 3 by simp_all
  note w3 = wrote_trans [OF w2 3(2)]
  have f3: "bio_frame s s3" using w3 by (simp add: wrote_def)
  have "(1, lstart s) \<notin> wkeys (home_ws s ?v)" using log_wf_slots(5) [OF wf] by (fastforce simp: wkeys_ws log_blocks_def)
  then have h3: "content s3 1 (lstart s) = ?h" using w3 by (simp add: wrote_def apply_writes_append apply_writes_other)
  have io3: "log_io (s3\<lparr>lh_n := 0\<rparr>)" using wrote_io [OF io w3] by (simp add: log_io_def)
  obtain s4 where 4: "write_head (s3\<lparr>lh_n := 0\<rparr>) = Ret () s4" "wrote (s3\<lparr>lh_n := 0\<rparr>) s4 [(1, lstart s, put_header 0 (lh_block s) ?h)]"
    using write_head_ok [OF io3] start wrote_room [OF wf _ w3] pin frame_sel [OF f3] h3 by auto
  have "wrote (s\<lparr>lh_n := 0\<rparr>) (s3\<lparr>lh_n := 0\<rparr>) (log_ws s ?v @ [(1, lstart s, ?h)] @ home_ws s ?v)"
    using wrote_lh_n [OF w3] by simp
  from wrote_trans [OF this 4(2)] show ?thesis
    using 1(1) 2(1) 3(1) 4(1) pos by (simp add: commit_def commit_ws_def Let_def)
qed

subsection \<open>Recovery\<close>

lemma content_unpinned:
  assumes "bio_ok s {}" "(d, n) \<noteq> (0, 0)" "(d, n) \<notin> pinned s"
  shows "content s d n = disk s d n"
proof (cases "buf_of s d n")
  case (Some b)
  then have b: "b < NBUF" "bkey s b = (d, n)" using buf_of_SomeD by auto
  then have "\<not> b_dirty (bufs s b)" using assms(3) by (auto simp: pinned_def)
  then show ?thesis
    using content_buf [OF assms(1) b assms(2)] bio_ok_buf [OF assms(1) b(1)] b(2) by (auto simp: buf_ok_def synced_def)
qed (simp add: content_none)

lemma views_lh:
  assumes "views s s'"
  shows "views (s\<lparr>lh_n := k, lh_block := f\<rparr>) (s'\<lparr>lh_n := k, lh_block := f\<rparr>)"
proof -
  have "bio_frame (s\<lparr>lh_n := k, lh_block := f\<rparr>) (s'\<lparr>lh_n := k, lh_block := f\<rparr>)"
    using assms by (cases s; cases s') (simp add: views_def bio_frame_def mypid_def)
  then show ?thesis using assms by (simp add: views_def)
qed

definition head_blocks :: "blockdata \<Rightarrow> int \<Rightarrow> (nat \<Rightarrow> 32 word) \<Rightarrow> nat \<Rightarrow> 32 word" where
  "head_blocks h n f = fold (\<lambda>i f. f(i := rd32 h (4 + 4 * i))) [0..<nat n] f"

lemma head_blocks_eq: "head_blocks h n f i = (if i < nat n then rd32 h (4 + 4 * i) else f i)"
proof -
  have "fold (\<lambda>i f. f(i := rd32 h (4 + 4 * i))) [0..<k] f i = (if i < k then rd32 h (4 + 4 * i) else f i)" for k
    by (induction k) (auto simp: less_Suc_eq)
  then show ?thesis by (simp add: head_blocks_def)
qed

lemma read_head_ok:
  assumes io: "log_io t" and start: "lstart t < FSSIZE" and room: "card (pinned t) < NBUF"
  defines "h \<equiv> content t 1 (lstart t)"
  shows "\<exists>t'. read_head t = Ret () t' \<and>
     wrote (t\<lparr>lh_n := sint (rd32 h 0), lh_block := head_blocks h (sint (rd32 h 0)) (lh_block t)\<rparr>) t' []"
proof -
  have ok: "bio_ok t {}" "havedisk1 t" "\<not> fault t 1 (lstart t)" "ldev t = 1" using io by (auto simp: log_io_def)
  obtain b s1 where 1: "bread 1 (lstart t) t = Ret b s1" "b < NBUF" "bio_ok s1 {b}" "views t s1" "data (bufs s1 b) = h" "synced s1 b"
    using bread_ok [OF ok(1), of 1 "lstart t"] ok start room by (auto simp: h_def)
  let ?k = "sint (rd32 h 0)" let ?f = "head_blocks h ?k (lh_block t)"
  let ?u = "s1\<lparr>lh_n := ?k, lh_block := ?f\<rparr>"
  have "bio_ok ?u {b}" "synced ?u b" using 1 by (simp_all add: synced_def)
  then obtain t' where 2: "brelse b ?u = Ret () t'" "bio_ok t' {}" "views ?u t'"
    using brelse_ok [of ?u "{b}" b] 1(2) by auto
  have "views (t\<lparr>lh_n := ?k, lh_block := ?f\<rparr>) t'" using views_trans [OF views_lh [OF 1(4)] 2(3)] .
  then have "wrote (t\<lparr>lh_n := ?k, lh_block := ?f\<rparr>) t' []" using 2(2) by (simp add: wrote_def views_def)
  moreover have "lh_block s1 = lh_block t" using frame_sel [OF views_sel(7) [OF 1(4)]] by simp
  ultimately show ?thesis using 1 2(1) ok(4) by (simp add: read_head_def Let_def head_blocks_def)
qed

lemma recover_ok:
  assumes io: "log_io t" and pin: "pinned t = {}" and start: "lstart t < FSSIZE"
  defines "h \<equiv> disk t 1 (lstart t)"
  defines "s0 \<equiv> t\<lparr>lh_n := sint (rd32 h 0), lh_block := head_blocks h (sint (rd32 h 0)) (lh_block t)\<rparr>"
  assumes wf: "log_wf s0"
  shows "\<exists>t' w. recover_from_log t = Ret () t' \<and> bio_ok t' {} \<and> pinned t' = {} \<and> lh_n t' = 0 \<and>
     disk t' = apply_writes (home_ws s0 (\<lambda>i. disk t 1 (lslot t i)) @ [(1, lstart t, put_header 0 (lh_block s0) w)]) (disk t)"
proof -
  have c: "content t 1 n = disk t 1 n" for n using io pin by (intro content_unpinned) (auto simp: log_io_def)
  obtain t1 where 1: "read_head t = Ret () t1" "wrote s0 t1 []"
    using read_head_ok [OF io start] pin by (auto simp: s0_def h_def c)
  have io0: "log_io s0" using io by (simp add: log_io_def s0_def)
  have f1: "bio_frame s0 t1" using 1(2) by (simp add: wrote_def)
  have "pinned s0 = {}" using pin by (simp add: s0_def)
  then have p1: "pinned t1 = {}" using 1(2) by (simp add: wrote_def)
  obtain t2 where 2: "install_trans t1 = Ret () t2" "wrote t1 t2 (home_ws s0 (\<lambda>i. content t1 1 (lslot t1 i)))"
    using install_trans_ok [OF wrote_io [OF io0 1(2)]] wf log_wf_frame [OF f1] p1 by auto
  have "content t1 1 (lslot t1 i) = disk t 1 (lslot t i)" for i
    using 1(2) frame_sel [OF f1] c by (simp add: wrote_def s0_def)
  then have 2: "install_trans t1 = Ret () t2" "wrote t1 t2 (home_ws s0 (\<lambda>i. disk t 1 (lslot t i)))" using 2 by simp_all
  note w2 = wrote_trans [OF 1(2) 2(2)]
  have f2: "bio_frame s0 t2" using w2 by (simp add: wrote_def)
  let ?u = "t2\<lparr>lh_n := 0\<rparr>"
  have "log_io ?u" using wrote_io [OF io0 w2] by (simp add: log_io_def)
  moreover have pu: "pinned ?u = {}" using w2 \<open>pinned s0 = {}\<close> by (simp add: wrote_def)
  ultimately obtain t3 where 3: "write_head ?u = Ret () t3" "wrote ?u t3 [(1, lstart t, put_header 0 (lh_block s0) (content ?u 1 (lstart t)))]"
    using write_head_ok [of ?u] start frame_sel [OF f2] by (auto simp: s0_def)
  have "bio_frame ?u t3" using 3(2) by (simp add: wrote_def)
  then have "lh_n t3 = 0" using frame_sel(3) by fastforce
  then show ?thesis
    using 1(1) 2(1) 3 w2 pu
    by (intro exI [of _ t3] exI [of _ "content ?u 1 (lstart t)"])
      (auto simp: recover_from_log_def wrote_def apply_writes_append s0_def)
qed

lemma view_lsb [simp]:
  "bio_ok (s\<lparr>lstart := a, lsize := b, ldev := c\<rparr>) H = bio_ok s H" "content (s\<lparr>lstart := a, lsize := b, ldev := c\<rparr>) = content s"
  "pinned (s\<lparr>lstart := a, lsize := b, ldev := c\<rparr>) = pinned s"
  by (rule bio_ok_cong, simp_all add: mypid_def, intro ext, rule content_cong [THEN fun_cong], simp_all, rule pinned_cong, simp)

lemma readsb_ok:
  assumes ok: "bio_ok t {}" "havedisk1 t" "\<not> fault t 1 1" and room: "card (pinned t) < NBUF"
  shows "\<exists>t'. readsb 1 t = Ret (rd_sb (content t 1 1)) t' \<and> bio_ok t' {} \<and> views t t'"
proof -
  obtain b s1 where 1: "bread 1 1 t = Ret b s1" "b < NBUF" "bio_ok s1 {b}" "views t s1" "data (bufs s1 b) = content t 1 1" "synced s1 b"
    using bread_ok [OF ok(1), of 1 1] ok room by auto
  then obtain t' where "brelse b s1 = Ret () t'" "bio_ok t' {}" "views s1 t'"
    using brelse_ok [of s1 "{b}" b] by auto
  then show ?thesis using 1 views_trans [OF 1(4)] by (auto simp: readsb_def)
qed

text \<open>
  A machine that starts after a crash: nothing is cached, and the drive is as the first \<open>k\<close> of the writes
  \<open>ws\<close> left it.
\<close>

definition crashed :: "'z log_st_scheme \<Rightarrow> (32 word \<times> 32 word \<times> blockdata) list \<Rightarrow> nat \<Rightarrow> 'z log_st_scheme \<Rightarrow> bool" where
  "crashed s ws k t \<longleftrightarrow> bio_ok t {} \<and> pinned t = {} \<and> havedisk1 t \<and> (\<forall>n. \<not> fault t 1 n) \<and>
     disk t = apply_writes (take k ws) (disk s)"

text \<open>Blocks outside the log's own area; the superblock is one of them and is never logged.\<close>

definition outside :: "'z log_st_scheme \<Rightarrow> 32 word \<Rightarrow> bool" where
  "outside s n \<longleftrightarrow> unat n < unat (lstart s) \<or> unat (lstart s) + lcount s < unat n"

definition log_idle :: "'z log_st_scheme \<Rightarrow> bool" where
  "log_idle s \<longleftrightarrow> sint (rd32 (disk s 1 (lstart s)) 0) = 0 \<and> logstart (rd_sb (disk s 1 1)) = lstart s \<and>
     outside s 1 \<and> (\<forall>i<lcount s. lh_block s i \<noteq> 1)"

lemma outside_slots:
  assumes "log_wf s" "outside s n"
  shows "n \<noteq> lstart s" "i < lcount s \<Longrightarrow> n \<noteq> lslot s i"
proof -
  have k: "unat (lstart s) + lcount s < 1000" using assms(1) by (simp add: log_wf_def)
  show "n \<noteq> lstart s" using assms(2) by (auto simp: outside_def)
  show "n \<noteq> lslot s i" if "i < lcount s"
  proof
    assume "n = lslot s i"
    then have "unat n = unat (lstart s) + i + 1" using lslot_unat [OF k that] by simp
    then show False using assms(2) that by (auto simp: outside_def)
  qed
qed

lemma initlog_ok:
  assumes t: "bio_ok t {}" "havedisk1 t" "\<forall>n. \<not> fault t 1 n" "pinned t = {}"
    and start: "logstart (rd_sb (disk t 1 1)) = lstart s" "lstart s < FSSIZE"
  defines "h \<equiv> disk t 1 (lstart s)"
  assumes wf: "log_wf s" and n: "sint (rd32 h 0) = lh_n s" and blk: "\<And>i. i < lcount s \<Longrightarrow> rd32 h (4 + 4 * i) = lh_block s i"
  shows "\<exists>t' w. initlog 1 t = Ret () t' \<and>
     disk t' = apply_writes (home_ws s (\<lambda>i. disk t 1 (lslot s i)) @ [(1, lstart s, w)]) (disk t)"
proof -
  have c: "content t 1 m = disk t 1 m" for m using t by (intro content_unpinned) auto
  obtain t1 where 1: "readsb 1 t = Ret (rd_sb (disk t 1 1)) t1" "bio_ok t1 {}" "views t t1"
    using readsb_ok [OF t(1,2)] t(3,4) c by auto
  let ?u = "t1\<lparr>lstart := lstart s, lsize := sint (nlog (rd_sb (disk t 1 1))), ldev := 1\<rparr>"
  let ?s0 = "?u\<lparr>lh_n := sint (rd32 (disk ?u 1 (lstart ?u)) 0), lh_block := head_blocks (disk ?u 1 (lstart ?u)) (sint (rd32 (disk ?u 1 (lstart ?u)) 0)) (lh_block ?u)\<rparr>"
  note v = views_sel [OF 1(3)]
  have io: "log_io ?u" using 1(2) t v by (simp add: log_io_def)
  have f: "lh_n ?s0 = lh_n s" "lstart ?s0 = lstart s" "\<And>i. i < lcount s \<Longrightarrow> lh_block ?s0 i = lh_block s i"
    using n blk v(5) by (simp_all add: h_def head_blocks_eq)
  then have "log_wf ?s0" using wf unfolding log_wf_def by (simp add: inj_on_def)
  moreover have "home_ws ?s0 x = home_ws s x" for x using f by (simp add: home_ws_def)
  ultimately show ?thesis
    using recover_ok [OF io] 1(1) start v t(4) by (auto simp: initlog_def)
qed

text \<open>The drive after \<open>k\<close> of the writes of \<^verbatim>\<open>commit\<close>: before the header is written, after it, and at the end.\<close>

lemma take_commit_ws:
  fixes s :: "'z log_st_scheme"
  defines "v \<equiv> \<lambda>i. content s 1 (lh_block s i)"
  defines "h \<equiv> put_header (lh_n s) (lh_block s) (content s 1 (lstart s))"
  obtains (log) "k \<le> lcount s" "take k (commit_ws s) = take k (log_ws s v)"
  | (home) j where "k > lcount s" "j \<le> lcount s" "take k (commit_ws s) = log_ws s v @ [(1, lstart s, h)] @ take j (home_ws s v)"
  | (all) "k > lcount s" "take k (commit_ws s) = commit_ws s"
proof -
  let ?N = "lcount s"
  have len: "length (log_ws s v) = ?N" "length (home_ws s v) = ?N" by (simp_all add: log_ws_def home_ws_def)
  consider "k \<le> ?N" | "?N < k" "k \<le> ?N + 1 + ?N" | "?N + 1 + ?N < k" by linarith
  then show thesis
  proof cases
    case 1
    then show thesis using log len by (simp add: commit_ws_def Let_def v_def)
  next
    case 2
    then obtain j where "k = ?N + 1 + j" "j \<le> ?N" by (metis Suc_eq_plus1 Suc_leI add.commute add_le_cancel_left le_Suc_ex)
    then show thesis using 2 home [of j] len by (simp add: commit_ws_def Let_def v_def h_def)
  next
    case 3
    then show thesis using all len by (simp add: commit_ws_def Let_def v_def h_def)
  qed
qed

lemma wkeys_take: "wkeys (take k ws) \<subseteq> wkeys ws"
  by (auto simp: wkeys_set dest: in_set_takeD)

lemma home_ws_new:
  assumes io: "log_io s" and wf: "log_wf s" and pin: "pinned s = log_blocks s" and n: "outside s n"
    and D: "\<And>m. (1, m) \<notin> log_blocks s \<Longrightarrow> outside s m \<Longrightarrow> D 1 m = disk s 1 m"
  shows "apply_writes (home_ws s (\<lambda>i. content s 1 (lh_block s i))) D 1 n = content s 1 n"
proof (cases "(1, n) \<in> log_blocks s")
  case True
  then obtain i where "i < lcount s" "n = lh_block s i" by (auto simp: log_blocks_def)
  then show ?thesis using home_ws_in [OF wf] by simp
next
  case False
  then have "content s 1 n = disk s 1 n" using io pin by (intro content_unpinned) (auto simp: log_io_def)
  then show ?thesis using False D n by (simp add: apply_writes_other wkeys_ws)
qed

lemma log_wf_0: "log_wf s \<Longrightarrow> log_wf (s\<lparr>lh_n := 0\<rparr>)"
  by (simp add: log_wf_def)

lemma initlog_empty:
  assumes t: "crashed s ws k t" and wf: "log_wf s"
    and same: "logstart (rd_sb (disk t 1 1)) = lstart s" and n: "sint (rd32 (disk t 1 (lstart s)) 0) = 0"
  shows "\<exists>t'. initlog 1 t = Ret () t' \<and> (\<forall>n. outside s n \<longrightarrow> disk t' 1 n = disk t 1 n)"
proof -
  have "home_ws (s\<lparr>lh_n := 0\<rparr>) x = []" for x by (simp add: home_ws_def)
  then obtain t' w where "initlog 1 t = Ret () t'" "disk t' = apply_writes [(1, lstart s, w)] (disk t)"
    using initlog_ok [of t "s\<lparr>lh_n := 0\<rparr>"] t same n log_wf_0 [OF wf] log_wf_slots(7) [OF wf] by (auto simp: crashed_def)
  then show ?thesis using outside_slots(1) [OF wf] by auto
qed

lemma crash_old:
  assumes wf: "log_wf s" and idle: "log_idle s" and t: "crashed s (commit_ws s) k t"
    and w: "take k (commit_ws s) = take k (log_ws s v)"
  shows "\<exists>t'. initlog 1 t = Ret () t' \<and> (\<forall>n. outside s n \<longrightarrow> disk t' 1 n = disk s 1 n)"
proof -
  have "disk t 1 m = disk s 1 m" if "outside s m \<or> m = lstart s" for m
  proof -
    have "(1, m) \<notin> wkeys (log_ws s v)"
      using that outside_slots [OF wf] log_wf_slots(2) [OF wf] by (fastforce simp: wkeys_ws)
    then show ?thesis using t wkeys_take [of k "log_ws s v"] w by (auto simp: crashed_def intro!: apply_writes_other)
  qed
  then show ?thesis using initlog_empty [OF t wf] idle by (simp add: log_idle_def)
qed

lemma crash_mid:
  assumes io: "log_io s" and wf: "log_wf s" and idle: "log_idle s" and pin: "pinned s = log_blocks s"
    and t: "crashed s (commit_ws s) k t"
    and w: "take k (commit_ws s) = log_ws s (\<lambda>i. content s 1 (lh_block s i)) @
      [(1, lstart s, put_header (lh_n s) (lh_block s) (content s 1 (lstart s)))] @ take j (home_ws s (\<lambda>i. content s 1 (lh_block s i)))"
  shows "\<exists>t'. initlog 1 t = Ret () t' \<and> (\<forall>n. outside s n \<longrightarrow> disk t' 1 n = content s 1 n)"
proof -
  let ?v = "\<lambda>i. content s 1 (lh_block s i)" and ?h = "put_header (lh_n s) (lh_block s) (content s 1 (lstart s))"
  have D: "disk t = apply_writes (log_ws s ?v @ [(1, lstart s, ?h)] @ take j (home_ws s ?v)) (disk s)"
    using t w by (simp add: crashed_def)
  have home: "(1, m) \<notin> wkeys (take j (home_ws s ?v))" if "(1, m) \<notin> log_blocks s" for m
    using that wkeys_take [of j "home_ws s ?v"] by (auto simp: wkeys_ws)
  have keep: "disk t 1 m = disk s 1 m" if "(1, m) \<notin> log_blocks s" "outside s m" for m
  proof -
    have "(1, m) \<notin> wkeys (log_ws s ?v @ [(1, lstart s, ?h)])"
      using that outside_slots [OF wf, of m] by (fastforce simp: wkeys_ws)
    then show ?thesis using home [OF that(1)] by (simp add: D apply_writes_other)
  qed
  have start: "(1, lstart s) \<notin> log_blocks s" using log_wf_slots(5) [OF wf] by (fastforce simp: log_blocks_def)
  have h: "disk t 1 (lstart s) = ?h" using home [OF start] by (simp add: D apply_writes_append apply_writes_other)
  have slot: "disk t 1 (lslot s i) = ?v i" if "i < lcount s" for i
  proof -
    have "(1, lslot s i) \<notin> log_blocks s" using log_wf_slots(3) [OF wf that] by (fastforce simp: log_blocks_def)
    then show ?thesis
      using home log_ws_in [OF wf that] log_wf_slots(2) [OF wf that] by (simp add: D apply_writes_append apply_writes_other)
  qed
  have b: "0 \<le> lh_n s" "lh_n s < 2 ^ 31" using wf by (auto simp: log_wf_def)
  have "(1, 1) \<notin> log_blocks s" "outside s 1" using idle by (auto simp: log_idle_def log_blocks_def)
  then obtain t' w where 1: "initlog 1 t = Ret () t'"
     "disk t' = apply_writes (home_ws s (\<lambda>i. disk t 1 (lslot s i)) @ [(1, lstart s, w)]) (disk t)"
    using initlog_ok [of t s] t idle keep [of 1] log_wf_slots(7) [OF wf] wf h put_header_n [OF b] put_header_block [of _ "lh_n s"] b
    by (auto simp: crashed_def log_idle_def)
  have "home_ws s (\<lambda>i. disk t 1 (lslot s i)) = home_ws s ?v" using slot by (rule home_ws_cong)
  then have "disk t' 1 n = content s 1 n" if "outside s n" for n
    using 1(2) outside_slots(1) [OF wf that] home_ws_new [OF io wf pin that, where D = "disk t"] keep by (simp add: apply_writes_append)
  then show ?thesis using 1(1) by blast
qed

lemma crash_end:
  assumes io: "log_io s" and wf: "log_wf s" and idle: "log_idle s" and pin: "pinned s = log_blocks s"
    and t: "crashed s (commit_ws s) k t" and w: "take k (commit_ws s) = commit_ws s"
  shows "\<exists>t'. initlog 1 t = Ret () t' \<and> (\<forall>n. outside s n \<longrightarrow> disk t' 1 n = content s 1 n)"
proof -
  let ?v = "\<lambda>i. content s 1 (lh_block s i)" and ?h = "put_header (lh_n s) (lh_block s) (content s 1 (lstart s))"
  let ?D = "apply_writes (log_ws s ?v @ [(1, lstart s, ?h)]) (disk s)"
  have D: "disk t = apply_writes [(1, lstart s, put_header 0 (lh_block s) ?h)] (apply_writes (home_ws s ?v) ?D)"
  proof -
    have "disk t = apply_writes (commit_ws s) (disk s)" using t w by (simp add: crashed_def)
    then show ?thesis by (simp add: commit_ws_def apply_writes_append Let_def)
  qed
  have keep: "?D 1 m = disk s 1 m" if "(1, m) \<notin> log_blocks s" "outside s m" for m
  proof -
    have "(1, m) \<notin> wkeys (log_ws s ?v @ [(1, lstart s, ?h)])"
      using that outside_slots [OF wf, of m] by (fastforce simp: wkeys_ws)
    then show ?thesis by (rule apply_writes_other)
  qed
  have new: "disk t 1 n = content s 1 n" if "outside s n" for n
    using home_ws_new [OF io wf pin that, where D = ?D] keep outside_slots(1) [OF wf that] by (simp add: D)
  have "(1, 1) \<notin> log_blocks s" "outside s 1" using idle by (auto simp: log_idle_def log_blocks_def)
  then have "disk t 1 1 = disk s 1 1" using new [of 1] io pin content_unpinned [of s 1 1] by (auto simp: log_io_def)
  then show ?thesis
    using initlog_empty [OF t wf] idle new put_header_n [of 0 "lh_block s" ?h] by (simp add: log_idle_def D)
qed

text \<open>
  C1. Crash atomicity of the log. \<^verbatim>\<open>commit\<close> returns, and when the machine stops after any number \<open>k\<close> of the disk
  writes it makes, \<^verbatim>\<open>initlog\<close> on the next boot leaves in every block outside the log's area what the drive held
  before the commit, if the header block had not been written yet, and what the transaction wrote, if it had.
\<close>

theorem commit_crash_atomic:
  assumes "log_io s" "log_wf s" "pinned s = log_blocks s" "lh_n s > 0" "log_idle s"
  shows "\<exists>s' ws. commit s = Ret () s' \<and> writes s' = writes s @ ws \<and>
    (\<forall>k t. crashed s ws k t \<longrightarrow> (\<exists>t'. initlog 1 t = Ret () t' \<and>
       (\<forall>n. outside s n \<longrightarrow> disk t' 1 n = (if k \<le> lcount s then disk s 1 n else content s 1 n))))"
proof -
  obtain s' where s': "commit s = Ret () s'" "wrote (s\<lparr>lh_n := 0\<rparr>) s' (commit_ws s)" using commit_ok [OF assms(1-4)] by blast
  have "\<exists>t'. initlog 1 t = Ret () t' \<and> (\<forall>n. outside s n \<longrightarrow> disk t' 1 n = (if k \<le> lcount s then disk s 1 n else content s 1 n))"
    if t: "crashed s (commit_ws s) k t" for k t
  proof (cases rule: take_commit_ws [of k s])
    case log
    then show ?thesis using crash_old [OF assms(2,5) t] by simp
  next
    case (home j)
    then show ?thesis using crash_mid [OF assms(1,2,5,3) t home(3)] by simp
  next
    case all
    then show ?thesis using crash_end [OF assms(1,2,5,3) t] by simp
  qed
  then show ?thesis using s' by (auto simp: wrote_def)
qed

subsection \<open>Building up a transaction\<close>

definition log_area :: "'z log_st_scheme \<Rightarrow> 32 word \<Rightarrow> bool" where
  "log_area s n \<longleftrightarrow> unat (lstart s) \<le> unat n \<and> unat n < unat (lstart s) + nat (lsize s)"

definition log_inv :: "'z log_st_scheme \<Rightarrow> bool" where
  "log_inv s \<longleftrightarrow> pinned s = log_blocks s \<and> 0 \<le> lh_n s \<and> lh_n s < lsize s \<and> lsize s \<le> LOGSIZE \<and>
     unat (lstart s) + nat (lsize s) \<le> 1000 \<and> inj_on (lh_block s) {..<lcount s} \<and>
     (\<forall>i<lcount s. lh_block s i < FSSIZE \<and> \<not> log_area s (lh_block s i))"

lemma log_inv_wf: "log_inv s \<Longrightarrow> log_wf s"
  unfolding log_inv_def log_wf_def log_area_def by (auto simp: nat_less_iff linorder_not_less)

definition add_block :: "(nat \<Rightarrow> 32 word) \<Rightarrow> nat \<Rightarrow> 32 word \<Rightarrow> nat" where
  "add_block f k n = (case first_from (\<lambda>i. f i = n) 0 k of Some i \<Rightarrow> i | None \<Rightarrow> k)"

lemma add_block_cases:
  assumes "inj_on f {..<k}"
  obtains (old) i where "i < k" "f i = n" "add_block f k n = i" "f(i := n) = f"
  | (new) "n \<notin> f ` {..<k}" "add_block f k n = k"
proof (cases "first_from (\<lambda>i. f i = n) 0 k")
  case None
  then have "n \<notin> f ` {..<k}" by (auto simp: first_from_None_iff)
  then show thesis using new None by (simp add: add_block_def)
next
  case (Some i)
  then show thesis using old first_from_SomeD [OF Some] by (auto simp: add_block_def fun_upd_idem_iff)
qed

lemma upd_buf_lh:
  "upd_buf b f (s\<lparr>lh_block := g\<rparr>) = (upd_buf b f s)\<lparr>lh_block := g\<rparr>"
  "upd_buf b f (s\<lparr>lh_n := k\<rparr>) = (upd_buf b f s)\<lparr>lh_n := k\<rparr>"
  by (cases s, simp add: upd_buf_def)+

lemma upd_buf_log [simp]:
  "lh_n (upd_buf b f s) = lh_n s" "lh_block (upd_buf b f s) = lh_block s" "lsize (upd_buf b f s) = lsize s"
  "lstart (upd_buf b f s) = lstart s" "outstanding (upd_buf b f s) = outstanding s" "committing (upd_buf b f s) = committing s"
  "ldev (upd_buf b f s) = ldev s"
  by (simp_all add: upd_buf_def)

lemma lh_n_self: "lh_n s = k \<Longrightarrow> s\<lparr>lh_n := k\<rparr> = s"
  by (cases s) simp

lemma log_write_ok:
  assumes inv: "log_inv s" and ok: "bio_ok s H" and b: "b \<in> H" "b < NBUF" "b_valid (bufs s b)" "bkey s b = (1, n)"
    and n: "n < FSSIZE" "\<not> log_area s n" and room: "lh_n s < lsize s - 1" "outstanding s \<ge> 1"
  shows "\<exists>s'. log_write b s = Ret () s' \<and> log_inv s' \<and> bio_ok s' H \<and> content s' = content s \<and> disk s' = disk s \<and>
     bufs s' = (bufs s)(b := (bufs s b)\<lparr>b_dirty := True\<rparr>) \<and> pinned s' = insert (1, n) (pinned s) \<and>
     lh_n s' = lh_n s + (if (1, n) \<in> log_blocks s then 0 else 1) \<and> lsize s' = lsize s \<and> lstart s' = lstart s \<and>
     outstanding s' = outstanding s \<and> bio_frame s (s'\<lparr>lh_n := lh_n s, lh_block := lh_block s\<rparr>)"
proof -
  let ?i = "add_block (lh_block s) (lcount s) n"
  let ?u = "upd_buf b (\<lambda>x. x\<lparr>b_dirty := True\<rparr>) s"
  let ?k = "if int ?i = lh_n s then lh_n s + 1 else lh_n s" and ?f = "(lh_block s)(?i := n)"
  let ?s' = "?u\<lparr>lh_block := ?f, lh_n := ?k\<rparr>"
  note u = set_dirty_ok [OF ok b(1-3)]
  have nn: "0 \<le> lh_n s" "lsize s \<le> LOGSIZE" "inj_on (lh_block s) {..<lcount s}" using inv by (auto simp: log_inv_def)
  have eq: "log_write b s = Ret () ?s'"
  proof -
    have "log_write b s = Ret () (upd_buf b (\<lambda>x. x\<lparr>b_dirty := True\<rparr>)
        (if int ?i = lh_n s then s\<lparr>lh_block := ?f, lh_n := lh_n s + 1\<rparr> else s\<lparr>lh_block := ?f\<rparr>))"
      using room nn(2) b(4) by (simp add: log_write_def add_block_def)
    also have "\<dots> = Ret () ?s'" by (simp add: upd_buf_lh lh_n_self)
    finally show ?thesis .
  qed
  have cont: "content ?s' = content s" using u(2) by (intro ext) simp
  have p: "pinned ?s' = insert (1, n) (pinned s)" using u(3) b(4) by simp
  have fr: "bio_frame s (?s'\<lparr>lh_n := lh_n s, lh_block := lh_block s\<rparr>)"
    by (cases s) (simp add: bio_frame_def mypid_def upd_buf_def)
  have "log_inv ?s' \<and> lh_n ?s' = lh_n s + (if (1, n) \<in> log_blocks s then 0 else 1)"
    using nn(3)
  proof (cases rule: add_block_cases [of "lh_block s" "lcount s" n])
    case (old i)
    then have "(1, n) \<in> log_blocks s" "?k = lh_n s" using nn by (auto simp: log_blocks_def)
    then show ?thesis using inv p old by (auto simp: log_inv_def log_blocks_def log_area_def)
  next
    case new
    then have k: "?k = lh_n s + 1" "nat ?k = Suc (lcount s)" using nn by auto
    have "(1, n) \<notin> log_blocks s" using new by (auto simp: log_blocks_def)
    moreover have "log_blocks ?s' = insert (1, n) (log_blocks s)"
      using k new by (auto simp: log_blocks_def lessThan_Suc image_iff)
    moreover have "inj_on ?f {..<Suc (lcount s)}"
      using nn(3) new by (auto simp: inj_on_def lessThan_Suc)
    ultimately show ?thesis using inv p k new n room by (auto simp: log_inv_def log_area_def less_Suc_eq)
  qed
  then have "log_inv ?s'" "lh_n ?s' = lh_n s + (if (1, n) \<in> log_blocks s then 0 else 1)" by (rule conjunct1, rule conjunct2)
  moreover have "bio_ok ?s' H" using u(1) by simp
  ultimately show ?thesis using eq cont p fr
    by (intro exI [of _ ?s'] conjI) (assumption | rule eq | simp)+
qed

text \<open>The idiom of the file system: read a block, change it, \<^verbatim>\<open>log_write\<close> it, release it.\<close>

definition logged :: "32 word \<Rightarrow> (blockdata \<Rightarrow> blockdata) \<Rightarrow> 'z log_st_scheme \<Rightarrow> (unit, 'z log_st_scheme) res" where
  "logged n g s =
     rbind (bread (ldev s) n s) (\<lambda>b s.
     rbind (log_write b (upd_buf b (\<lambda>x. x\<lparr>data := g (data x)\<rparr>) s)) (\<lambda>_ s. brelse b s))"

definition log_same :: "'z log_st_scheme \<Rightarrow> 'z log_st_scheme \<Rightarrow> bool" where
  "log_same s s' \<longleftrightarrow> lstart s' = lstart s \<and> lsize s' = lsize s \<and> outstanding s' = outstanding s \<and>
     committing s' = committing s \<and> disk s' = disk s \<and> log_st.more s' = log_st.more s \<and> mypid s' = mypid s \<and> me s' = me s"

lemma frame_log:
  assumes "bio_frame s (s'\<lparr>lh_n := k, lh_block := f\<rparr>)"
  shows "ldev s' = ldev s" "lstart s' = lstart s" "lsize s' = lsize s" "outstanding s' = outstanding s"
    "committing s' = committing s" "log_st.more s' = log_st.more s" "mypid s' = mypid s" "me s' = me s"
    "havedisk1 s' = havedisk1 s" "fault s' = fault s"
  using assms by (cases s; cases s'; simp add: bio_frame_def mypid_def)+

lemma log_inv_data:
  assumes "pinned s' = pinned s" "bio_frame s s'"
  shows "log_inv s' = log_inv s"
  using frame_sel [OF assms(2)] assms(1) by (simp add: log_inv_def log_blocks_def log_area_def)

lemma log_inv_room: "log_inv s \<Longrightarrow> card (pinned s) < NBUF"
  using card_log_blocks [of s] by (auto simp: log_inv_def)

lemma logged_ok:
  assumes io: "log_io s" and inv: "log_inv s" and n: "n < FSSIZE" "\<not> log_area s n"
    and room: "lh_n s < lsize s - 1" "outstanding s \<ge> 1"
  shows "\<exists>s'. logged n g s = Ret () s' \<and> log_io s' \<and> log_inv s' \<and> log_same s s' \<and>
     (\<forall>m. content s' 1 m = (if m = n then g (content s 1 n) else content s 1 m)) \<and>
     lh_n s' = lh_n s + (if (1, n) \<in> log_blocks s then 0 else 1) \<and> log_blocks s' = insert (1, n) (log_blocks s)"
proof -
  have ok: "bio_ok s {}" "havedisk1 s" "\<not> fault s 1 n" "ldev s = 1" using io by (auto simp: log_io_def)
  obtain b s1 where 1: "bread 1 n s = Ret b s1" "b < NBUF" "bio_ok s1 {b}" "views s s1" "bkey s1 b = (1, n)"
    "b_valid (bufs s1 b)" "data (bufs s1 b) = content s 1 n"
    using bread_ok [OF ok(1), of 1 n] ok n log_inv_room [OF inv] by auto
  let ?g = "g (content s 1 n)"
  let ?u = "upd_buf b (\<lambda>x. x\<lparr>data := ?g\<rparr>) s1"
  have eq: "upd_buf b (\<lambda>x. x\<lparr>data := g (data x)\<rparr>) s1 = ?u" using 1(7) by (simp add: upd_buf_def)
  note v = views_sel [OF 1(4)]
  note u = set_data_ok [OF 1(3) singletonI 1(2,6), where f = ?g]
  have fu: "bio_frame s ?u" using v(7) by (simp add: bio_frame_def)
  have iu: "log_inv ?u" using log_inv_data [OF _ fu] inv u(3) v(1) by simp
  have bu: "b_valid (bufs ?u b)" "bkey ?u b = (1, n)" using 1(5,6) by simp_all
  have au: "\<not> log_area ?u n" "lh_n ?u < lsize ?u - 1" "outstanding ?u \<ge> 1" "log_blocks ?u = log_blocks s" "lh_n ?u = lh_n s"
    using n(2) room frame_sel [OF fu] by (simp_all add: log_area_def log_blocks_def)
  obtain s2 where 2: "log_write b ?u = Ret () s2" "log_inv s2" "bio_ok s2 {b}" "content s2 = content ?u" "disk s2 = disk ?u"
     "bufs s2 = (bufs ?u)(b := (bufs ?u b)\<lparr>b_dirty := True\<rparr>)" "pinned s2 = insert (1, n) (pinned ?u)"
     "lh_n s2 = lh_n s + (if (1, n) \<in> log_blocks s then 0 else 1)" "bio_frame ?u (s2\<lparr>lh_n := lh_n ?u, lh_block := lh_block ?u\<rparr>)"
    using log_write_ok [OF iu u(1) singletonI 1(2) bu n(1) au(1,2,3)] au(4,5) by auto
  have "synced s2 b" using 2(6) by (simp add: synced_def)
  then obtain s3 where 3: "brelse b s2 = Ret () s3" "bio_ok s3 {}" "views s2 s3"
    using brelse_ok [OF 2(3) singletonI 1(2)] by auto
  note f = frame_log [OF 2(9)] and v3 = views_sel [OF 3(3)]
  have "log_io s3" using 3(2) io v3 f frame_sel [OF v3(7)] frame_sel [OF fu] fu by (simp add: log_io_def bio_frame_def)
  moreover have "log_inv s3" using log_inv_data [OF v3(1,7)] 2(2) by simp
  moreover have "log_same s s3"
    using f frame_sel [OF v3(7)] v3(5,7) frame_sel [OF fu] fu 2(5) v(5) by (cases s; cases s1; cases s2; cases s3) (simp add: log_same_def bio_frame_def mypid_def upd_buf_def)
  moreover have "content s3 1 m = (if m = n then ?g else content s 1 m)" for m
    using v3(4) 2(4) u(2) [of 1 m] 1(5) v(4) by simp
  moreover have "log_blocks s3 = insert (1, n) (log_blocks s)"
    using 2(2,7) iu u(3) v3(1) \<open>log_inv s3\<close> au(4) by (simp add: log_inv_def)
  ultimately show ?thesis
    using 1(1) 2(1,8) 3(1) eq ok(4) frame_sel [OF v3(7)] by (auto simp: logged_def)
qed

lemma view_ops [simp]:
  "bio_ok (s\<lparr>outstanding := a, committing := c\<rparr>) H = bio_ok s H" "content (s\<lparr>outstanding := a, committing := c\<rparr>) = content s"
  "pinned (s\<lparr>outstanding := a, committing := c\<rparr>) = pinned s"
  by (rule bio_ok_cong, simp_all add: mypid_def, intro ext, rule content_cong [THEN fun_cong], simp_all, rule pinned_cong, simp)

lemma view_outstanding [simp]:
  "bio_ok (s\<lparr>outstanding := a\<rparr>) H = bio_ok s H" "content (s\<lparr>outstanding := a\<rparr>) = content s" "pinned (s\<lparr>outstanding := a\<rparr>) = pinned s"
  by (rule bio_ok_cong, simp_all add: mypid_def, intro ext, rule content_cong [THEN fun_cong], simp_all, rule pinned_cong, simp)

lemma view_committing [simp]:
  "bio_ok (s\<lparr>committing := a\<rparr>) H = bio_ok s H" "content (s\<lparr>committing := a\<rparr>) = content s" "pinned (s\<lparr>committing := a\<rparr>) = pinned s"
  by (rule bio_ok_cong, simp_all add: mypid_def, intro ext, rule content_cong [THEN fun_cong], simp_all, rule pinned_cong, simp)

text \<open>The last \<^verbatim>\<open>end_op\<close> commits: afterwards the drive agrees with the cache outside the log's area.\<close>

lemma end_op_ok:
  assumes io: "log_io s" and inv: "log_inv s" and last: "outstanding s = 1" "\<not> committing s"
  shows "\<exists>s'. end_op s = Ret () s' \<and> log_io s' \<and> log_inv s' \<and> lh_n s' = 0 \<and> outstanding s' = 0 \<and> \<not> committing s' \<and>
     (\<forall>n. \<not> log_area s n \<longrightarrow> disk s' 1 n = content s 1 n \<and> content s' 1 n = content s 1 n)"
proof -
  let ?u = "s\<lparr>outstanding := 0, committing := True\<rparr>"
  have "\<exists>s'. commit ?u = Ret () s' \<and> bio_ok s' {} \<and> bio_frame (?u\<lparr>lh_n := 0\<rparr>) s' \<and> pinned s' = {} \<and>
     (\<forall>n. \<not> log_area s n \<longrightarrow> disk s' 1 n = content s 1 n \<and> content s' 1 n = content s 1 n)"
  proof (cases "lh_n s > 0")
    case True
    have wf: "log_wf s" by (rule log_inv_wf [OF inv])
    have u: "log_io ?u" "log_wf ?u" "pinned ?u = log_blocks ?u" "lh_n ?u > 0"
      using io wf inv True by (simp_all add: log_io_def log_wf_def log_inv_def log_blocks_def)
    obtain s' where s': "commit ?u = Ret () s'" "wrote (?u\<lparr>lh_n := 0\<rparr>) s' (commit_ws ?u)" using commit_ok [OF u] by blast
    have keys: "wkeys (commit_ws ?u) = insert (1, lstart s) ((\<lambda>i. (1, lslot s i)) ` {..<lcount s} \<union> log_blocks s)"
      by (auto simp: commit_ws_def Let_def wkeys_ws) (auto simp: log_blocks_def)
    have "apply_writes (commit_ws ?u) D 1 n = content s 1 n" if n: "\<not> log_area s n" and D: "(1, n) \<notin> log_blocks s \<longrightarrow> D 1 n = content s 1 n" for n D
    proof -
      have o: "outside s n" using n inv by (auto simp: outside_def log_area_def log_inv_def)
      note os = outside_slots [OF wf o]
      have "(1, n) \<notin> wkeys (log_ws ?u v)" for v using os by (auto simp: wkeys_ws)
      moreover have "apply_writes (home_ws ?u (\<lambda>i. content s 1 (lh_block s i))) E 1 n = (if (1, n) \<in> log_blocks s then content s 1 n else E 1 n)" for E
        using home_ws_in [OF u(2)] by (auto simp: log_blocks_def apply_writes_other wkeys_ws)
      ultimately show ?thesis using D os(1) by (simp add: commit_ws_def Let_def apply_writes_append apply_writes_other)
    qed
    moreover have "disk s 1 n = content s 1 n" if "(1, n) \<notin> log_blocks s" for n
      using that io inv content_unpinned [of s 1 n] by (simp add: log_io_def log_inv_def)
    ultimately show ?thesis using s' inv keys by (auto simp: wrote_def log_inv_def)
  next
    case False
    then have n: "lh_n s = 0" using inv by (simp add: log_inv_def)
    then have "pinned s = {}" using inv by (simp add: log_inv_def log_blocks_def)
    then show ?thesis
      using n io content_unpinned [of s] by (auto simp: commit_def log_io_def bio_frame_def mypid_def lh_n_self)
  qed
  then obtain s' where s': "commit ?u = Ret () s'" "bio_ok s' {}" "bio_frame (?u\<lparr>lh_n := 0\<rparr>) s'" "pinned s' = {}"
     "\<forall>n. \<not> log_area s n \<longrightarrow> disk s' 1 n = content s 1 n \<and> content s' 1 n = content s 1 n" by blast
  note f = frame_sel [OF s'(3)]
  let ?t = "wakeup_b LogChan (s'\<lparr>committing := False\<rparr>)"
  have t: "lh_n ?t = 0" "outstanding ?t = 0" "\<not> committing ?t" "ldev ?t = ldev s" "lstart ?t = lstart s" "lsize ?t = lsize s"
    using f by (simp_all add: wakeup_b_def)
  have "end_op s = Ret () ?t" using s'(1) last by (cases s) (simp add: end_op_def Let_def)
  moreover have "log_io ?t" using s'(2,3) io t by (simp add: log_io_def bio_frame_def)
  moreover have "log_inv ?t" using inv t s'(4) by (simp add: log_inv_def log_blocks_def)
  ultimately show ?thesis using t s'(5) by (intro exI [of _ ?t]) auto
qed

text \<open>A file system with the log at blocks 2 to 31, for the examples.\<close>

definition sb_example :: blockdata where
  "sb_example = wr32 16 2 (wr32 12 30 (\<lambda>_. 0))"

definition log_boot :: log_st where
  "log_boot = binit \<lparr>ps = boot_st, me = (0, 0), bufs = (\<lambda>_. blank_buf), bnext = (\<lambda>_. 0), bprev = (\<lambda>_. 0),
     idequeue = [], havedisk1 = True, disk = (\<lambda>_ _ _. 0)(1 := (\<lambda>_ _. 0)(1 := sb_example)), fault = (\<lambda>_ _. False), writes = [],
     lstart = 2, lsize = 30, outstanding = 0, committing = False, ldev = 1, lh_n = 0, lh_block = (\<lambda>_. 0)\<rparr>"

lemma log_boot_sel:
  "bio_ok log_boot {}" "pinned log_boot = {}" "havedisk1 log_boot" "fault log_boot = (\<lambda>_ _. False)"
  "disk log_boot = (\<lambda>_ _ _. 0)(1 := (\<lambda>_ _. 0)(1 := sb_example))" "lstart log_boot = 2" "lsize log_boot = 30"
  "outstanding log_boot = 0" "\<not> committing log_boot" "ldev log_boot = 1" "lh_n log_boot = 0"
proof -
  define s :: log_st where "s = \<lparr>ps = boot_st, me = (0, 0), bufs = (\<lambda>_. blank_buf), bnext = (\<lambda>_. 0), bprev = (\<lambda>_. 0),
     idequeue = [], havedisk1 = True, disk = (\<lambda>_ _ _. 0)(1 := (\<lambda>_ _. 0)(1 := sb_example)), fault = (\<lambda>_ _. False), writes = [],
     lstart = 2, lsize = 30, outstanding = 0, committing = False, ldev = 1, lh_n = 0, lh_block = (\<lambda>_. 0)\<rparr>"
  have l: "log_boot = binit s" by (simp add: log_boot_def s_def)
  have z: "zeroed s" by (simp add: zeroed_def s_def blank_buf_def)
  show "bio_ok log_boot {}" using binit_ok(1) [OF z] l by simp
  show "pinned log_boot = {}" using binit_ok(4) [OF z] by (auto simp: l pinned_def s_def blank_buf_def)
  note sel = binit_fold_sel [OF binit_def [of s]]
  show "havedisk1 log_boot" "fault log_boot = (\<lambda>_ _. False)" "disk log_boot = (\<lambda>_ _ _. 0)(1 := (\<lambda>_ _. 0)(1 := sb_example))"
    using sel by (simp_all add: l s_def)
  have "bio_st.more (binit s) = bio_st.more s" using sel by (simp add: s_def)
  then show "lstart log_boot = 2" "lsize log_boot = 30" "outstanding log_boot = 0" "\<not> committing log_boot" "ldev log_boot = 1" "lh_n log_boot = 0"
    by (cases "binit s", simp add: l s_def)+
qed

lemma log_boot_ok: "log_io log_boot" "log_inv log_boot"
  by (simp_all add: log_io_def log_inv_def log_boot_sel log_blocks_def)



lemma logged_boot:
  "\<exists>s. logged 100 (\<lambda>_ _. 42) (log_boot\<lparr>outstanding := 1\<rparr>) = Ret () s \<and> log_io s \<and> log_wf s \<and> pinned s = log_blocks s \<and>
     lh_n s = 1 \<and> log_idle s \<and> content s 1 100 = (\<lambda>_. 42)"
proof -
  let ?u = "log_boot\<lparr>outstanding := 1\<rparr>"
  have "log_io ?u" "log_inv ?u" "\<not> log_area ?u 100"
    using log_boot_ok by (simp_all add: log_io_def log_inv_def log_blocks_def log_area_def log_boot_sel)
  then obtain s where s: "logged 100 (\<lambda>_ _. 42) ?u = Ret () s" "log_io s" "log_inv s" "log_same ?u s"
     "\<forall>m. content s 1 m = (if m = 100 then (\<lambda>_. 42) else content ?u 1 m)" "lh_n s = 1" "log_blocks s = {(1, 100)}"
    using logged_ok [of ?u 100 "\<lambda>_ _. 42"] by (auto simp: log_boot_sel log_blocks_def)
  have "lh_block s i = 100" if "i < 1" for i using s(6,7) that by (auto simp: log_blocks_def)
  then have "log_idle s"
    using s(4,6) by (simp add: log_idle_def log_same_def log_boot_sel outside_def rd_sb_def sb_example_def rd32_wr32_other)
      (simp add: rd32_def)
  then show ?thesis using s log_inv_wf [OF s(3)] by (auto simp: log_inv_def)
qed

theorem commit_crash_atomic_witness:
  "\<exists>s s' ws. logged 100 (\<lambda>_ _. 42) (log_boot\<lparr>outstanding := 1\<rparr>) = Ret () s \<and> commit s = Ret () s' \<and> writes s' = writes s @ ws \<and>
    (\<forall>k t. crashed s ws k t \<longrightarrow> (\<exists>t'. initlog 1 t = Ret () t' \<and>
       (\<forall>n. outside s n \<longrightarrow> disk t' 1 n = (if k \<le> 1 then disk s 1 n else content s 1 n))))"
proof -
  obtain s where s: "logged 100 (\<lambda>_ _. 42) (log_boot\<lparr>outstanding := 1\<rparr>) = Ret () s" "log_io s" "log_wf s" "pinned s = log_blocks s"
     "lh_n s = 1" "log_idle s" using logged_boot by blast
  then show ?thesis using commit_crash_atomic [OF s(2-4) _ s(6)] by simp
qed

text \<open>
  C16. \<^verbatim>\<open>log_write\<close> keeps the header in order: every block in it is pinned in the cache, is listed once, and is
  outside the log's area. Writing a block a second time in a transaction takes no further entry.
\<close>

theorem log_write_absorbs:
  assumes "log_inv s" "bio_ok s H" "b \<in> H" "b < NBUF" "b_valid (bufs s b)" "bkey s b = (1, n)"
    "n < FSSIZE" "\<not> log_area s n" "lh_n s < lsize s - 1" "outstanding s \<ge> 1"
  shows "\<exists>s'. log_write b s = Ret () s' \<and> log_inv s' \<and> log_blocks s' = insert (1, n) (log_blocks s) \<and>
    lh_n s' = lh_n s + (if (1, n) \<in> log_blocks s then 0 else 1)"
proof -
  obtain s' where "log_write b s = Ret () s'" "log_inv s'" "pinned s' = insert (1, n) (pinned s)"
    "lh_n s' = lh_n s + (if (1, n) \<in> log_blocks s then 0 else 1)"
    using log_write_ok [OF assms] by blast
  then show ?thesis using assms(1) by (auto simp: log_inv_def)
qed

theorem log_write_absorbs_witness:
  "\<exists>b s s'. bread 1 100 (log_boot\<lparr>outstanding := 1\<rparr>) = Ret b s \<and> log_write b s = Ret () s' \<and> log_inv s' \<and>
    log_blocks s' = insert (1, 100) (log_blocks s) \<and> lh_n s' = lh_n s + (if (1, 100) \<in> log_blocks s then 0 else 1)"
proof -
  let ?u = "log_boot\<lparr>outstanding := 1\<rparr>"
  have u: "bio_ok ?u {}" "log_inv ?u" "\<not> log_area ?u 100"
    using log_boot_ok by (simp_all add: log_io_def log_inv_def log_blocks_def log_area_def log_boot_sel)
  obtain b s where bs: "bread 1 100 ?u = Ret b s" "b < NBUF" "bio_ok s {b}" "views ?u s" "bkey s b = (1, 100)" "b_valid (bufs s b)"
    using bread_ok [OF u(1), of 1 100] by (auto simp: log_boot_sel)
  note f = views_sel(7) [OF bs(4)]
  have "log_inv s" using log_inv_data [OF views_sel(1) [OF bs(4)] f] u(2) by simp
  then show ?thesis
    using log_write_absorbs [OF _ bs(3) _ bs(2,6,5)] bs(1) u(3) frame_sel [OF f] by (simp add: log_boot_sel log_area_def)
qed

end
