(* ===== verification/Fs.thy ===== *)
theory Fs
  imports Log
begin

section \<open>Inodes, directories and paths (fs.c)\<close>

text \<open>
  The file system above the log. The globals of \<^verbatim>\<open>fs.c\<close>, the superblock and the inode cache, are the
  fields that \<open>fs_st\<close> adds to the log's state; an inode pointer is the index of its cache entry.

  Every routine runs along one thread: it returns, panics, or blocks on a sleep lock. \<^verbatim>\<open>short\<close> fields
  are 16-bit words, sizes and block numbers 32-bit words. A buffer that a caller passes in is the
  list of its bytes, and \<^verbatim>\<open>readi\<close> returns the bytes it copies out. The driver routines that
  \<^verbatim>\<open>devsw\<close> points to are arguments of \<^verbatim>\<open>readi\<close> and \<^verbatim>\<open>writei\<close>, since they are defined on top of this
  layer; the directory routines, which have checked that the inode is a directory, pass none.
\<close>

abbreviation (input) NDIRECT :: nat where "NDIRECT \<equiv> 12"
abbreviation (input) NINDIRECT :: nat where "NINDIRECT \<equiv> 128"
abbreviation (input) NINODE :: nat where "NINODE \<equiv> 50"
abbreviation (input) NDEV :: int where "NDEV \<equiv> 10"
abbreviation (input) IPB :: nat where "IPB \<equiv> 8"
abbreviation (input) BPB :: nat where "BPB \<equiv> 4096"
abbreviation (input) DIRSIZ :: nat where "DIRSIZ \<equiv> 14"
abbreviation (input) T_DIR :: "16 word" where "T_DIR \<equiv> 1"
abbreviation (input) T_FILE :: "16 word" where "T_FILE \<equiv> 2"
abbreviation (input) T_DEV :: "16 word" where "T_DEV \<equiv> 3"
abbreviation (input) ROOTDEV :: "32 word" where "ROOTDEV \<equiv> 1"
abbreviation (input) ROOTINO :: "32 word" where "ROOTINO \<equiv> 1"

record inode =
  idev :: "32 word"
  inum :: "32 word"
  iref :: int
  ilk :: sleeplock
  ivalid :: bool
  itype :: "16 word"
  major :: "16 word"
  minor :: "16 word"
  nlink :: "16 word"
  isize :: "32 word"
  addrs :: "nat \<Rightarrow> 32 word"

record fs_st = log_st +
  sb :: superblock
  icache :: "nat \<Rightarrow> inode"

definition upd_inode :: "nat \<Rightarrow> (inode \<Rightarrow> inode) \<Rightarrow> 'z fs_st_scheme \<Rightarrow> 'z fs_st_scheme" where
  "upd_inode i f s = s\<lparr>icache := (icache s)(i := f (icache s i))\<rparr>"

text \<open>The sleep lock of an inode.\<close>

definition acquiresleep_i :: "nat \<Rightarrow> 'z fs_st_scheme \<Rightarrow> (unit, 'z fs_st_scheme) res" where
  "acquiresleep_i i s =
     (if slocked (ilk (icache s i)) then sleep_b (InodeLockChan i) s
      else Ret () (upd_inode i (\<lambda>x. x\<lparr>ilk := \<lparr>slocked = True, spid = mypid s\<rparr>\<rparr>) s))"

definition releasesleep_i :: "nat \<Rightarrow> 'z fs_st_scheme \<Rightarrow> 'z fs_st_scheme" where
  "releasesleep_i i s =
     wakeup_b (InodeLockChan i) (upd_inode i (\<lambda>x. x\<lparr>ilk := \<lparr>slocked = False, spid = 0\<rparr>\<rparr>) s)"

definition holdingsleep_i :: "nat \<Rightarrow> 'z fs_st_scheme \<Rightarrow> bool" where
  "holdingsleep_i i s \<longleftrightarrow> slocked (ilk (icache s i)) \<and> spid (ilk (icache s i)) = mypid s"

subsection \<open>Blocks\<close>

definition BBLOCK :: "nat \<Rightarrow> superblock \<Rightarrow> 32 word" where
  "BBLOCK b x = of_nat (b div BPB) + bmapstart x"

definition bzero :: "32 word \<Rightarrow> 32 word \<Rightarrow> 'z log_st_scheme \<Rightarrow> (unit, 'z log_st_scheme) res" where
  "bzero d bno s =
     rbind (bread d bno s) (\<lambda>bp s.
     rbind (log_write bp (upd_buf bp (\<lambda>x. x\<lparr>data := (\<lambda>_. 0)\<rparr>) s)) (\<lambda>_ s. brelse bp s))"

text \<open>Bit \<open>bi\<close> of a block of the free map.\<close>

definition map_bit :: "blockdata \<Rightarrow> nat \<Rightarrow> bool" where
  "map_bit d bi \<longleftrightarrow> d (bi div 8) AND push_bit (bi mod 8) 1 \<noteq> 0"

definition set_map_bit :: "nat \<Rightarrow> blockdata \<Rightarrow> blockdata" where
  "set_map_bit bi d = d(bi div 8 := d (bi div 8) OR push_bit (bi mod 8) 1)"

definition clear_map_bit :: "nat \<Rightarrow> blockdata \<Rightarrow> blockdata" where
  "clear_map_bit bi d = d(bi div 8 := d (bi div 8) AND NOT (push_bit (bi mod 8) 1))"

text \<open>The outer loop of \<^verbatim>\<open>balloc\<close> over the first blocks \<open>b\<close> that each map block describes.\<close>

fun balloc_from :: "32 word \<Rightarrow> nat list \<Rightarrow> 'z fs_st_scheme \<Rightarrow> (32 word, 'z fs_st_scheme) res" where
  "balloc_from d [] s = Panic ''balloc: out of blocks''"
| "balloc_from d (b # bs) s =
     rbind (bread d (BBLOCK b (sb s)) s) (\<lambda>bp s.
       case first_from (\<lambda>bi. \<not> map_bit (data (bufs s bp)) bi) 0 (min BPB (unat (ssize (sb s)) - b)) of
         Some bi \<Rightarrow>
           rbind (log_write bp (upd_buf bp (\<lambda>x. x\<lparr>data := set_map_bit bi (data x)\<rparr>) s)) (\<lambda>_ s.
           rbind (brelse bp s) (\<lambda>_ s.
           rbind (bzero d (of_nat (b + bi)) s) (\<lambda>_ s. Ret (of_nat (b + bi)) s)))
       | None \<Rightarrow> rbind (brelse bp s) (\<lambda>_ s. balloc_from d bs s))"

definition balloc :: "32 word \<Rightarrow> 'z fs_st_scheme \<Rightarrow> (32 word, 'z fs_st_scheme) res" where
  "balloc d s = balloc_from d (map (\<lambda>k. BPB * k) [0..<(unat (ssize (sb s)) + BPB - 1) div BPB]) s"

definition bfree :: "32 word \<Rightarrow> 32 word \<Rightarrow> 'z fs_st_scheme \<Rightarrow> (unit, 'z fs_st_scheme) res" where
  "bfree d b s =
     rbind (readsb d s) (\<lambda>x s. let s = s\<lparr>sb := x\<rparr> in
     rbind (bread d (BBLOCK (unat b) (sb s)) s) (\<lambda>bp s.
       let bi = unat b mod BPB
       in if \<not> map_bit (data (bufs s bp)) bi then Panic ''freeing free block''
          else rbind (log_write bp (upd_buf bp (\<lambda>x. x\<lparr>data := clear_map_bit bi (data x)\<rparr>) s)) (\<lambda>_ s.
                 brelse bp s)))"

subsection \<open>Inodes\<close>

definition rd16 :: "blockdata \<Rightarrow> nat \<Rightarrow> 16 word" where
  "rd16 d i = ucast (d i) OR push_bit 8 (ucast (d (i + 1)))"

definition wr16 :: "nat \<Rightarrow> 16 word \<Rightarrow> blockdata \<Rightarrow> blockdata" where
  "wr16 i v d = d(i := ucast v, i + 1 := ucast (drop_bit 8 v))"

definition IBLOCK :: "32 word \<Rightarrow> superblock \<Rightarrow> 32 word" where
  "IBLOCK i x = of_nat (unat i div IPB) + inodestart x"

text \<open>Where \<^verbatim>\<open>struct dinode\<close> number \<open>i\<close> is inside its block: 64 bytes each.\<close>

definition dip :: "32 word \<Rightarrow> nat" where
  "dip i = 64 * (unat i mod IPB)"

definition put_dinode :: "inode \<Rightarrow> blockdata \<Rightarrow> blockdata" where
  "put_dinode ip d =
     (let q = dip (inum ip);
          d = wr16 q (itype ip) d;
          d = wr16 (q + 2) (major ip) d;
          d = wr16 (q + 4) (minor ip) d;
          d = wr16 (q + 6) (nlink ip) d;
          d = wr32 (q + 8) (isize ip) d
      in fold (\<lambda>j. wr32 (q + 12 + 4 * j) (addrs ip j)) [0..<NDIRECT + 1] d)"

definition get_dinode :: "blockdata \<Rightarrow> inode \<Rightarrow> inode" where
  "get_dinode d ip =
     (let q = dip (inum ip)
      in ip\<lparr>itype := rd16 d q, major := rd16 d (q + 2), minor := rd16 d (q + 4), nlink := rd16 d (q + 6),
            isize := rd32 d (q + 8),
            addrs := (\<lambda>j. if j < NDIRECT + 1 then rd32 d (q + 12 + 4 * j) else addrs ip j)\<rparr>)"

definition iinit :: "32 word \<Rightarrow> 'z fs_st_scheme \<Rightarrow> (unit, 'z fs_st_scheme) res" where
  "iinit d s =
     (let s = fold (\<lambda>i. upd_inode i (\<lambda>x. x\<lparr>ilk := initsleeplock\<rparr>)) [0..<NINODE] s
      in rbind (readsb d s) (\<lambda>x s. Ret () (s\<lparr>sb := x\<rparr>)))"

definition iget :: "32 word \<Rightarrow> 32 word \<Rightarrow> 'z fs_st_scheme \<Rightarrow> (nat, 'z fs_st_scheme) res" where
  "iget d i s =
     (case first_from (\<lambda>k. iref (icache s k) > 0 \<and> idev (icache s k) = d \<and> inum (icache s k) = i) 0 NINODE of
        Some k \<Rightarrow> Ret k (upd_inode k (\<lambda>x. x\<lparr>iref := iref x + 1\<rparr>) s)
      | None \<Rightarrow>
          (case first_from (\<lambda>k. iref (icache s k) = 0) 0 NINODE of
             None \<Rightarrow> Panic ''iget: no inodes''
           | Some k \<Rightarrow> Ret k (upd_inode k (\<lambda>x. x\<lparr>idev := d, inum := i, iref := 1, ivalid := False\<rparr>) s)))"

definition clear_dinode :: "32 word \<Rightarrow> 16 word \<Rightarrow> blockdata \<Rightarrow> blockdata" where
  "clear_dinode i t d = wr16 (dip i) t (\<lambda>j. if dip i \<le> j \<and> j < dip i + 64 then 0 else d j)"

fun ialloc_from :: "32 word \<Rightarrow> 16 word \<Rightarrow> nat list \<Rightarrow> 'z fs_st_scheme \<Rightarrow> (nat, 'z fs_st_scheme) res" where
  "ialloc_from d t [] s = Panic ''ialloc: no inodes''"
| "ialloc_from d t (i # is) s =
     rbind (bread d (IBLOCK (of_nat i) (sb s)) s) (\<lambda>bp s.
       if rd16 (data (bufs s bp)) (dip (of_nat i)) = 0
       then rbind (log_write bp (upd_buf bp (\<lambda>x. x\<lparr>data := clear_dinode (of_nat i) t (data x)\<rparr>) s)) (\<lambda>_ s.
            rbind (brelse bp s) (\<lambda>_ s. iget d (of_nat i) s))
       else rbind (brelse bp s) (\<lambda>_ s. ialloc_from d t is s))"

definition ialloc :: "32 word \<Rightarrow> 16 word \<Rightarrow> 'z fs_st_scheme \<Rightarrow> (nat, 'z fs_st_scheme) res" where
  "ialloc d t s = ialloc_from d t [1..<unat (ninodes (sb s))] s"

definition iupdate :: "nat \<Rightarrow> 'z fs_st_scheme \<Rightarrow> (unit, 'z fs_st_scheme) res" where
  "iupdate ip s =
     rbind (bread (idev (icache s ip)) (IBLOCK (inum (icache s ip)) (sb s)) s) (\<lambda>bp s.
     rbind (log_write bp (upd_buf bp (\<lambda>x. x\<lparr>data := put_dinode (icache s ip) (data x)\<rparr>) s)) (\<lambda>_ s.
       brelse bp s))"

definition idup :: "nat \<Rightarrow> 'z fs_st_scheme \<Rightarrow> (nat, 'z fs_st_scheme) res" where
  "idup ip s = Ret ip (upd_inode ip (\<lambda>x. x\<lparr>iref := iref x + 1\<rparr>) s)"

text \<open>Inode pointers are never null here: where the code tests for null its caller has an option.\<close>

definition ilock :: "nat \<Rightarrow> 'z fs_st_scheme \<Rightarrow> (unit, 'z fs_st_scheme) res" where
  "ilock ip s =
     (if iref (icache s ip) < 1 then Panic ''ilock''
      else rbind (acquiresleep_i ip s) (\<lambda>_ s.
        if \<not> ivalid (icache s ip)
        then rbind (bread (idev (icache s ip)) (IBLOCK (inum (icache s ip)) (sb s)) s) (\<lambda>bp s.
               let s = upd_inode ip (get_dinode (data (bufs s bp))) s
               in rbind (brelse bp s) (\<lambda>_ s.
                    let s = upd_inode ip (\<lambda>x. x\<lparr>ivalid := True\<rparr>) s
                    in if itype (icache s ip) = 0 then Panic ''ilock: no type'' else Ret () s))
        else Ret () s))"

definition iunlock :: "nat \<Rightarrow> 'z fs_st_scheme \<Rightarrow> (unit, 'z fs_st_scheme) res" where
  "iunlock ip s =
     (if \<not> holdingsleep_i ip s \<or> iref (icache s ip) < 1 then Panic ''iunlock''
      else Ret () (releasesleep_i ip s))"

definition itrunc :: "nat \<Rightarrow> 'z fs_st_scheme \<Rightarrow> (unit, 'z fs_st_scheme) res" where
  "itrunc ip s =
     rbind (for_each (\<lambda>i s.
         if addrs (icache s ip) i \<noteq> 0
         then rbind (bfree (idev (icache s ip)) (addrs (icache s ip) i) s) (\<lambda>_ s.
                Ret () (upd_inode ip (\<lambda>x. x\<lparr>addrs := (addrs x)(i := 0)\<rparr>) s))
         else Ret () s) [0..<NDIRECT] s) (\<lambda>_ s.
     rbind (if addrs (icache s ip) NDIRECT \<noteq> 0
         then rbind (bread (idev (icache s ip)) (addrs (icache s ip) NDIRECT) s) (\<lambda>bp s.
              rbind (for_each (\<lambda>j s.
                  let a = rd32 (data (bufs s bp)) (4 * j)
                  in if a \<noteq> 0 then bfree (idev (icache s ip)) a s else Ret () s) [0..<NINDIRECT] s) (\<lambda>_ s.
              rbind (brelse bp s) (\<lambda>_ s.
              rbind (bfree (idev (icache s ip)) (addrs (icache s ip) NDIRECT) s) (\<lambda>_ s.
                Ret () (upd_inode ip (\<lambda>x. x\<lparr>addrs := (addrs x)(NDIRECT := 0)\<rparr>) s)))))
         else Ret () s) (\<lambda>_ s.
       iupdate ip (upd_inode ip (\<lambda>x. x\<lparr>isize := 0\<rparr>) s)))"

definition iput :: "nat \<Rightarrow> 'z fs_st_scheme \<Rightarrow> (unit, 'z fs_st_scheme) res" where
  "iput ip s =
     rbind (acquiresleep_i ip s) (\<lambda>_ s.
     rbind (if ivalid (icache s ip) \<and> nlink (icache s ip) = 0 \<and> iref (icache s ip) = 1
            then rbind (itrunc ip s) (\<lambda>_ s.
                 rbind (iupdate ip (upd_inode ip (\<lambda>x. x\<lparr>itype := 0\<rparr>) s)) (\<lambda>_ s.
                   Ret () (upd_inode ip (\<lambda>x. x\<lparr>ivalid := False\<rparr>) s)))
            else Ret () s) (\<lambda>_ s.
       Ret () (upd_inode ip (\<lambda>x. x\<lparr>iref := iref x - 1\<rparr>) (releasesleep_i ip s))))"

definition iunlockput :: "nat \<Rightarrow> 'z fs_st_scheme \<Rightarrow> (unit, 'z fs_st_scheme) res" where
  "iunlockput ip s = rbind (iunlock ip s) (\<lambda>_ s. iput ip s)"

subsection \<open>Contents of an inode\<close>

definition bmap :: "nat \<Rightarrow> nat \<Rightarrow> 'z fs_st_scheme \<Rightarrow> (32 word, 'z fs_st_scheme) res" where
  "bmap ip bn s =
     (if bn < NDIRECT
      then if addrs (icache s ip) bn = 0
           then rbind (balloc (idev (icache s ip)) s) (\<lambda>a s.
                  Ret a (upd_inode ip (\<lambda>x. x\<lparr>addrs := (addrs x)(bn := a)\<rparr>) s))
           else Ret (addrs (icache s ip) bn) s
      else let bn = bn - NDIRECT
        in if bn < NINDIRECT
           then rbind (if addrs (icache s ip) NDIRECT = 0
                       then rbind (balloc (idev (icache s ip)) s) (\<lambda>a s.
                              Ret a (upd_inode ip (\<lambda>x. x\<lparr>addrs := (addrs x)(NDIRECT := a)\<rparr>) s))
                       else Ret (addrs (icache s ip) NDIRECT) s) (\<lambda>a s.
                rbind (bread (idev (icache s ip)) a s) (\<lambda>bp s.
                rbind (if rd32 (data (bufs s bp)) (4 * bn) = 0
                       then rbind (balloc (idev (icache s ip)) s) (\<lambda>a s.
                            rbind (log_write bp (upd_buf bp (\<lambda>x. x\<lparr>data := wr32 (4 * bn) a (data x)\<rparr>) s)) (\<lambda>_ s.
                              Ret a s))
                       else Ret (rd32 (data (bufs s bp)) (4 * bn)) s) (\<lambda>a s.
                rbind (brelse bp s) (\<lambda>_ s. Ret a s))))
           else Panic ''bmap: out of range'')"

record stat =
  st_type :: "16 word"
  st_dev :: "32 word"
  st_ino :: "32 word"
  st_nlink :: "16 word"
  st_size :: "32 word"

definition stati :: "nat \<Rightarrow> 'z fs_st_scheme \<Rightarrow> stat" where
  "stati ip s =
     (let x = icache s ip
      in \<lparr>st_type = itype x, st_dev = idev x, st_ino = inum x, st_nlink = nlink x, st_size = isize x\<rparr>)"

text \<open>The drivers behind \<^verbatim>\<open>devsw\<close>, by major number.\<close>

type_synonym 's dev_read = "nat \<Rightarrow> (nat \<Rightarrow> int \<Rightarrow> 's \<Rightarrow> (int \<times> byte list, 's) res) option"
type_synonym 's dev_write = "nat \<Rightarrow> (nat \<Rightarrow> byte list \<Rightarrow> 's \<Rightarrow> (int, 's) res) option"

abbreviation (input) no_dev :: "nat \<Rightarrow> 'f option" where "no_dev \<equiv> (\<lambda>_. None)"

definition dev_fun :: "(nat \<Rightarrow> 'f option) \<Rightarrow> 16 word \<Rightarrow> 'f option" where
  "dev_fun dv m = (if sint m < 0 \<or> sint m \<ge> NDEV then None else dv (nat (sint m)))"

text \<open>The loop of \<^verbatim>\<open>readi\<close> at offset \<open>off\<close> with \<open>r\<close> bytes to go: piece by piece, a block at a time.\<close>

function readi_loop :: "nat \<Rightarrow> nat \<Rightarrow> nat \<Rightarrow> 'z fs_st_scheme \<Rightarrow> (byte list, 'z fs_st_scheme) res" where
  "readi_loop ip off r s =
     (if r = 0 then Ret [] s
      else rbind (bmap ip (off div BSIZE) s) (\<lambda>a s.
           rbind (bread (idev (icache s ip)) a s) (\<lambda>bp s.
             let m = min r (BSIZE - off mod BSIZE);
                 bs = map (\<lambda>i. data (bufs s bp) (off mod BSIZE + i)) [0..<m]
             in rbind (brelse bp s) (\<lambda>_ s.
                rbind (readi_loop ip (off + m) (r - m) s) (\<lambda>rest s. Ret (bs @ rest) s)))))"
  by pat_completeness auto
termination
  by (relation "measure (\<lambda>(ip, off, r, s). r)") auto

declare readi_loop.simps [simp del]

definition readi :: "'z fs_st_scheme dev_read \<Rightarrow> nat \<Rightarrow> 32 word \<Rightarrow> 32 word \<Rightarrow> 'z fs_st_scheme \<Rightarrow>
    (int \<times> byte list, 'z fs_st_scheme) res" where
  "readi dv ip off n s =
     (let x = icache s ip
      in if itype x = T_DEV
         then (case dev_fun dv (major x) of None \<Rightarrow> Ret (-1, []) s | Some f \<Rightarrow> f ip (sint n) s)
         else if off > isize x \<or> off + n < off then Ret (-1, []) s
         else let n = (if off + n > isize x then isize x - off else n)
              in rbind (readi_loop ip (unat off) (unat n) s) (\<lambda>bs s. Ret (sint n, bs) s))"

text \<open>The loop of \<^verbatim>\<open>writei\<close>; it returns the offset after the last byte.\<close>

function writei_loop :: "nat \<Rightarrow> nat \<Rightarrow> byte list \<Rightarrow> 'z fs_st_scheme \<Rightarrow> (nat, 'z fs_st_scheme) res" where
  "writei_loop ip off src s =
     (if src = [] then Ret off s
      else rbind (bmap ip (off div BSIZE) s) (\<lambda>a s.
           rbind (bread (idev (icache s ip)) a s) (\<lambda>bp s.
             let m = min (length src) (BSIZE - off mod BSIZE)
             in rbind (log_write bp (upd_buf bp (\<lambda>x. x\<lparr>data := (\<lambda>j. if off mod BSIZE \<le> j \<and> j < off mod BSIZE + m
                        then src ! (j - off mod BSIZE) else data x j)\<rparr>) s)) (\<lambda>_ s.
                rbind (brelse bp s) (\<lambda>_ s. writei_loop ip (off + m) (drop m src) s)))))"
  by pat_completeness auto
termination
  by (relation "measure (\<lambda>(ip, off, src, s). length src)") auto

declare writei_loop.simps [simp del]

definition writei :: "'z fs_st_scheme dev_write \<Rightarrow> nat \<Rightarrow> byte list \<Rightarrow> 32 word \<Rightarrow> 'z fs_st_scheme \<Rightarrow>
    (int, 'z fs_st_scheme) res" where
  "writei dv ip src off s =
     (let x = icache s ip; n = of_nat (length src)
      in if itype x = T_DEV
         then (case dev_fun dv (major x) of None \<Rightarrow> Ret (-1) s | Some f \<Rightarrow> f ip src s)
         else if off > isize x \<or> off + n < off then Ret (-1) s
         else if off + n > 71680 then Ret (-1) s
         else rbind (writei_loop ip (unat off) src s) (\<lambda>off s.
              if n > 0 \<and> off > unat (isize (icache s ip))
              then rbind (iupdate ip (upd_inode ip (\<lambda>x. x\<lparr>isize := of_nat off\<rparr>) s)) (\<lambda>_ s. Ret (sint n) s)
              else Ret (sint n) s))"

subsection \<open>Directories\<close>

text \<open>
  Names and paths are the bytes of a C string before its terminating zero; reading past them gives the
  zero. \<^verbatim>\<open>strncmp\<close> and \<^verbatim>\<open>strncpy\<close> on such lists.
\<close>

fun hd0 :: "byte list \<Rightarrow> byte" where
  "hd0 [] = 0"
| "hd0 (c # cs) = c"

fun strncmp_l :: "nat \<Rightarrow> byte list \<Rightarrow> byte list \<Rightarrow> int" where
  "strncmp_l 0 p q = 0"
| "strncmp_l (Suc n) p q =
     (if hd0 p \<noteq> 0 \<and> hd0 p = hd0 q then strncmp_l n (tl p) (tl q) else uint (hd0 p) - uint (hd0 q))"

definition strncpy_l :: "nat \<Rightarrow> byte list \<Rightarrow> byte list" where
  "strncpy_l n cs = (let x = takeWhile (\<lambda>c. c \<noteq> 0) (take n cs) in x @ replicate (n - length x) 0)"

definition namecmp :: "byte list \<Rightarrow> byte list \<Rightarrow> int" where
  "namecmp p q = strncmp_l DIRSIZ p q"

record dirent =
  de_inum :: "16 word"
  de_name :: "byte list"

definition dirent_of :: "byte list \<Rightarrow> dirent" where
  "dirent_of bs = \<lparr>de_inum = ucast (bs ! 0) OR push_bit 8 (ucast (bs ! 1)), de_name = drop 2 bs\<rparr>"

definition bytes_of_dirent :: "dirent \<Rightarrow> byte list" where
  "bytes_of_dirent de = [ucast (de_inum de), ucast (drop_bit 8 (de_inum de))] @ de_name de"

text \<open>The offsets of the entries of a directory.\<close>

definition dir_offs :: "32 word \<Rightarrow> nat list" where
  "dir_offs n = map (\<lambda>k. 16 * k) [0..<(unat n + 15) div 16]"

fun dirlookup_from :: "nat \<Rightarrow> byte list \<Rightarrow> nat list \<Rightarrow> 'z fs_st_scheme \<Rightarrow> ((nat \<times> nat) option, 'z fs_st_scheme) res" where
  "dirlookup_from dp nm [] s = Ret None s"
| "dirlookup_from dp nm (off # offs) s =
     rbind (readi no_dev dp (of_nat off) 16 s) (\<lambda>r s.
       if fst r \<noteq> 16 then Panic ''dirlookup read''
       else let de = dirent_of (snd r)
            in if de_inum de = 0 then dirlookup_from dp nm offs s
               else if namecmp nm (de_name de) = 0
               then rbind (iget (idev (icache s dp)) (ucast (de_inum de)) s) (\<lambda>ip s. Ret (Some (ip, off)) s)
               else dirlookup_from dp nm offs s)"

text \<open>The result carries the offset that the code stores through \<^verbatim>\<open>poff\<close>.\<close>

definition dirlookup :: "nat \<Rightarrow> byte list \<Rightarrow> 'z fs_st_scheme \<Rightarrow> ((nat \<times> nat) option, 'z fs_st_scheme) res" where
  "dirlookup dp nm s =
     (if itype (icache s dp) \<noteq> T_DIR then Panic ''dirlookup not DIR''
      else dirlookup_from dp nm (dir_offs (isize (icache s dp))) s)"

text \<open>The offset of the first free entry, or the end of the directory.\<close>

fun dirlink_slot :: "nat \<Rightarrow> nat list \<Rightarrow> nat \<Rightarrow> 'z fs_st_scheme \<Rightarrow> (nat, 'z fs_st_scheme) res" where
  "dirlink_slot dp [] e s = Ret e s"
| "dirlink_slot dp (off # offs) e s =
     rbind (readi no_dev dp (of_nat off) 16 s) (\<lambda>r s.
       if fst r \<noteq> 16 then Panic ''dirlink read''
       else if de_inum (dirent_of (snd r)) = 0 then Ret off s
       else dirlink_slot dp offs (off + 16) s)"

definition dirlink :: "nat \<Rightarrow> byte list \<Rightarrow> 32 word \<Rightarrow> 'z fs_st_scheme \<Rightarrow> (int, 'z fs_st_scheme) res" where
  "dirlink dp nm i s =
     rbind (dirlookup dp nm s) (\<lambda>r s.
       case r of
         Some (ip, _) \<Rightarrow> rbind (iput ip s) (\<lambda>_ s. Ret (-1) s)
       | None \<Rightarrow>
           rbind (dirlink_slot dp (dir_offs (isize (icache s dp))) 0 s) (\<lambda>off s.
           rbind (writei no_dev dp (bytes_of_dirent \<lparr>de_inum = ucast i, de_name = strncpy_l DIRSIZ nm\<rparr>) (of_nat off) s)
             (\<lambda>n s. if n \<noteq> 16 then Panic ''dirlink'' else Ret 0 s)))"

subsection \<open>Paths\<close>

abbreviation (input) slash :: byte where "slash \<equiv> 47"

definition skipelem :: "byte list \<Rightarrow> (byte list \<times> byte list) option" where
  "skipelem path =
     (let path = dropWhile (\<lambda>c. c = slash) path
      in if path = [] then None
         else let elem = takeWhile (\<lambda>c. c \<noteq> slash) path;
                  path = dropWhile (\<lambda>c. c \<noteq> slash) path
              in Some (dropWhile (\<lambda>c. c = slash) path, take DIRSIZ elem))"

lemma skipelem_shorter:
  assumes "skipelem p = Some (p', nm)"
  shows "length p' < length p"
proof -
  let ?q = "dropWhile (\<lambda>c. c = slash) p"
  have q: "?q \<noteq> []" "p' = dropWhile (\<lambda>c. c = slash) (dropWhile (\<lambda>c. c \<noteq> slash) ?q)"
    using assms by (auto simp: skipelem_def Let_def split: if_splits)
  then obtain c cs where c: "?q = c # cs" "c \<noteq> slash" 
    using hd_dropWhile [of "\<lambda>c. c = slash" p] by (cases ?q) auto
  have "p' = dropWhile (\<lambda>c. c = slash) (dropWhile (\<lambda>c. c \<noteq> slash) cs)" using q(2) c by simp
  then have "length p' \<le> length cs" by (metis le_trans length_dropWhile_le)
  also have "length cs < length ?q" using c by simp
  also have "\<dots> \<le> length p" by (rule length_dropWhile_le)
  finally show ?thesis .
qed

text \<open>The loop of \<^verbatim>\<open>namex\<close>; it returns the inode and the last name that \<^verbatim>\<open>skipelem\<close> copied out.\<close>

function namex_loop :: "bool \<Rightarrow> byte list \<Rightarrow> byte list \<Rightarrow> nat \<Rightarrow> 'z fs_st_scheme \<Rightarrow> ((nat \<times> byte list) option, 'z fs_st_scheme) res" where
  "namex_loop par path nm ip s =
     (case skipelem path of
        None \<Rightarrow>
          if par then rbind (iput ip s) (\<lambda>_ s. Ret None s) else Ret (Some (ip, nm)) s
      | Some (path', nm) \<Rightarrow>
          rbind (ilock ip s) (\<lambda>_ s.
            if itype (icache s ip) \<noteq> T_DIR then rbind (iunlockput ip s) (\<lambda>_ s. Ret None s)
            else if par \<and> path' = [] then rbind (iunlock ip s) (\<lambda>_ s. Ret (Some (ip, nm)) s)
            else rbind (dirlookup ip nm s) (\<lambda>r s.
                   case r of
                     None \<Rightarrow> rbind (iunlockput ip s) (\<lambda>_ s. Ret None s)
                   | Some (next, _) \<Rightarrow> rbind (iunlockput ip s) (\<lambda>_ s. namex_loop par path' nm next s))))"
  by pat_completeness auto
termination
  by (relation "measure (\<lambda>(par, path, nm, ip, s). length path)") (auto dest: skipelem_shorter)

declare namex_loop.simps [simp del]

text \<open>A process always has a current directory; with none the code would follow a null pointer.\<close>

definition namex :: "byte list \<Rightarrow> bool \<Rightarrow> 'z fs_st_scheme \<Rightarrow> ((nat \<times> byte list) option, 'z fs_st_scheme) res" where
  "namex path par s =
     rbind (if hd0 path = slash then iget ROOTDEV ROOTINO s
            else (case cwd (ptable (ps s) (fst (me s))) of
                    None \<Rightarrow> Panic ''null pointer''
                  | Some ip \<Rightarrow> idup ip s)) (\<lambda>ip s.
       namex_loop par path [] ip s)"

definition namei :: "byte list \<Rightarrow> 'z fs_st_scheme \<Rightarrow> (nat option, 'z fs_st_scheme) res" where
  "namei path s = rbind (namex path False s) (\<lambda>r s. Ret (map_option fst r) s)"

definition nameiparent :: "byte list \<Rightarrow> 'z fs_st_scheme \<Rightarrow> ((nat \<times> byte list) option, 'z fs_st_scheme) res" where
  "nameiparent path s = namex path True s"

end
