(* ===== verification/Fsview.thy ===== *)
theory Fsview
  imports Fs
begin

section \<open>The file system over an abstract disk\<close>

text \<open>
  Inside a transaction the file system sees the blocks of drive 1 through the buffer cache and the log: the
  function \<open>content s 1\<close>. The lemmas here say what its operations do to that view: the bitmap of free blocks,
  inodes on disk, and the bytes of a file. Everything that the layers below need is in \<open>fs_ready s k\<close>: no
  buffer is held, the log is consistent, a transaction is open and has room for \<open>k\<close> more blocks.
\<close>

definition fs_ready :: "'z log_st_scheme \<Rightarrow> int \<Rightarrow> bool" where
  "fs_ready s k \<longleftrightarrow> log_io s \<and> log_inv s \<and> outstanding s \<ge> 1 \<and> lh_n s + k < lsize s"

lemma fs_ready_mono: "fs_ready s k \<Longrightarrow> j \<le> k \<Longrightarrow> fs_ready s j"
  by (simp add: fs_ready_def)

lemma frame_fs: "bio_frame s s' \<Longrightarrow> sb s' = sb s \<and> icache s' = icache s"
  by (cases s; cases s') (simp add: bio_frame_def)

lemma same_fs: "log_same s s' \<Longrightarrow> sb s' = sb s \<and> icache s' = icache s \<and> (\<forall>n. log_area s' n = log_area s n) \<and> mypid s' = mypid s"
  by (cases s; cases s') (simp add: log_same_def log_area_def)

lemma log_same_trans: "log_same s s' \<Longrightarrow> log_same s' s'' \<Longrightarrow> log_same s s''"
  by (simp add: log_same_def)

lemma log_same_refl: "log_same s s"
  by (simp add: log_same_def)

text \<open>A state that differs in the contents of blocks only.\<close>

definition edited :: "'z log_st_scheme \<Rightarrow> (32 word \<Rightarrow> blockdata) \<Rightarrow> int \<Rightarrow> 'z log_st_scheme \<Rightarrow> bool" where
  "edited s f k s' \<longleftrightarrow> log_io s' \<and> log_inv s' \<and> log_same s s' \<and> (\<forall>n. content s' 1 n = f n) \<and> lh_n s' \<le> lh_n s + k"

lemma edited_ready: "fs_ready s k \<Longrightarrow> edited s f j s' \<Longrightarrow> j + i \<le> k \<Longrightarrow> fs_ready s' i"
  by (auto simp: fs_ready_def edited_def log_same_def)

lemma edited_trans: "edited s f j s' \<Longrightarrow> edited s' g k s'' \<Longrightarrow> edited s g (j + k) s''"
  by (auto simp: edited_def intro: log_same_trans)

lemma edited_refl: "fs_ready s k \<Longrightarrow> edited s (content s 1) 0 s"
  by (simp add: edited_def fs_ready_def log_same_refl)

text \<open>Reading a block, and releasing its buffer.\<close>

lemma peek_ok:
  assumes "fs_ready s k" "n < FSSIZE"
  shows "\<exists>b s1 s2. bread 1 n s = Ret b s1 \<and> data (bufs s1 b) = content s 1 n \<and> bio_frame s s1 \<and>
    brelse b s1 = Ret () s2 \<and> edited s (content s 1) 0 s2"
proof -
  have ok: "bio_ok s {}" "havedisk1 s" "\<not> fault s 1 n" "log_inv s" using assms(1) by (auto simp: fs_ready_def log_io_def)
  obtain b s1 where 1: "bread 1 n s = Ret b s1" "b < NBUF" "bio_ok s1 {b}" "views s s1"
    "data (bufs s1 b) = content s 1 n" "synced s1 b"
    using bread_ok [OF ok(1), of 1 n] ok assms(2) log_inv_room [OF ok(4)] by auto
  then obtain s2 where 2: "brelse b s1 = Ret () s2" "bio_ok s2 {}" "views s1 s2"
    using brelse_ok [of s1 "{b}" b] by auto
  note v = views_sel [OF views_trans [OF 1(4) 2(3)]]
  have "log_inv s2" using log_inv_data [OF v(1,7)] ok(4) by simp
  moreover have "log_io s2" using assms(1) 2(2) v frame_sel [OF v(7)] by (simp add: fs_ready_def log_io_def)
  moreover have "log_same s s2" using v(5,7) by (cases s; cases s2) (simp add: log_same_def bio_frame_def mypid_def)
  ultimately have "edited s (content s 1) 0 s2" using v(4) frame_sel [OF v(7)] by (simp add: edited_def)
  then show ?thesis using 1(1,5) 2(1) views_sel(7) [OF 1(4)] by blast
qed

text \<open>Changing a block through the log.\<close>

lemma edit_ok:
  assumes "fs_ready s 1" "n < FSSIZE" "\<not> log_area s n"
  shows "\<exists>b s1 s'. bread 1 n s = Ret b s1 \<and> data (bufs s1 b) = content s 1 n \<and> bio_frame s s1 \<and>
    rbind (log_write b (upd_buf b (\<lambda>x. x\<lparr>data := g (data x)\<rparr>) s1)) (\<lambda>_ s. brelse b s) = Ret () s' \<and>
    edited s ((content s 1)(n := g (content s 1 n))) 1 s'"
proof -
  have r: "log_io s" "log_inv s" "lh_n s < lsize s - 1" "outstanding s \<ge> 1" using assms(1) by (auto simp: fs_ready_def)
  obtain b s1 where 1: "bread 1 n s = Ret b s1" "data (bufs s1 b) = content s 1 n" "bio_frame s s1"
    using peek_ok [OF assms(1,2)] by blast
  obtain s' where 2: "logged n g s = Ret () s'" "log_io s'" "log_inv s'" "log_same s s'"
     "\<forall>m. content s' 1 m = (if m = n then g (content s 1 n) else content s 1 m)"
     "lh_n s' = lh_n s + (if (1, n) \<in> log_blocks s then 0 else 1)"
    using logged_ok [OF r(1,2) assms(2,3) r(3,4), of g] by blast
  have "ldev s = 1" using r(1) by (simp add: log_io_def)
  then have "rbind (log_write b (upd_buf b (\<lambda>x. x\<lparr>data := g (data x)\<rparr>) s1)) (\<lambda>_ s. brelse b s) = Ret () s'"
    using 2(1) 1(1) by (simp add: logged_def)
  moreover have "edited s ((content s 1)(n := g (content s 1 n))) 1 s'" using 2 by (auto simp: edited_def)
  ultimately show ?thesis using 1 by blast
qed

subsection \<open>The free map\<close>

lemma map_bit_iff: "map_bit d i \<longleftrightarrow> bit (d (i div 8)) (i mod 8)"
  by (simp add: map_bit_def push_bit_of_1 and_exp_eq_0_iff_not_bit)

lemma map_bit_set: "map_bit (set_map_bit i d) j \<longleftrightarrow> j = i \<or> map_bit d j"
proof (cases "i div 8 = j div 8")
  case True
  then have "i = j \<longleftrightarrow> i mod 8 = j mod 8" by (metis div_mult_mod_eq)
  then show ?thesis using True by (auto simp: map_bit_iff set_map_bit_def bit_simps)
qed (auto simp: map_bit_iff set_map_bit_def)

lemma map_bit_clear: "map_bit (clear_map_bit i d) j \<longleftrightarrow> j \<noteq> i \<and> map_bit d j"
proof (cases "i div 8 = j div 8")
  case True
  then have "i = j \<longleftrightarrow> i mod 8 = j mod 8" by (metis div_mult_mod_eq)
  then show ?thesis using True by (auto simp: map_bit_iff clear_map_bit_def bit_simps)
qed (auto simp: map_bit_iff clear_map_bit_def)

text \<open>
  The geometry that mkfs sets up: at most 1000 blocks, so that one block holds the free map; the map is outside
  the log and marks itself and the log as in use.
\<close>

abbreviation (input) freemap :: "'z fs_st_scheme \<Rightarrow> blockdata" where
  "freemap s \<equiv> content s 1 (bmapstart (sb s))"

definition map_ok :: "'z fs_st_scheme \<Rightarrow> bool" where
  "map_ok s \<longleftrightarrow> unat (ssize (sb s)) \<le> 1000 \<and> bmapstart (sb s) < FSSIZE \<and> \<not> log_area s (bmapstart (sb s)) \<and>
     map_bit (freemap s) (unat (bmapstart (sb s))) \<and>
     (\<forall>n. log_area s n \<longrightarrow> unat n < unat (ssize (sb s)) \<longrightarrow> map_bit (freemap s) (unat n))"

lemma bzero_ok:
  assumes "fs_ready s 1" "n < FSSIZE" "\<not> log_area s n"
  shows "\<exists>s'. bzero 1 n s = Ret () s' \<and> edited s ((content s 1)(n := (\<lambda>_. 0))) 1 s'"
  using edit_ok [OF assms, of "\<lambda>_ _. 0"] by (auto simp: bzero_def)

lemma balloc_ok:
  assumes r: "fs_ready s 2" and m: "map_ok s" and free: "first_from (\<lambda>i. \<not> map_bit (freemap s) i) 0 (unat (ssize (sb s))) = Some i"
  shows "\<exists>s'. balloc 1 s = Ret (of_nat i) s' \<and>
    edited s ((content s 1)(bmapstart (sb s) := set_map_bit i (freemap s), of_nat i := (\<lambda>_. 0))) 2 s'"
proof -
  let ?B = "bmapstart (sb s)" and ?i = "of_nat i :: 32 word"
  have i: "i < unat (ssize (sb s))" "\<not> map_bit (freemap s) i" using first_from_SomeD [OF free] by auto
  then have ui: "unat ?i = i" using m by (simp add: map_ok_def unat_of_nat)
  have fi: "?i < FSSIZE" "\<not> log_area s ?i" "?i \<noteq> ?B" using i m ui by (auto simp: map_ok_def word_less_nat_alt)
  obtain b s1 s2 where 1: "bread 1 ?B s = Ret b s1" "data (bufs s1 b) = freemap s" "bio_frame s s1"
    "rbind (log_write b (upd_buf b (\<lambda>x. x\<lparr>data := set_map_bit i (data x)\<rparr>) s1)) (\<lambda>_ s. brelse b s) = Ret () s2"
    "edited s ((content s 1)(?B := set_map_bit i (freemap s))) 1 s2"
    using edit_ok [of s ?B "set_map_bit i"] fs_ready_mono [OF r] m by (auto simp: map_ok_def)
  have "\<not> log_area s2 ?i" using fi(2) 1(5) same_fs [of s s2] by (simp add: edited_def)
  then obtain s3 where 3: "bzero 1 ?i s2 = Ret () s3" "edited s2 ((content s2 1)(?i := (\<lambda>_. 0))) 1 s3"
    using bzero_ok [of s2 ?i] edited_ready [OF r 1(5), of 1] fi(1) by auto
  have "(content s2 1)(?i := (\<lambda>_. 0)) = (content s 1)(?B := set_map_bit i (freemap s), ?i := (\<lambda>_. 0))"
    using 1(5) by (auto simp: edited_def)
  then have e: "edited s ((content s 1)(?B := set_map_bit i (freemap s), ?i := (\<lambda>_. 0))) 2 s3"
    using edited_trans [OF 1(5) 3(2)] by simp
  have n: "(unat (ssize (sb s)) + BPB - 1) div BPB = 1" using i(1) m by (auto simp: map_ok_def div_nat_eqI)
  have f: "first_from (\<lambda>bi. \<not> map_bit (data (bufs s1 b)) bi) 0 (min BPB (unat (ssize (sb s1)) - 0)) = Some i"
    using free 1(2) frame_fs [OF 1(3)] m by (simp add: map_ok_def min_def)
  obtain s4 where s4: "log_write b (upd_buf b (\<lambda>x. x\<lparr>data := set_map_bit i (data x)\<rparr>) s1) = Ret () s4" "brelse b s4 = Ret () s2"
    using 1(4) by auto
  have "balloc 1 s = Ret ?i s3"
    unfolding balloc_def n using 1(1) f s4 3(1) by (simp add: BBLOCK_def)
  then show ?thesis using e by blast
qed

lemma balloc_full:
  assumes r: "fs_ready s 0" and m: "map_ok s" and full: "\<And>i. i < unat (ssize (sb s)) \<Longrightarrow> map_bit (freemap s) i"
  shows "balloc 1 s = Panic ''balloc: out of blocks''"
proof -
  let ?B = "bmapstart (sb s)"
  obtain b s1 s2 where 1: "bread 1 ?B s = Ret b s1" "data (bufs s1 b) = freemap s" "bio_frame s s1" "brelse b s1 = Ret () s2"
    using peek_ok [OF r, of ?B] m by (auto simp: map_ok_def)
  have f: "first_from (\<lambda>bi. \<not> map_bit (data (bufs s1 b)) bi) 0 (min BPB (unat (ssize (sb s1)) - 0)) = None"
    using full 1(2) frame_fs [OF 1(3)] by (auto simp: first_from_None_iff)
  have "(unat (ssize (sb s)) + BPB - 1) div BPB = (if ssize (sb s) = 0 then 0 else 1)"
    using m unat_gt_0 [of "ssize (sb s)"] by (auto simp: map_ok_def div_nat_eqI)
  then show ?thesis unfolding balloc_def using 1 f by (simp add: BBLOCK_def)
qed

text \<open>
  C25. \<^verbatim>\<open>balloc\<close> returns the first block that is free in the map, marks it and only it as used, fills it with zeros
  and changes no other block; it panics exactly when no block is free.
\<close>

theorem balloc_correct:
  assumes "fs_ready s 2" "map_ok s"
  shows "if \<exists>i<unat (ssize (sb s)). \<not> map_bit (freemap s) i
    then \<exists>b s'. balloc 1 s = Ret b s' \<and> unat b < unat (ssize (sb s)) \<and> \<not> map_bit (freemap s) (unat b) \<and>
      (\<forall>j<unat b. map_bit (freemap s) j) \<and> (\<forall>j. map_bit (freemap s') j \<longleftrightarrow> j = unat b \<or> map_bit (freemap s) j) \<and>
      content s' 1 b = (\<lambda>_. 0) \<and> (\<forall>n. n \<noteq> b \<and> n \<noteq> bmapstart (sb s) \<longrightarrow> content s' 1 n = content s 1 n)
    else balloc 1 s = Panic ''balloc: out of blocks''"
proof (cases "first_from (\<lambda>i. \<not> map_bit (freemap s) i) 0 (unat (ssize (sb s)))")
  case None
  then have "\<And>i. i < unat (ssize (sb s)) \<Longrightarrow> map_bit (freemap s) i" by (simp add: first_from_None_iff)
  then show ?thesis using balloc_full [OF fs_ready_mono [OF assms(1)] assms(2)] by auto
next
  case (Some i)
  note i = first_from_SomeD [OF Some]
  have ui: "unat (of_nat i :: 32 word) = i" using i(2) assms(2) by (simp add: map_ok_def unat_of_nat)
  obtain s' where s': "balloc 1 s = Ret (of_nat i) s'"
    "edited s ((content s 1)(bmapstart (sb s) := set_map_bit i (freemap s), of_nat i := (\<lambda>_. 0))) 2 s'"
    using balloc_ok [OF assms Some] by blast
  have c: "\<And>n. content s' 1 n = ((content s 1)(bmapstart (sb s) := set_map_bit i (freemap s), of_nat i := (\<lambda>_. 0))) n"
    "sb s' = sb s" using s'(2) same_fs [of s s'] by (auto simp: edited_def)
  have "of_nat i \<noteq> bmapstart (sb s)" using i(3) assms(2) ui by (auto simp: map_ok_def)
  then have "freemap s' = set_map_bit i (freemap s)" using c by simp
  moreover have "\<exists>i<unat (ssize (sb s)). \<not> map_bit (freemap s) i" using i by blast
  ultimately show ?thesis
    using s'(1) i ui c(1) by (auto simp: map_bit_set intro!: exI [of _ "of_nat i"] exI [of _ s'])
qed

text \<open>The superblock in memory is the one on disk, whose block the map marks as used.\<close>

definition sb_ok :: "'z fs_st_scheme \<Rightarrow> bool" where
  "sb_ok s \<longleftrightarrow> rd_sb (content s 1 1) = sb s \<and> bmapstart (sb s) \<noteq> 1 \<and> map_bit (freemap s) 1"

lemma readsb_ready:
  assumes "fs_ready s k"
  shows "\<exists>s'. readsb 1 s = Ret (rd_sb (content s 1 1)) s' \<and> edited s (content s 1) 0 s'"
  using peek_ok [OF assms, of 1] by (auto simp: readsb_def)

lemma bfree_ok:
  assumes r: "fs_ready s 1" and m: "map_ok s" "sb_ok s" and b: "unat b < unat (ssize (sb s))" "map_bit (freemap s) (unat b)"
  shows "\<exists>s'. bfree 1 b s = Ret () s' \<and> edited s ((content s 1)(bmapstart (sb s) := clear_map_bit (unat b) (freemap s))) 1 s'"
proof -
  let ?B = "bmapstart (sb s)"
  obtain t where t: "readsb 1 s = Ret (sb s) t" "edited s (content s 1) 0 t" using readsb_ready [OF r] m(2) by (auto simp: sb_ok_def)
  have q: "sb t = sb s" "t\<lparr>sb := sb s\<rparr> = t" "\<not> log_area t ?B" "content t 1 = content s 1"
    using t(2) same_fs [of s t] m(1) by (auto simp: edited_def map_ok_def)
  obtain c s1 s2 where 1: "bread 1 ?B t = Ret c s1" "data (bufs s1 c) = freemap s"
    "rbind (log_write c (upd_buf c (\<lambda>x. x\<lparr>data := clear_map_bit (unat b) (data x)\<rparr>) s1)) (\<lambda>_ s. brelse c s) = Ret () s2"
    "edited t ((content t 1)(?B := clear_map_bit (unat b) (freemap s))) 1 s2"
    using edit_ok [of t ?B "clear_map_bit (unat b)"] edited_ready [OF r t(2), of 1] q m(1) by (auto simp: map_ok_def)
  have "unat b mod BPB = unat b" "BBLOCK (unat b) (sb s) = ?B" using b(1) m(1) by (auto simp: BBLOCK_def map_ok_def)
  then have "bfree 1 b s = Ret () s2"
    unfolding bfree_def t(1) rbind.simps Let_def q(2) using q(1) 1 b(2) by simp
  moreover have "edited s ((content s 1)(?B := clear_map_bit (unat b) (freemap s))) 1 s2"
    using edited_trans [OF t(2) 1(4)] q(4) by simp
  ultimately show ?thesis by blast
qed

text \<open>
  C27. Freeing the block that \<^verbatim>\<open>balloc\<close> returned gives back the map that was there before; the block is free
  again and nothing but the block itself has changed.
\<close>

theorem bfree_undoes_balloc:
  assumes "fs_ready s 3" "map_ok s" "sb_ok s" "balloc 1 s = Ret b s'"
  shows "\<exists>s''. bfree 1 b s' = Ret () s'' \<and> (\<forall>j. map_bit (freemap s'') j = map_bit (freemap s) j) \<and>
    (\<forall>n. n \<noteq> b \<and> n \<noteq> bmapstart (sb s) \<longrightarrow> content s'' 1 n = content s 1 n)"
proof (cases "first_from (\<lambda>i. \<not> map_bit (freemap s) i) 0 (unat (ssize (sb s)))")
  case None
  then have "\<And>i. i < unat (ssize (sb s)) \<Longrightarrow> map_bit (freemap s) i" by (simp add: first_from_None_iff)
  then show ?thesis using balloc_full [OF fs_ready_mono [OF assms(1)] assms(2)] assms(4) by auto
next
  case (Some i)
  let ?B = "bmapstart (sb s)"
  note i = first_from_SomeD [OF Some]
  have ui: "unat (of_nat i :: 32 word) = i" using i(2) assms(2) by (simp add: map_ok_def unat_of_nat)
  have s': "b = of_nat i" "edited s ((content s 1)(?B := set_map_bit i (freemap s), of_nat i := (\<lambda>_. 0))) 2 s'"
    using balloc_ok [OF fs_ready_mono [OF assms(1)] assms(2) Some] assms(4) by auto
  have d: "of_nat i \<noteq> ?B" "of_nat i \<noteq> (1 :: 32 word)" using i(3) assms(2,3) ui by (auto simp: map_ok_def sb_ok_def)
  have c: "content s' 1 n = ((content s 1)(?B := set_map_bit i (freemap s), of_nat i := (\<lambda>_. 0))) n"
    and same: "sb s' = sb s" "\<And>n. log_area s' n = log_area s n" for n
    using s'(2) same_fs [of s s'] by (auto simp: edited_def)
  have fm: "freemap s' = set_map_bit i (freemap s)" using c d same by simp
  have mo: "map_ok s'" using assms(2) same fm by (auto simp: map_ok_def map_bit_set)
  have "sb_ok s'" using assms(3) c d same fm by (simp add: sb_ok_def map_bit_set)
  moreover have "fs_ready s' 1" using edited_ready [OF assms(1) s'(2)] by simp
  ultimately obtain s'' where s'': "bfree 1 b s' = Ret () s''"
    "edited s' ((content s' 1)(?B := clear_map_bit i (freemap s'))) 1 s''"
    using bfree_ok [of s' b] mo s'(1) i(2) ui fm same by (auto simp: map_bit_set)
  have c2: "content s'' 1 n = ((content s' 1)(?B := clear_map_bit i (freemap s'))) n" "sb s'' = sb s'" for n
    using s''(2) same_fs [of s' s''] by (auto simp: edited_def)
  then have "freemap s'' = clear_map_bit i (set_map_bit i (freemap s))" using fm same by simp
  then have "map_bit (freemap s'') j = map_bit (freemap s) j" for j using i(3) by (auto simp: map_bit_clear map_bit_set)
  moreover have "n \<noteq> b \<and> n \<noteq> ?B \<longrightarrow> content s'' 1 n = content s 1 n" for n using c2 c s'(1) same by simp
  ultimately show ?thesis using s''(1) by blast
qed

subsection \<open>Inodes on disk\<close>

lemma wr32_outside: "k < i \<or> i + 4 \<le> k \<Longrightarrow> wr32 i v d k = d k"
  by (auto simp: wr32_def)

lemma wr32s_outside: "k < a \<or> a + 4 * n \<le> k \<Longrightarrow> fold (\<lambda>i. wr32 (a + 4 * i) (v i)) [0..<n] d k = d k"
  by (induction n) (auto simp: wr32_outside)

lemma rd32_wr32s: "j < n \<Longrightarrow> rd32 (fold (\<lambda>i. wr32 (a + 4 * i) (v i)) [0..<n] d) (a + 4 * j) = v j"
proof (induction n)
  case (Suc n)
  then show ?case by (cases "j = n") (auto simp: rd32_wr32_other)
qed simp

lemma rd16_wr16 [simp]: "rd16 (wr16 i v d) i = v"
  by (simp add: rd16_def wr16_def) (intro bit_word_eqI, auto simp: bit_simps)

lemma rd16_other:
  "j + 2 \<le> i \<or> i + 2 \<le> j \<Longrightarrow> rd16 (wr16 i v d) j = rd16 d j" "j + 2 \<le> i \<or> i + 4 \<le> j \<Longrightarrow> rd16 (wr32 i w d) j = rd16 d j"
  by (auto simp: rd16_def wr16_def wr32_def)

lemma put_dinode_outside: "k < dip (inum ip) \<or> dip (inum ip) + 64 \<le> k \<Longrightarrow> put_dinode ip d k = d k"
  unfolding put_dinode_def Let_def by (subst wr32s_outside) (auto simp: wr16_def wr32_outside)

lemma rd_cong: "(\<And>k. i \<le> k \<Longrightarrow> k < i + 4 \<Longrightarrow> d k = d' k) \<Longrightarrow> rd32 d i = rd32 d' i"
    "(\<And>k. i \<le> k \<Longrightarrow> k < i + 2 \<Longrightarrow> e k = e' k) \<Longrightarrow> rd16 e i = rd16 e' i"
  by (simp_all add: rd32_def rd16_def)

lemma get_put_dinode:
  assumes "inum jp = inum ip"
  shows "get_dinode (put_dinode ip d) jp = jp\<lparr>itype := itype ip, major := major ip, minor := minor ip, nlink := nlink ip,
    isize := isize ip, addrs := (\<lambda>j. if j < NDIRECT + 1 then addrs ip j else addrs jp j)\<rparr>"
proof -
  let ?q = "dip (inum ip)"
  let ?e = "wr32 (?q + 8) (isize ip) (wr16 (?q + 6) (nlink ip) (wr16 (?q + 4) (minor ip) (wr16 (?q + 2) (major ip) (wr16 ?q (itype ip) d))))"
  let ?p = "put_dinode ip d"
  have p: "?p k = ?e k" if "k < ?q + 12" for k
    using that unfolding put_dinode_def Let_def by (intro wr32s_outside) simp
  have "rd16 ?p ?q = rd16 ?e ?q" "rd16 ?p (?q + 2) = rd16 ?e (?q + 2)" "rd16 ?p (?q + 4) = rd16 ?e (?q + 4)"
    "rd16 ?p (?q + 6) = rd16 ?e (?q + 6)" "rd32 ?p (?q + 8) = rd32 ?e (?q + 8)"
    by (intro rd_cong; simp add: p)+
  moreover have "rd16 ?e ?q = itype ip" "rd16 ?e (?q + 2) = major ip" "rd16 ?e (?q + 4) = minor ip" "rd16 ?e (?q + 6) = nlink ip"
    by (simp_all add: rd16_other)
  moreover have "rd32 ?p (?q + 12 + 4 * j) = addrs ip j" if "j < NDIRECT + 1" for j
    unfolding put_dinode_def Let_def using rd32_wr32s [OF that, of "?q + 12"] by simp
  ultimately show ?thesis using assms unfolding get_dinode_def Let_def by (auto simp: fun_eq_iff cong: if_cong)
qed

lemma get_put_dinode_other:
  assumes "dip (inum jp) \<noteq> dip (inum ip)"
  shows "get_dinode (put_dinode ip d) jp = get_dinode d jp"
proof -
  have "dip (inum jp) + 64 \<le> dip (inum ip) \<or> dip (inum ip) + 64 \<le> dip (inum jp)" using assms by (auto simp: dip_def)
  then have same: "put_dinode ip d k = d k" if "dip (inum jp) \<le> k" "k < dip (inum jp) + 64" for k
    using that by (intro put_dinode_outside) auto
  then have h: "rd16 (put_dinode ip d) (dip (inum jp) + a) = rd16 d (dip (inum jp) + a)" if "a < 62" for a
    using that by (intro rd_cong) auto
  moreover have "rd32 (put_dinode ip d) (dip (inum jp) + a) = rd32 d (dip (inum jp) + a)" if "a \<le> 60" for a
    using that same by (intro rd_cong) auto
  ultimately show ?thesis
    unfolding get_dinode_def Let_def using h [of 0] h [of 2] by (auto simp: add.assoc fun_eq_iff cong: if_cong)
qed

text \<open>The inode table is no concern of the layers below.\<close>

lemma view_inode [simp]:
  "bio_ok (upd_inode i f s) H = bio_ok s H" "content (upd_inode i f s) = content s" "pinned (upd_inode i f s) = pinned s"
  by (rule bio_ok_cong, simp_all add: mypid_def upd_inode_def, intro ext, rule content_cong [THEN fun_cong], simp_all,
      rule pinned_cong, simp)

lemma ready_inode [simp]: "fs_ready (upd_inode i f s) k = fs_ready s k" "log_area (upd_inode i f s) n = log_area s n"
  unfolding fs_ready_def log_io_def log_inv_def log_blocks_def log_area_def view_inode by (simp_all add: upd_inode_def)

lemma inode_sel [simp]:
  "icache (upd_inode i f s) = (icache s)(i := f (icache s i))" "sb (upd_inode i f s) = sb s" "mypid (upd_inode i f s) = mypid s"
  by (simp_all add: upd_inode_def mypid_def)

abbreviation (input) iblk :: "nat \<Rightarrow> 'z fs_st_scheme \<Rightarrow> 32 word" where
  "iblk ip s \<equiv> IBLOCK (inum (icache s ip)) (sb s)"

lemma iupdate_ok:
  assumes "fs_ready s 1" "idev (icache s ip) = 1" "iblk ip s < FSSIZE" "\<not> log_area s (iblk ip s)"
  shows "\<exists>s'. iupdate ip s = Ret () s' \<and>
    edited s ((content s 1)(iblk ip s := put_dinode (icache s ip) (content s 1 (iblk ip s)))) 1 s'"
proof -
  obtain b s1 s' where 1: "bread 1 (iblk ip s) s = Ret b s1" "bio_frame s s1"
    "rbind (log_write b (upd_buf b (\<lambda>x. x\<lparr>data := put_dinode (icache s ip) (data x)\<rparr>) s1)) (\<lambda>_ s. brelse b s) = Ret () s'"
    "edited s ((content s 1)(iblk ip s := put_dinode (icache s ip) (content s 1 (iblk ip s)))) 1 s'"
    using edit_ok [OF assms(1,3,4), of "put_dinode (icache s ip)"] by blast
  then show ?thesis using assms(2) frame_fs [OF 1(2)] by (auto simp: iupdate_def)
qed

lemma brelse_inode: "brelse b s = Ret () s' \<Longrightarrow> brelse b (upd_inode i f s) = Ret () (upd_inode i f s')"
  by (cases s) (auto simp: brelse_def holdingsleep_def releasesleep_def wakeup_b_def upd_buf_def upd_inode_def link_front_def
      unlink_buf_def mypid_def Let_def split: if_splits)

lemma get_dinode_ilk: "get_dinode d (x\<lparr>ilk := l\<rparr>) = (get_dinode d x)\<lparr>ilk := l\<rparr>"
  by (cases x) (simp add: get_dinode_def Let_def cong: if_cong)

lemma ilock_ok:
  assumes r: "fs_ready s k" and ip: "iref (icache s ip) \<ge> 1" "\<not> slocked (ilk (icache s ip))" "\<not> ivalid (icache s ip)"
      "idev (icache s ip) = 1" "iblk ip s < FSSIZE"
    and t: "itype (get_dinode (content s 1 (iblk ip s)) (icache s ip)) \<noteq> 0"
  shows "\<exists>s'. ilock ip s = Ret () s' \<and> fs_ready s' k \<and> (\<forall>n. content s' 1 n = content s 1 n) \<and>
    icache s' ip = (get_dinode (content s 1 (iblk ip s)) (icache s ip))\<lparr>ilk := \<lparr>slocked = True, spid = mypid s\<rparr>, ivalid := True\<rparr>"
proof -
  let ?l = "upd_inode ip (\<lambda>x. x\<lparr>ilk := \<lparr>slocked = True, spid = mypid s\<rparr>\<rparr>) s"
  obtain b s1 where 1: "bread 1 (iblk ip s) ?l = Ret b s1" "data (bufs s1 b) = content s 1 (iblk ip s)" "bio_frame ?l s1"
    using peek_ok [of ?l k "iblk ip s"] r ip(5) by auto
  let ?g = "upd_inode ip (get_dinode (data (bufs s1 b))) s1"
  obtain s2 where 2: "brelse b s1 = Ret () s2" "edited ?l (content s 1) 0 s2"
    using peek_ok [of ?l k "iblk ip s"] r ip(5) 1(1) by auto
  let ?s2 = "upd_inode ip (get_dinode (data (bufs s1 b))) s2"
  let ?s' = "upd_inode ip (\<lambda>x. x\<lparr>ivalid := True\<rparr>) ?s2"
  have ic: "icache s2 = icache ?l" "sb s2 = sb s" using 2(2) same_fs [of ?l s2] by (auto simp: edited_def)
  have "ilock ip s = Ret () ?s'"
    unfolding ilock_def using ip 1 brelse_inode [OF 2(1), of ip "get_dinode (data (bufs s1 b))"] t ic
    by (simp add: acquiresleep_i_def get_dinode_def Let_def)
  moreover have "fs_ready s2 k" using edited_ready [of ?l k _ 0 s2 k] r 2(2) by simp
  moreover have "icache ?s' ip = (get_dinode (content s 1 (iblk ip s)) (icache s ip))\<lparr>ilk := \<lparr>slocked = True, spid = mypid s\<rparr>, ivalid := True\<rparr>"
    using 1(2) ic by (simp add: get_dinode_ilk)
  ultimately show ?thesis using 2(2) by (intro exI [of _ ?s']) (simp add: edited_def)
qed

text \<open>
  C26. An inode that \<^verbatim>\<open>iupdate\<close> has written is what \<^verbatim>\<open>ilock\<close> reads when it is needed again, in whatever slot of the
  inode table and in any later state in which its block on disk still has that content: type, device numbers,
  link count, size and all block addresses. The other inodes in the same block are not affected.
\<close>

theorem inode_write_then_read:
  assumes "fs_ready s 1" "idev (icache s ip) = 1" "iblk ip s < FSSIZE" "\<not> log_area s (iblk ip s)" "itype (icache s ip) \<noteq> 0"
  shows "\<exists>s'. iupdate ip s = Ret () s' \<and>
    (\<forall>t jp. fs_ready t 0 \<longrightarrow> sb t = sb s \<longrightarrow> content t 1 (iblk ip s) = content s' 1 (iblk ip s) \<longrightarrow>
      inum (icache t jp) = inum (icache s ip) \<longrightarrow> idev (icache t jp) = 1 \<longrightarrow> iref (icache t jp) \<ge> 1 \<longrightarrow>
      \<not> slocked (ilk (icache t jp)) \<longrightarrow> \<not> ivalid (icache t jp) \<longrightarrow>
      (\<exists>t'. ilock jp t = Ret () t' \<and> itype (icache t' jp) = itype (icache s ip) \<and> major (icache t' jp) = major (icache s ip) \<and>
        minor (icache t' jp) = minor (icache s ip) \<and> nlink (icache t' jp) = nlink (icache s ip) \<and>
        isize (icache t' jp) = isize (icache s ip) \<and> (\<forall>j\<le>NDIRECT. addrs (icache t' jp) j = addrs (icache s ip) j))) \<and>
    (\<forall>x. dip (inum x) \<noteq> dip (inum (icache s ip)) \<longrightarrow>
      get_dinode (content s' 1 (iblk ip s)) x = get_dinode (content s 1 (iblk ip s)) x)"
proof -
  obtain s' where s': "iupdate ip s = Ret () s'"
    "edited s ((content s 1)(iblk ip s := put_dinode (icache s ip) (content s 1 (iblk ip s)))) 1 s'"
    using iupdate_ok [OF assms(1-4)] by blast
  have c: "content s' 1 (iblk ip s) = put_dinode (icache s ip) (content s 1 (iblk ip s))" using s'(2) by (simp add: edited_def)
  have "\<exists>t'. ilock jp t = Ret () t' \<and> itype (icache t' jp) = itype (icache s ip) \<and> major (icache t' jp) = major (icache s ip) \<and>
        minor (icache t' jp) = minor (icache s ip) \<and> nlink (icache t' jp) = nlink (icache s ip) \<and>
        isize (icache t' jp) = isize (icache s ip) \<and> (\<forall>j\<le>NDIRECT. addrs (icache t' jp) j = addrs (icache s ip) j)"
    if t: "fs_ready t 0" "sb t = sb s" "content t 1 (iblk ip s) = content s' 1 (iblk ip s)" "inum (icache t jp) = inum (icache s ip)"
      "idev (icache t jp) = 1" "iref (icache t jp) \<ge> 1" "\<not> slocked (ilk (icache t jp))" "\<not> ivalid (icache t jp)" for t jp
  proof -
    note g = get_put_dinode [OF t(4), of "content s 1 (iblk ip s)"]
    have b: "iblk jp t = iblk ip s" using t by simp
    have "itype (get_dinode (content t 1 (iblk jp t)) (icache t jp)) \<noteq> 0" using t(3) c assms(5) g b by simp
    then obtain t' where "ilock jp t = Ret () t'"
      "icache t' jp = (get_dinode (content t 1 (iblk jp t)) (icache t jp))\<lparr>ilk := \<lparr>slocked = True, spid = mypid t\<rparr>, ivalid := True\<rparr>"
      using ilock_ok [OF t(1,6,7,8,5)] b assms(3) by auto
    then show ?thesis using t(3) c g b by auto
  qed
  then show ?thesis using s'(1) c get_put_dinode_other by auto
qed

subsection \<open>Contents of files\<close>

text \<open>
  Block number \<open>k\<close> of a file, and the bytes of the file, read off the inode and the blocks on disk. A file is
  mapped up to block \<open>n\<close> when all these blocks have been allocated.
\<close>

definition fblock :: "'z fs_st_scheme \<Rightarrow> inode \<Rightarrow> nat \<Rightarrow> 32 word" where
  "fblock s x k = (if k < NDIRECT then addrs x k else rd32 (content s 1 (addrs x NDIRECT)) (4 * (k - NDIRECT)))"

definition fbyte :: "'z fs_st_scheme \<Rightarrow> inode \<Rightarrow> nat \<Rightarrow> byte" where
  "fbyte s x j = content s 1 (fblock s x (j div BSIZE)) (j mod BSIZE)"

definition mapped :: "'z fs_st_scheme \<Rightarrow> inode \<Rightarrow> nat \<Rightarrow> bool" where
  "mapped s x n \<longleftrightarrow> idev x = 1 \<and> n \<le> NDIRECT + NINDIRECT \<and>
     (\<forall>k<n. fblock s x k \<noteq> 0 \<and> fblock s x k < FSSIZE \<and> (NDIRECT \<le> k \<longrightarrow> addrs x NDIRECT \<noteq> 0 \<and> addrs x NDIRECT < FSSIZE))"

lemma bmap_mapped:
  assumes r: "fs_ready s j" and m: "mapped s (icache s ip) n" "k < n"
  shows "\<exists>s'. bmap ip k s = Ret (fblock s (icache s ip) k) s' \<and> edited s (content s 1) 0 s'"
proof (cases "k < NDIRECT")
  case True
  then show ?thesis using m edited_refl [OF r] by (auto simp: bmap_def mapped_def fblock_def)
next
  case False
  let ?x = "icache s ip"
  have a: "addrs ?x NDIRECT \<noteq> 0" "addrs ?x NDIRECT < FSSIZE" "fblock s ?x k \<noteq> 0" "idev ?x = 1" "k - NDIRECT < NINDIRECT"
    using m False by (auto simp: mapped_def)
  obtain b s1 s2 where 1: "bread 1 (addrs ?x NDIRECT) s = Ret b s1" "data (bufs s1 b) = content s 1 (addrs ?x NDIRECT)"
    "brelse b s1 = Ret () s2" "edited s (content s 1) 0 s2"
    using peek_ok [OF r a(2)] by blast
  have f: "fblock s ?x k = rd32 (content s 1 (addrs ?x NDIRECT)) (4 * (k - NDIRECT))" using False by (simp add: fblock_def)
  then show ?thesis using 1 a False by (auto simp: bmap_def)
qed

text \<open>The state after reading is another one, but all that matters here is the same.\<close>

lemma edited_same:
  assumes "edited s (content s 1) 0 s'"
  shows "content s' 1 = content s 1" "icache s' = icache s" "sb s' = sb s" "fblock s' = fblock s" "fbyte s' = fbyte s" "mapped s' = mapped s"
    "log_area s' = log_area s"
proof -
  show c: "content s' 1 = content s 1" and "icache s' = icache s" "sb s' = sb s" "log_area s' = log_area s"
    using assms same_fs [of s s'] by (auto simp: edited_def)
  show f: "fblock s' = fblock s" using c by (intro ext) (simp add: fblock_def)
  show "fbyte s' = fbyte s" using c f by (simp add: fbyte_def [abs_def])
  show "mapped s' = mapped s" using f by (simp add: mapped_def [abs_def])
qed

text \<open>\<^verbatim>\<open>bmap\<close> and \<^verbatim>\<open>bread\<close> together fetch the block of the file that holds byte \<open>off\<close>.\<close>

lemma fetch_ok:
  assumes r: "fs_ready s j" and m: "mapped s (icache s ip) n" "k < n"
  shows "\<exists>s1 b s2 s3. bmap ip k s = Ret (fblock s (icache s ip) k) s1 \<and> icache s1 = icache s \<and> bread 1 (fblock s (icache s ip) k) s1 = Ret b s2 \<and>
    data (bufs s2 b) = content s 1 (fblock s (icache s ip) k) \<and> brelse b s2 = Ret () s3 \<and> edited s (content s 1) 0 s3"
proof -
  obtain s1 where 1: "bmap ip k s = Ret (fblock s (icache s ip) k) s1" "edited s (content s 1) 0 s1"
    using bmap_mapped [OF assms] by blast
  have "fs_ready s1 j" "fblock s (icache s ip) k < FSSIZE" using edited_ready [OF r 1(2), of j] m by (auto simp: mapped_def)
  from peek_ok [OF this] show ?thesis
    using 1 edited_trans [OF 1(2)] edited_same(1,2) [OF 1(2)] by auto
qed

lemma bytes_split:
  assumes "m \<le> r" "off mod BSIZE + m \<le> BSIZE"
  shows "map (\<lambda>i. content s 1 (fblock s x (off div BSIZE)) (off mod BSIZE + i)) [0..<m] @ map (fbyte s x) [off + m..<off + r] =
    map (fbyte s x) [off..<off + r]"
proof -
  have "fbyte s x (off + i) = content s 1 (fblock s x (off div BSIZE)) (off mod BSIZE + i)" if "i < m" for i
  proof -
    have "off + i = BSIZE * (off div BSIZE) + (off mod BSIZE + i)" by simp
    moreover have "off mod BSIZE + i < BSIZE" using that assms(2) by simp
    ultimately have "(off + i) div BSIZE = off div BSIZE" "(off + i) mod BSIZE = off mod BSIZE + i"
      by (metis add.commute div_less div_mult_self4 zero_neq_numeral add.left_neutral, metis mod_less mod_mult_self4)
    then show ?thesis by (simp add: fbyte_def)
  qed
  then have "map (\<lambda>i. content s 1 (fblock s x (off div BSIZE)) (off mod BSIZE + i)) [0..<m] = map (fbyte s x) [off..<off + m]"
    by (intro nth_equalityI) auto
  moreover have "[off..<off + r] = [off..<off + m] @ [off + m..<off + r]" 
    using assms(1) upt_add_eq_append [of off "off + m" "r - m"] by simp
  ultimately show ?thesis by simp
qed

lemma readi_loop_ok:
  assumes "fs_ready s j" "mapped s (icache s ip) n" "off + r \<le> BSIZE * n"
  shows "\<exists>s'. readi_loop ip off r s = Ret (map (fbyte s (icache s ip)) [off..<off + r]) s' \<and> edited s (content s 1) 0 s'"
  using assms
proof (induction r arbitrary: off s rule: less_induct)
  case (less r)
  show ?case
  proof (cases "r = 0")
    case True
    then show ?thesis using edited_refl [OF less.prems(1)] by (simp add: readi_loop.simps)
  next
    case False
    let ?k = "off div BSIZE" and ?x = "icache s ip" and ?m = "min r (BSIZE - off mod BSIZE)"
    have k: "?k < n" using less.prems(3) False by (simp add: less_mult_imp_div_less mult.commute)
    obtain s1 b s2 s3 where 1: "bmap ip ?k s = Ret (fblock s ?x ?k) s1" "icache s1 = icache s" "bread 1 (fblock s ?x ?k) s1 = Ret b s2"
      "data (bufs s2 b) = content s 1 (fblock s ?x ?k)" "brelse b s2 = Ret () s3" "edited s (content s 1) 0 s3"
      using fetch_ok [OF less.prems(1,2) k] by blast
    note e = edited_same [OF 1(6)]
    have m: "0 < ?m" "?m \<le> r" "off mod BSIZE + ?m \<le> BSIZE" using False by auto
    obtain s4 where 4: "readi_loop ip (off + ?m) (r - ?m) s3 = Ret (map (fbyte s ?x) [off + ?m..<off + r]) s4" "edited s3 (content s3 1) 0 s4"
    proof -
      have "fs_ready s3 j" using edited_ready [OF less.prems(1) 1(6), of j] by simp
      moreover have "mapped s3 (icache s3 ip) n" using less.prems(2) e by simp
      moreover have "r - ?m < r" "off + ?m + (r - ?m) \<le> BSIZE * n" "off + ?m + (r - ?m) = off + r" using m less.prems(3) by linarith+
      ultimately have "\<exists>s'. readi_loop ip (off + ?m) (r - ?m) s3 = Ret (map (fbyte s3 (icache s3 ip)) [off + ?m..<off + r]) s' \<and>
          edited s3 (content s3 1) 0 s'"
        using less.IH [of "r - ?m" s3 "off + ?m"] by metis
      then show ?thesis using that e by auto
    qed
    have "idev ?x = 1" using less.prems(2) by (simp add: mapped_def)
    then have "readi_loop ip off r s = Ret (map (fbyte s ?x) [off..<off + r]) s4"
      using False 1 4(1) bytes_split [OF m(2,3), of s ?x] by (subst readi_loop.simps) simp
    then show ?thesis using edited_trans [OF 1(6) 4(2)] e(1) by auto
  qed
qed

text \<open>Files whose blocks can be written: all different, outside the log, and not the block of indirect addresses.\<close>

definition file_ok :: "'z fs_st_scheme \<Rightarrow> inode \<Rightarrow> nat \<Rightarrow> bool" where
  "file_ok s x n \<longleftrightarrow> mapped s x n \<and> inj_on (fblock s x) {..<n} \<and> (\<forall>k<n. \<not> log_area s (fblock s x k)) \<and>
     (NDIRECT < n \<longrightarrow> addrs x NDIRECT \<notin> fblock s x ` {..<n})"

text \<open>Two states in which a file has the same blocks; the second has other bytes in some of them.\<close>

definition rewritten :: "'z fs_st_scheme \<Rightarrow> inode \<Rightarrow> nat \<Rightarrow> nat \<Rightarrow> byte list \<Rightarrow> 'z fs_st_scheme \<Rightarrow> bool" where
  "rewritten s x n off src s' \<longleftrightarrow> (\<forall>m. m \<notin> fblock s x ` {..<n} \<longrightarrow> content s' 1 m = content s 1 m) \<and>
     (\<forall>k<n. fblock s' x k = fblock s x k) \<and>
     (\<forall>j<BSIZE * n. fbyte s' x j = (if off \<le> j \<and> j < off + length src then src ! (j - off) else fbyte s x j))"

lemma fblock_same:
  assumes "file_ok s x n" "\<And>m. m \<notin> fblock s x ` {..<n} \<Longrightarrow> content s' 1 m = content s 1 m" "k < n"
  shows "fblock s' x k = fblock s x k"
  using assms by (cases "k < NDIRECT") (auto simp: fblock_def file_ok_def)

lemma rewritten_ok:
  assumes "file_ok s x n" "rewritten s x n off src s'" "log_area s' = log_area s"
  shows "file_ok s' x n"
  using assms unfolding file_ok_def mapped_def rewritten_def inj_on_def by auto

lemma patch_block:
  assumes ok: "file_ok s x n" and k: "off div BSIZE < n" and m: "off mod BSIZE + length src \<le> BSIZE"
    and c: "\<And>q. content s' 1 q = ((content s 1)(fblock s x (off div BSIZE) :=
      (\<lambda>j. if off mod BSIZE \<le> j \<and> j < off mod BSIZE + length src then src ! (j - off mod BSIZE)
           else content s 1 (fblock s x (off div BSIZE)) j))) q"
  shows "rewritten s x n off src s'"
proof -
  let ?B = "fblock s x (off div BSIZE)"
  have out: "\<forall>q. q \<notin> fblock s x ` {..<n} \<longrightarrow> content s' 1 q = content s 1 q" using c k by auto
  have fb: "fblock s' x i = fblock s x i" if "i < n" for i using fblock_same [OF ok _ that] out by blast
  have "fbyte s' x j = (if off \<le> j \<and> j < off + length src then src ! (j - off) else fbyte s x j)" if j: "j < BSIZE * n" for j
  proof (cases "j div BSIZE = off div BSIZE")
    case True
    have jd: "j = BSIZE * (off div BSIZE) + j mod BSIZE" "off = BSIZE * (off div BSIZE) + off mod BSIZE" using True by (metis mult_div_mod_eq)+
    then have "off \<le> j \<longleftrightarrow> off mod BSIZE \<le> j mod BSIZE" "j < off + length src \<longleftrightarrow> j mod BSIZE < off mod BSIZE + length src"
      "j - off = j mod BSIZE - off mod BSIZE" by linarith+
    then show ?thesis using True fb [OF k] c [of ?B] by (simp add: fbyte_def)
  next
    case False
    have jn: "j div BSIZE < n" using j by (simp add: less_mult_imp_div_less mult.commute)
    have "fblock s x (j div BSIZE) \<noteq> ?B" using ok k jn False by (auto simp: file_ok_def inj_on_def)
    moreover have "\<not> (off \<le> j \<and> j < off + length src)"
    proof
      assume a: "off \<le> j \<and> j < off + length src"
      then have "off div BSIZE \<le> j div BSIZE" by (simp add: div_le_mono)
      moreover have "j < BSIZE * (off div BSIZE) + BSIZE" using a m mult_div_mod_eq [of BSIZE off] by linarith
      then have "j div BSIZE < off div BSIZE + 1" by (simp add: less_mult_imp_div_less mult.commute)
      ultimately show False using False by simp
    qed
    ultimately show ?thesis using fb [OF jn] c by (auto simp: fbyte_def)
  qed
  then show ?thesis using out fb by (simp add: rewritten_def)
qed

lemma rewritten_append:
  assumes "rewritten s x n off a s1" "rewritten s1 x n (off + length a) b s2"
  shows "rewritten s x n off (a @ b) s2"
proof -
  have i: "fblock s1 x ` {..<n} = fblock s x ` {..<n}" using assms(1) by (auto simp: rewritten_def)
  have "fbyte s2 x j = (if off \<le> j \<and> j < off + length (a @ b) then (a @ b) ! (j - off) else fbyte s x j)" if "j < BSIZE * n" for j
    using assms that by (auto simp: rewritten_def nth_append)
  then show ?thesis using assms i by (auto simp: rewritten_def)
qed

lemma next_block: "(a + (BSIZE - a mod BSIZE)) mod BSIZE = (0 :: nat)"
proof -
  obtain q r where "a = r + BSIZE * q" "r < BSIZE" by (metis add.commute mult_div_mod_eq mod_less_divisor zero_less_numeral)
  then have "a + (BSIZE - a mod BSIZE) = BSIZE * (q + 1)" by simp
  then show ?thesis by simp
qed

lemma writei_loop_Nil: "writei_loop ip off [] s = Ret off s"
  by (subst writei_loop.simps) simp

lemma writei_loop_ok:
  assumes "fs_ready s (int k)" "file_ok s (icache s ip) n" "off + length src \<le> BSIZE * n" "off mod BSIZE + length src \<le> BSIZE * k"
  shows "\<exists>s'. writei_loop ip off src s = Ret (off + length src) s' \<and> edited s (content s' 1) (int k) s' \<and>
    rewritten s (icache s ip) n off src s'"
  using assms
proof (induction k arbitrary: off src s)
  case 0
  then show ?case using edited_refl [OF 0(1)] by (auto simp: writei_loop_Nil rewritten_def)
next
  case (Suc k)
  show ?case
  proof (cases "src = []")
    case True
    have "edited s (content s 1) (int (Suc k)) s" using edited_refl [OF Suc.prems(1)] by (simp add: edited_def)
    then show ?thesis using True by (auto simp: writei_loop_Nil rewritten_def)
  next
    case False
    let ?x = "icache s ip" and ?q = "off div BSIZE" and ?o = "off mod BSIZE"
    let ?B = "fblock s ?x ?q"
    define m where "m = min (length src) (BSIZE - ?o)"
    define g where "g = (\<lambda>(d :: blockdata) j. if ?o \<le> j \<and> j < ?o + m then src ! (j - ?o) else d j)"
    have m: "0 < m" "m \<le> length src" "?o + m \<le> BSIZE" using False by (auto simp: m_def)
    have q: "?q < n" using Suc.prems(3) False m(1,2) by (intro less_mult_imp_div_less) (simp add: mult.commute)
    have mp: "mapped s ?x n" "idev ?x = 1" using Suc.prems(2) by (auto simp: file_ok_def mapped_def)
    obtain s1 where 1: "bmap ip ?q s = Ret ?B s1" "edited s (content s 1) 0 s1" using bmap_mapped [OF Suc.prems(1) mp(1) q] by blast
    note e = edited_same [OF 1(2)]
    have "fs_ready s1 1" "?B < FSSIZE" "\<not> log_area s1 ?B"
      using edited_ready [OF Suc.prems(1) 1(2), of 1] Suc.prems(2) q e by (auto simp: file_ok_def mapped_def)
    then obtain b s2 s3 where 2: "bread 1 ?B s1 = Ret b s2" "rbind (log_write b (upd_buf b (\<lambda>x. x\<lparr>data := g (data x)\<rparr>) s2)) (\<lambda>_ s. brelse b s) = Ret () s3"
      "edited s1 ((content s 1)(?B := g (content s 1 ?B))) 1 s3"
      using edit_ok [of s1 ?B g] e(1) by auto
    have e3: "edited s ((content s 1)(?B := g (content s 1 ?B))) 1 s3" using edited_trans [OF 1(2) 2(3)] by simp
    then have c3: "\<And>q. content s3 1 q = ((content s 1)(?B := g (content s 1 ?B))) q" "icache s3 = icache s" "log_area s3 = log_area s"
      using same_fs [of s s3] by (auto simp: edited_def)
    have "g d = (\<lambda>j. if ?o \<le> j \<and> j < ?o + length (take m src) then take m src ! (j - ?o) else d j)" for d
      using m by (intro ext) (auto simp: g_def)
    then have rw: "rewritten s ?x n off (take m src) s3"
      using m c3(1) by (intro patch_block [OF Suc.prems(2) q]) simp_all
    have step: "writei_loop ip off src s = writei_loop ip (off + m) (drop m src) s3"
    proof -
      obtain t where t: "log_write b (upd_buf b (\<lambda>x. x\<lparr>data := g (data x)\<rparr>) s2) = Ret () t" "brelse b t = Ret () s3"
        using 2(2) by auto
      note w = t(1) [unfolded g_def]
      show ?thesis
        by (subst writei_loop.simps) (simp add: False 1(1) 2(1) mp(2) e(2) m_def [symmetric] w t(2) Let_def)
    qed
    show ?thesis
    proof (cases "m = length src")
      case True
      then have "writei_loop ip off src s = Ret (off + length src) s3" using step by (simp add: writei_loop_Nil)
      moreover have "edited s (content s3 1) (int (Suc k)) s3" using e3 by (simp add: edited_def)
      ultimately show ?thesis using rw True by auto
    next
      case False
      then have mm: "m = BSIZE - ?o" by (simp add: m_def min_def split: if_splits)
      have o: "(off + m) mod BSIZE = 0" unfolding mm by (rule next_block)
      have "fs_ready s3 (int k)" using edited_ready [OF Suc.prems(1) e3] by simp
      moreover have "file_ok s3 ?x n" using rewritten_ok [OF Suc.prems(2) rw] c3 by simp
      moreover have "off + m + length (drop m src) \<le> BSIZE * n" using Suc.prems(3) m by simp
      moreover have "length src - m \<le> BSIZE * k" using Suc.prems(4) mm m(3) by simp
      then have "(off + m) mod BSIZE + length (drop m src) \<le> BSIZE * k" by (simp add: o)
      ultimately obtain s' where s': "writei_loop ip (off + m) (drop m src) s3 = Ret (off + m + length (drop m src)) s'"
        "edited s3 (content s' 1) (int k) s'" "rewritten s3 ?x n (off + m) (drop m src) s'"
        using Suc.IH [of s3 "off + m" "drop m src"] c3(2) by auto
      have "edited s (content s' 1) (int (Suc k)) s'" using edited_trans [OF e3 s'(2)] by (simp add: algebra_simps)
      moreover have "rewritten s ?x n off src s'"
        using rewritten_append [of s ?x n off "take m src" s3 "drop m src" s'] rw s'(3) m(2) by (simp add: min_absorb2)
      ultimately show ?thesis using step s'(1) m(2) by auto
    qed
  qed
qed

text \<open>\<^verbatim>\<open>writei\<close> on a mapped file, and \<^verbatim>\<open>readi\<close>.\<close>

lemma readi_ok:
  assumes r: "fs_ready s j" and ok: "mapped s (icache s ip) n" "itype (icache s ip) \<noteq> T_DEV"
    and len: "unat off + len \<le> unat (isize (icache s ip))" "unat (isize (icache s ip)) \<le> BSIZE * n"
  shows "\<exists>s'. readi dv ip off (of_nat len) s = Ret (int len, map (fbyte s (icache s ip)) [unat off..<unat off + len]) s' \<and>
    edited s (content s 1) 0 s'"
proof -
  let ?x = "icache s ip"
  have n: "n \<le> 140" using ok(1) by (simp add: mapped_def)
  then have l: "len < 2 ^ 31" "unat off + len < 2 ^ 32" using len by simp_all
  have u: "unat (of_nat len :: 32 word) = len" "unat (off + of_nat len) = unat off + len"
    using l by (simp_all add: unat_of_nat unat_word_ariths)
  have c: "\<not> isize ?x < off" "\<not> off + of_nat len < off" "\<not> isize ?x < off + of_nat len"
    using u len by (simp_all add: word_less_nat_alt)
  have "sint (of_nat len :: 32 word) = int len"
    using l(1) by (simp add: signed_of_nat signed_take_bit_int_eq_self)
  moreover obtain s' where "readi_loop ip (unat off) len s = Ret (map (fbyte s ?x) [unat off..<unat off + len]) s'" "edited s (content s 1) 0 s'"
    using readi_loop_ok [OF r ok(1), of "unat off" len] len by auto
  ultimately show ?thesis using ok(2) c u by (simp add: readi_def Let_def)
qed

lemma fblock_inode [simp]: "fblock (upd_inode i f s) = fblock s" "fbyte (upd_inode i f s) = fbyte s"
  by (intro ext, simp add: fblock_def fbyte_def)+

lemma fblock_size [simp]: "fblock s (x\<lparr>isize := z\<rparr>) = fblock s x" "fbyte s (x\<lparr>isize := z\<rparr>) = fbyte s x"
  by (intro ext, simp add: fblock_def fbyte_def)+

lemma mapped_size [simp]: "mapped s (x\<lparr>isize := z\<rparr>) n = mapped s x n" "mapped (upd_inode i f s) x n = mapped s x n"
  by (simp_all add: mapped_def)

lemma writei_ok:
  fixes s :: "'z fs_st_scheme" and ip :: nat
  defines "x \<equiv> icache s ip"
  assumes r: "fs_ready s (int k + 1)" and ok: "file_ok s x n" "itype x \<noteq> T_DEV"
    and ib: "iblk ip s < FSSIZE" "\<not> log_area s (iblk ip s)"
    and off: "unat off \<le> unat (isize x)" "unat off + length src \<le> BSIZE * n" "unat off mod BSIZE + length src \<le> BSIZE * k"
  shows "\<exists>t s'. writei dw ip src off s = Ret (int (length src)) s' \<and> rewritten s x n (unat off) src t \<and>
     icache s' ip = x\<lparr>isize := of_nat (max (unat (isize x)) (unat off + length src))\<rparr> \<and>
     fs_ready s' 0 \<and> (\<forall>m. m \<noteq> iblk ip s \<longrightarrow> content s' 1 m = content t 1 m)"
proof -
  let ?o = "unat off" and ?l = "length src"
  have n: "n \<le> 140" and dev: "idev x = 1" using ok(1) by (simp_all add: file_ok_def mapped_def)
  have l: "?l < 2 ^ 31" "?o + ?l < 2 ^ 32" using off(2) n by simp_all
  have u: "unat (of_nat ?l :: 32 word) = ?l" "unat (off + of_nat ?l) = ?o + ?l" "sint (of_nat ?l :: 32 word) = int ?l"
    using l by (simp_all add: unat_of_nat unat_word_ariths signed_of_nat signed_take_bit_int_eq_self)
  have c: "\<not> isize x < off" "\<not> off + of_nat ?l < off" "\<not> 71680 < off + (of_nat ?l :: 32 word)"
    using u off(1,2) n by (simp_all add: word_less_nat_alt)
  obtain t where t: "writei_loop ip ?o src s = Ret (?o + ?l) t" "edited s (content t 1) (int k) t" "rewritten s x n ?o src t"
    using writei_loop_ok [of s k ip n ?o src] fs_ready_mono [OF r] ok off by (auto simp: x_def)
  have same: "icache t = icache s" "sb t = sb s" "log_area t = log_area s" using t(2) same_fs [of s t] by (auto simp: edited_def)
  have rt: "fs_ready t 1" using edited_ready [OF r t(2)] by simp
  show ?thesis
  proof (cases "?l > 0 \<and> ?o + ?l > unat (isize x)")
    case True
    let ?u = "upd_inode ip (\<lambda>x. x\<lparr>isize := of_nat (?o + ?l)\<rparr>) t"
    have "iblk ip ?u = iblk ip s" using same by simp
    then obtain s' where s': "iupdate ip ?u = Ret () s'"
      "edited ?u ((content ?u 1)(iblk ip s := put_dinode (icache ?u ip) (content ?u 1 (iblk ip s)))) 1 s'"
      using iupdate_ok [of ?u ip] rt ib dev same by (auto simp: x_def)
    have "writei dw ip src off s = Ret (int ?l) s'"
      using ok(2) c t(1) True s'(1) u(1,3) same by (simp add: writei_def Let_def x_def [symmetric] word_less_nat_alt)
    moreover have "icache s' = icache ?u" "\<forall>m. m \<noteq> iblk ip s \<longrightarrow> content s' 1 m = content t 1 m"
      using s'(2) same_fs [of ?u s'] by (auto simp: edited_def)
    moreover have "fs_ready s' 0" using edited_ready [of ?u 1 _ 1 s' 0] rt s'(2) by simp
    ultimately show ?thesis using True same t(3) by (intro exI [of _ t] exI [of _ s']) (auto simp: x_def max_def)
  next
    case False
    then have mx: "max (unat (isize x)) (?o + ?l) = unat (isize x)" using off(1) by auto
    have "writei dw ip src off s = Ret (int ?l) t"
      using ok(2) c t(1) False u(1,3) same by (auto simp: writei_def Let_def x_def [symmetric] word_less_nat_alt)
    then show ?thesis using same rt mx t(3) fs_ready_mono [of t 1 0] by (intro exI [of _ t]) (auto simp: x_def)
  qed
qed


subsection \<open>The table of inodes in memory\<close>

text \<open>An inode in use is in one slot of the table only.\<close>

definition icache_ok :: "'z fs_st_scheme \<Rightarrow> bool" where
  "icache_ok s \<longleftrightarrow> (\<forall>i<NINODE. 0 \<le> iref (icache s i)) \<and>
     (\<forall>i<NINODE. \<forall>j<NINODE. iref (icache s i) > 0 \<longrightarrow> iref (icache s j) > 0 \<longrightarrow>
       idev (icache s i) = idev (icache s j) \<longrightarrow> inum (icache s i) = inum (icache s j) \<longrightarrow> i = j)"

text \<open>
  C28. \<^verbatim>\<open>iget\<close> keeps every inode in a single slot of the table: it returns the slot that has the inode already, with
  one more reference, or else a free slot, to be filled by \<^verbatim>\<open>ilock\<close>; no other slot changes, and it panics exactly
  when the inode is not there and all slots are taken.
\<close>

theorem iget_unique:
  assumes ok: "icache_ok s"
  shows "if \<exists>i<NINODE. iref (icache s i) = 0 \<or> iref (icache s i) > 0 \<and> idev (icache s i) = d \<and> inum (icache s i) = n
    then \<exists>k s'. iget d n s = Ret k s' \<and> k < NINODE \<and> icache_ok s' \<and> idev (icache s' k) = d \<and> inum (icache s' k) = n \<and>
      iref (icache s' k) = iref (icache s k) + 1 \<and> (\<forall>j. j \<noteq> k \<longrightarrow> icache s' j = icache s j)
    else iget d n s = Panic ''iget: no inodes''"
proof (cases "first_from (\<lambda>k. iref (icache s k) > 0 \<and> idev (icache s k) = d \<and> inum (icache s k) = n) 0 NINODE")
  case (Some k)
  note k = first_from_SomeD [OF Some]
  have "icache_ok (upd_inode k (\<lambda>x. x\<lparr>iref := iref x + 1\<rparr>) s)"
    using ok k by (auto simp: icache_ok_def)
  moreover have "iget d n s = Ret k (upd_inode k (\<lambda>x. x\<lparr>iref := iref x + 1\<rparr>) s)" by (simp add: iget_def Some)
  ultimately show ?thesis using k by auto
next
  case None
  have new: "\<not> (iref (icache s i) > 0 \<and> idev (icache s i) = d \<and> inum (icache s i) = n)" if "i < NINODE" for i
    using None that by (auto simp: first_from_None_iff)
  show ?thesis
  proof (cases "first_from (\<lambda>k. iref (icache s k) = 0) 0 NINODE")
    case F: None
    then have "iget d n s = Panic ''iget: no inodes''" by (simp add: iget_def None)
    then show ?thesis using new F by (auto simp: first_from_None_iff)
  next
    case F: (Some k)
    note k = first_from_SomeD [OF F]
    let ?s = "upd_inode k (\<lambda>x. x\<lparr>idev := d, inum := n, iref := 1, ivalid := False\<rparr>) s"
    have "icache_ok ?s" using ok k new unfolding icache_ok_def by auto
    moreover have "iget d n s = Ret k ?s" by (simp add: iget_def None F)
    ultimately show ?thesis using k by auto
  qed
qed

subsection \<open>Paths\<close>

text \<open>The elements of a path: the pieces between slashes that are not empty.\<close>

fun pieces :: "byte list \<Rightarrow> byte list list" where
  "pieces [] = [[]]"
| "pieces (c # cs) = (if c = slash then [] # pieces cs else (c # hd (pieces cs)) # tl (pieces cs))"

definition elements :: "byte list \<Rightarrow> byte list list" where
  "elements path = filter (\<lambda>e. e \<noteq> []) (pieces path)"

text \<open>The names that \<^verbatim>\<open>namex\<close> looks up: what \<^verbatim>\<open>skipelem\<close> copies out, again and again, until the path is used up.\<close>

function names :: "byte list \<Rightarrow> byte list list" where
  "names path = (case skipelem path of None \<Rightarrow> [] | Some (path', nm) \<Rightarrow> nm # names path')"
  by pat_completeness auto
termination
  by (relation "measure length") (auto dest: skipelem_shorter)

declare names.simps [simp del]

lemma pieces_nonempty: "pieces p \<noteq> []"
  by (cases p) auto

lemma elements_slash: "elements (slash # p) = elements p"
  by (simp add: elements_def)

lemma elements_drop: "elements (dropWhile (\<lambda>c. c = slash) p) = elements p"
  by (induction p) (auto simp: elements_slash)

lemma pieces_elem:
  "pieces p = takeWhile (\<lambda>c. c \<noteq> slash) p # (case dropWhile (\<lambda>c. c \<noteq> slash) p of [] \<Rightarrow> [] | _ # q \<Rightarrow> pieces q)"
  by (induction p) auto

lemma elements_first:
  assumes "p \<noteq> []" "hd p \<noteq> slash"
  shows "elements p = takeWhile (\<lambda>c. c \<noteq> slash) p # elements (dropWhile (\<lambda>c. c \<noteq> slash) p)"
proof -
  have "takeWhile (\<lambda>c. c \<noteq> slash) p \<noteq> []" using assms by (cases p) auto
  moreover have "elements q = filter (\<lambda>e. e \<noteq> []) (case q of [] \<Rightarrow> [] | _ # q' \<Rightarrow> pieces q')" if "q = [] \<or> hd q = slash" for q
    using that by (cases q) (auto simp: elements_def)
  moreover have "dropWhile (\<lambda>c. c \<noteq> slash) p = [] \<or> hd (dropWhile (\<lambda>c. c \<noteq> slash) p) = slash"
    using hd_dropWhile [of "\<lambda>c. c \<noteq> slash" p] by blast
  ultimately show ?thesis unfolding elements_def by (subst pieces_elem) (simp add: elements_def)
qed

text \<open>
  C29. \<^verbatim>\<open>skipelem\<close> takes a path apart into the same names as splitting it at the slashes, ignoring empty pieces, with
  each name cut off after 14 bytes; it does so for every path, with leading, trailing and repeated slashes.
\<close>

theorem skipelem_splits: "names path = map (take DIRSIZ) (elements path)"
proof (induction path rule: names.induct)
  case (1 path)
  let ?q = "dropWhile (\<lambda>c. c = slash) path"
  show ?case
  proof (cases "?q = []")
    case True
    then have "elements path = elements []" using elements_drop [of path] by metis
    then have "elements path = []" by (simp add: elements_def)
    then show ?thesis using True by (simp add: names.simps [of path] skipelem_def)
  next
    case False
    let ?r = "dropWhile (\<lambda>c. c = slash) (dropWhile (\<lambda>c. c \<noteq> slash) ?q)"
    have s: "skipelem path = Some (?r, take DIRSIZ (takeWhile (\<lambda>c. c \<noteq> slash) ?q))" using False by (simp add: skipelem_def Let_def del: dropWhile_eq_Nil_conv)
    have "hd ?q \<noteq> slash" using hd_dropWhile [OF False] by simp
    then have "elements path = takeWhile (\<lambda>c. c \<noteq> slash) ?q # elements ?r"
      using elements_first [OF False] elements_drop by metis
    then show ?thesis using 1 s by (simp add: names.simps [of path])
  qed
qed

subsection \<open>Examples\<close>

text \<open>A drive as mkfs leaves it, with block 100 free and one file in it, and an open transaction.\<close>

definition sb_boot :: superblock where
  "sb_boot = \<lparr>ssize = 1000, nblocks = 941, ninodes = 200, nlog = 30, logstart = 2, inodestart = 32, bmapstart = 58\<rparr>"

definition boot_disk :: "32 word \<Rightarrow> blockdata" where
  "boot_disk = (\<lambda>_ _. 0)(1 := wr32 0 1000 (wr32 4 941 (wr32 8 200 (wr32 12 30 (wr32 16 2 (wr32 20 32 (wr32 24 58 (\<lambda>_. 0))))))),
     58 := clear_map_bit 100 (\<lambda>_. - 1))"

definition boot_file :: inode where
  "boot_file = \<lparr>idev = 1, inum = 1, iref = 1, ilk = initsleeplock, ivalid = True, itype = 2, major = 0, minor = 0,
     nlink = 1, isize = 10, addrs = (\<lambda>k. if k = 0 then 200 else 0)\<rparr>"

definition fs_boot0 :: fs_st where
  "fs_boot0 = \<lparr>ps = boot_st, me = (0, 0), bufs = (\<lambda>_. blank_buf), bnext = (\<lambda>_. 0), bprev = (\<lambda>_. 0),
     idequeue = [], havedisk1 = True, disk = (\<lambda>_. boot_disk), fault = (\<lambda>_ _. False), writes = [],
     lstart = 2, lsize = 30, outstanding = 1, committing = False, ldev = 1, lh_n = 0, lh_block = (\<lambda>_. 0),
     sb = sb_boot, icache = (\<lambda>_. boot_file)\<rparr>"

definition fs_boot :: fs_st where
  "fs_boot = binit fs_boot0"

lemma fs_boot_sel:
  "bio_ok fs_boot {}" "pinned fs_boot = {}" "havedisk1 fs_boot" "fault fs_boot = (\<lambda>_ _. False)" "content fs_boot 1 n = boot_disk n"
  "lstart fs_boot = 2" "lsize fs_boot = 30" "outstanding fs_boot = 1" "ldev fs_boot = 1" "lh_n fs_boot = 0"
  "sb fs_boot = sb_boot" "icache fs_boot = (\<lambda>_. boot_file)"
proof -
  have z: "zeroed fs_boot0" by (simp add: zeroed_def fs_boot0_def blank_buf_def)
  show "bio_ok fs_boot {}" using binit_ok(1) [OF z] by (simp add: fs_boot_def)
  show p: "pinned fs_boot = {}" using binit_ok(4) [OF z] by (auto simp: fs_boot_def pinned_def fs_boot0_def blank_buf_def)
  note sel = binit_fold_sel [OF binit_def [of fs_boot0]]
  have "bufs fs_boot b = blank_buf" for b using binit_ok(4) [OF z] by (simp add: fs_boot_def fs_boot0_def blank_buf_def initsleeplock_def)
  then have v: "\<not> b_valid (bufs fs_boot b)" for b by (simp add: blank_buf_def)
  show "havedisk1 fs_boot" "fault fs_boot = (\<lambda>_ _. False)" using sel by (simp_all add: fs_boot_def fs_boot0_def)
  have "disk fs_boot = (\<lambda>_. boot_disk)" using binit_ok(2) [OF z] by (simp add: fs_boot_def fs_boot0_def)
  then show "content fs_boot 1 n = boot_disk n" using v by (simp add: content_def split: option.split)
  have "bio_st.more (binit fs_boot0) = bio_st.more fs_boot0" using sel by (simp add: fs_boot0_def)
  then show "lstart fs_boot = 2" "lsize fs_boot = 30" "outstanding fs_boot = 1" "ldev fs_boot = 1" "lh_n fs_boot = 0"
    "sb fs_boot = sb_boot" "icache fs_boot = (\<lambda>_. boot_file)"
    by (cases "binit fs_boot0", simp add: fs_boot_def fs_boot0_def)+
qed

lemma fs_boot_ready: "fs_ready fs_boot 20"
  by (simp add: fs_ready_def log_io_def log_inv_def fs_boot_sel log_blocks_def)

lemma fs_boot_map: "freemap fs_boot = clear_map_bit 100 (\<lambda>_. - 1)" "map_bit (freemap fs_boot) i \<longleftrightarrow> i \<noteq> 100"
proof -
  show f: "freemap fs_boot = clear_map_bit 100 (\<lambda>_. - 1)" by (simp add: fs_boot_sel sb_boot_def boot_disk_def)
  show "map_bit (freemap fs_boot) i \<longleftrightarrow> i \<noteq> 100" unfolding f map_bit_clear by (auto simp: map_bit_iff)
qed

lemma fs_boot_area: "log_area fs_boot n \<longleftrightarrow> 2 \<le> unat n \<and> unat n < 32"
  by (auto simp: log_area_def fs_boot_sel)

lemma fs_boot_ok: "map_ok fs_boot" "sb_ok fs_boot"
proof -
  show "map_ok fs_boot" unfolding map_ok_def by (simp add: fs_boot_map(2) fs_boot_area) (simp add: fs_boot_sel sb_boot_def)
  show "sb_ok fs_boot" unfolding sb_ok_def
    by (simp add: fs_boot_map(2)) (simp add: fs_boot_sel sb_boot_def boot_disk_def rd_sb_def rd32_wr32_other)
qed

theorem balloc_correct_witness:
  "fs_ready fs_boot 2 \<and> map_ok fs_boot \<and> (\<exists>b s'. balloc 1 fs_boot = Ret b s' \<and> b = 100 \<and> content s' 1 b = (\<lambda>_. 0))"
proof -
  have r: "fs_ready fs_boot 2" by (rule fs_ready_mono [OF fs_boot_ready]) simp
  have "\<exists>i<unat (ssize (sb fs_boot)). \<not> map_bit (freemap fs_boot) i"
    unfolding fs_boot_map(2) by (simp add: fs_boot_sel sb_boot_def)
  then obtain b s' where "balloc 1 fs_boot = Ret b s'" "\<not> map_bit (freemap fs_boot) (unat b)" "content s' 1 b = (\<lambda>_. 0)"
    using balloc_correct [OF r fs_boot_ok(1)] by (simp only: if_True) blast
  moreover from this have "b = 100" unfolding fs_boot_map(2) by (simp add: word_unat_eq_iff)
  ultimately show ?thesis using r fs_boot_ok(1) by blast
qed

theorem bfree_undoes_balloc_witness:
  "\<exists>b s' s''. balloc 1 fs_boot = Ret b s' \<and> bfree 1 b s' = Ret () s'' \<and> (\<forall>j. map_bit (freemap s'') j \<longleftrightarrow> j \<noteq> 100)"
proof -
  have r: "fs_ready fs_boot 3" "fs_ready fs_boot 2" by (rule fs_ready_mono [OF fs_boot_ready], simp)+
  have "first_from (\<lambda>i. \<not> map_bit (freemap fs_boot) i) 0 (unat (ssize (sb fs_boot))) = Some 100"
    unfolding fs_boot_map(2) by (simp add: fs_boot_sel sb_boot_def) code_simp
  then obtain b s' where b: "balloc 1 fs_boot = Ret b s'" using balloc_ok [OF r(2) fs_boot_ok(1)] by blast
  then show ?thesis using bfree_undoes_balloc [OF r(1) fs_boot_ok b] fs_boot_map(2) by blast
qed

theorem inode_write_then_read_witness: "\<exists>s'. iupdate 0 fs_boot = Ret () s'"
proof -
  have r: "fs_ready fs_boot 1" by (rule fs_ready_mono [OF fs_boot_ready]) simp
  show ?thesis
    using inode_write_then_read [OF r, of 0] by (auto simp: fs_boot_area) (auto simp: fs_boot_sel boot_file_def sb_boot_def IBLOCK_def)
qed


theorem iget_unique_witness: "\<exists>k s'. iget 1 7 (fs_boot\<lparr>icache := (\<lambda>_. boot_file\<lparr>iref := 0\<rparr>)\<rparr>) = Ret k s' \<and> icache_ok s'"
proof -
  let ?s = "fs_boot\<lparr>icache := (\<lambda>_. boot_file\<lparr>iref := 0\<rparr>)\<rparr>"
  have "icache_ok ?s" by (simp add: icache_ok_def)
  moreover have "\<exists>i<NINODE. iref (icache ?s i) = 0" by (rule exI [of _ 0]) simp
  ultimately show ?thesis using iget_unique [of ?s 1 7] by (auto split: if_splits)
qed

end
