(* ===== verification/Console.thy ===== *)
theory Console
  imports Fs
begin

section \<open>Console, keyboard and serial line (console.c, kbd.c, uart.c)\<close>

text \<open>
  The screen is the array \<^verbatim>\<open>crt\<close> with the cursor kept in the controller's register; what goes to the
  serial line is recorded in \<open>uart_out\<close>. \<^verbatim>\<open>devsw\<close> has the console as its only driver, so the state
  says for which major numbers its routines are registered.
\<close>

abbreviation (input) BACKSPACE :: int where "BACKSPACE \<equiv> 0x100"
abbreviation (input) INPUT_BUF :: "32 word" where "INPUT_BUF \<equiv> 128"
abbreviation (input) newline :: int where "newline \<equiv> 10"

text \<open>The bytes of a string constant.\<close>

abbreviation (input) str :: "string \<Rightarrow> byte list" where "str x \<equiv> map (of_nat \<circ> of_char) x"

record cons_st = fs_st +
  crt :: "nat \<Rightarrow> 16 word"
  cursor :: "16 word"
  uart :: bool
  uart_out :: "byte list"
  panicked :: bool
  locking :: bool
  ibuf :: "nat \<Rightarrow> byte"
  in_r :: "32 word"
  in_w :: "32 word"
  in_e :: "32 word"
  devsw :: "nat \<Rightarrow> bool"
  shift :: "32 word"

subsection \<open>Output\<close>

definition uartputc :: "int \<Rightarrow> 'z cons_st_scheme \<Rightarrow> 'z cons_st_scheme" where
  "uartputc c s = (if \<not> uart s then s else s\<lparr>uart_out := uart_out s @ [word_of_int c]\<rparr>)"

definition cgaputc :: "int \<Rightarrow> 'z cons_st_scheme \<Rightarrow> (unit, 'z cons_st_scheme) res" where
  "cgaputc c s =
     (let pos = uint (cursor s);
          (pos, s) = (if c = newline then (pos + (80 - pos mod 80), s)
                      else if c = BACKSPACE then (if pos > 0 then pos - 1 else pos, s)
                      else (pos + 1, s\<lparr>crt := (crt s)(nat pos := word_of_int c AND 0xFF OR 0x0700)\<rparr>))
      in if pos < 0 \<or> pos > 25 * 80 then Panic ''pos under/overflow''
         else let (pos, s) =
                    (if pos div 80 \<ge> 24
                     then let s = s\<lparr>crt := (\<lambda>i. if i < 23 * 80 then crt s (i + 80) else crt s i)\<rparr>;
                              pos = pos - 80
                          in (pos, s\<lparr>crt := (\<lambda>i. if nat pos \<le> i \<and> i < 24 * 80 then 0 else crt s i)\<rparr>)
                     else (pos, s))
              in Ret () (s\<lparr>cursor := word_of_int pos, crt := (crt s)(nat pos := 0x20 OR 0x0700)\<rparr>))"

definition consputc :: "int \<Rightarrow> 'z cons_st_scheme \<Rightarrow> (unit, 'z cons_st_scheme) res" where
  "consputc c s =
     (if panicked s then Diverge
      else let s = (if c = BACKSPACE then uartputc 8 (uartputc 32 (uartputc 8 s)) else uartputc c s)
           in cgaputc c s)"

text \<open>
  \<^verbatim>\<open>printint\<close>: the digits in the order in which the loop stores them into \<^verbatim>\<open>buf\<close>, least significant
  first, for the two bases in use.
\<close>

definition digit :: "nat \<Rightarrow> byte" where
  "digit d = (if d < 10 then of_nat (48 + d) else of_nat (87 + d))"

function digits_of :: "nat \<Rightarrow> nat \<Rightarrow> byte list" where
  "digits_of base x = digit (x mod base) # (if x div base \<noteq> 0 \<and> base > 1 then digits_of base (x div base) else [])"
  by pat_completeness auto
termination
proof (relation "measure snd")
  fix base x :: nat assume "x div base \<noteq> 0 \<and> base > 1"
  then show "((base, x div base), base, x) \<in> measure snd"
    by (cases "x = 0") (auto intro: div_less_dividend)
qed auto

declare digits_of.simps [simp del]

definition printint_buf :: "32 word \<Rightarrow> nat \<Rightarrow> bool \<Rightarrow> byte list" where
  "printint_buf xx base sign =
     (let neg = sign \<and> sint xx < 0;
          x = (if neg then - xx else xx)
      in digits_of base (unat x) @ (if neg then [45] else []))"

definition printint :: "32 word \<Rightarrow> nat \<Rightarrow> bool \<Rightarrow> 'z cons_st_scheme \<Rightarrow> (unit, 'z cons_st_scheme) res" where
  "printint xx base sign s = for_each (\<lambda>c. consputc (uint c)) (rev (printint_buf xx base sign)) s"

text \<open>
  \<^verbatim>\<open>cprintf\<close>: an argument is a word or a pointer to a string, where None is the null pointer. Reading more
  arguments than were passed is left open as a zero word.
\<close>

datatype arg = Word "32 word" | Str "byte list option"

fun word_arg :: "arg list \<Rightarrow> 32 word" where
  "word_arg (Word w # as) = w"
| "word_arg _ = 0"

fun str_arg :: "arg list \<Rightarrow> byte list" where
  "str_arg (Str (Some cs) # as) = cs"
| "str_arg _ = [40, 110, 117, 108, 108, 41]"

fun cprintf :: "byte list \<Rightarrow> arg list \<Rightarrow> 'z cons_st_scheme \<Rightarrow> (unit, 'z cons_st_scheme) res" where
  "cprintf [] as s = Ret () s"
| "cprintf (c # fmt) as s =
     (if c \<noteq> 37 then rbind (consputc (uint c) s) (\<lambda>_ s. cprintf fmt as s)
      else case fmt of
        [] \<Rightarrow> Ret () s
      | d # fmt' \<Rightarrow>
          if d = 100 then rbind (printint (word_arg as) 10 True s) (\<lambda>_ s. cprintf fmt' (tl as) s)
          else if d = 120 \<or> d = 112 then rbind (printint (word_arg as) 16 False s) (\<lambda>_ s. cprintf fmt' (tl as) s)
          else if d = 115
          then rbind (for_each (\<lambda>c. consputc (uint c)) (str_arg as) s) (\<lambda>_ s. cprintf fmt' (tl as) s)
          else if d = 37 then rbind (consputc 37 s) (\<lambda>_ s. cprintf fmt' as s)
          else rbind (consputc 37 s) (\<lambda>_ s. rbind (consputc (uint d) s) (\<lambda>_ s. cprintf fmt' as s)))"

subsection \<open>Input\<close>

text \<open>
  The loop of Control-U over the part of the line that is still being edited, with the distance of the
  two indices as the counter: every round moves \<^verbatim>\<open>input.e\<close> one step towards \<^verbatim>\<open>input.w\<close>.
\<close>

fun kill_line :: "nat \<Rightarrow> 'z cons_st_scheme \<Rightarrow> (unit, 'z cons_st_scheme) res" where
  "kill_line 0 s = Ret () s"
| "kill_line (Suc k) s =
     (if in_e s \<noteq> in_w s \<and> ibuf s (unat ((in_e s - 1) mod INPUT_BUF)) \<noteq> 10
      then rbind (consputc BACKSPACE (s\<lparr>in_e := in_e s - 1\<rparr>)) (\<lambda>_ s. kill_line k s)
      else Ret () s)"

text \<open>
  \<^verbatim>\<open>consoleintr\<close> on the characters that \<^verbatim>\<open>getc\<close> delivers until it returns a negative number. The result
  says whether Control-P asked for \<^verbatim>\<open>procdump\<close>, which only prints.
\<close>

definition console_char :: "int \<Rightarrow> bool \<Rightarrow> 'z cons_st_scheme \<Rightarrow> (bool, 'z cons_st_scheme) res" where
  "console_char c dump s =
     (if c = 16 then Ret True s
      else if c = 21 then rbind (kill_line (unat (in_e s - in_w s)) s) (\<lambda>_ s. Ret dump s)
      else if c = 8 \<or> c = 127
      then if in_e s \<noteq> in_w s
           then rbind (consputc BACKSPACE (s\<lparr>in_e := in_e s - 1\<rparr>)) (\<lambda>_ s. Ret dump s)
           else Ret dump s
      else if c \<noteq> 0 \<and> in_e s - in_r s < INPUT_BUF
      then let c = (if c = 13 then 10 else c);
               s = s\<lparr>ibuf := (ibuf s)(unat (in_e s mod INPUT_BUF) := word_of_int c), in_e := in_e s + 1\<rparr>
           in rbind (consputc c s) (\<lambda>_ s.
                if c = 10 \<or> c = 4 \<or> in_e s = in_r s + INPUT_BUF
                then Ret dump (wakeup_b InputChan (s\<lparr>in_w := in_e s\<rparr>))
                else Ret dump s)
      else Ret dump s)"

fun consoleintr :: "int list \<Rightarrow> bool \<Rightarrow> 'z cons_st_scheme \<Rightarrow> (bool, 'z cons_st_scheme) res" where
  "consoleintr [] dump s = Ret dump s"
| "consoleintr (c # cs) dump s = rbind (console_char c dump s) (\<lambda>dump s. consoleintr cs dump s)"

text \<open>\<^verbatim>\<open>consoleread\<close> with \<open>n\<close> bytes still wanted of \<open>target\<close>; the bytes delivered so far are in \<open>acc\<close>.\<close>

definition proc_killed :: "'z bio_st_scheme \<Rightarrow> bool" where
  "proc_killed s \<longleftrightarrow> killed (ptable (ps s) (fst (me s)))"

fun consoleread_loop :: "nat \<Rightarrow> nat \<Rightarrow> byte list \<Rightarrow> 'z cons_st_scheme \<Rightarrow> (bool \<times> byte list, 'z cons_st_scheme) res" where
  "consoleread_loop 0 target acc s = Ret (True, acc) s"
| "consoleread_loop (Suc n) target acc s =
     (if in_r s = in_w s
      then if proc_killed s then Ret (False, acc) s else sleep_b InputChan s
      else let c = ibuf s (unat (in_r s mod INPUT_BUF));
               s = s\<lparr>in_r := in_r s + 1\<rparr>
           in if c = 4 then Ret (True, acc) (if Suc n < target then s\<lparr>in_r := in_r s - 1\<rparr> else s)
              else if c = 10 then Ret (True, acc @ [c]) s
              else consoleread_loop n target (acc @ [c]) s)"

definition consoleread :: "nat \<Rightarrow> int \<Rightarrow> 'z cons_st_scheme \<Rightarrow> (int \<times> byte list, 'z cons_st_scheme) res" where
  "consoleread ip n s =
     rbind (iunlock ip s) (\<lambda>_ s.
     rbind (consoleread_loop (nat n) (nat n) [] s) (\<lambda>r s.
     rbind (ilock ip s) (\<lambda>_ s.
       Ret (if fst r then int (length (snd r)) else -1, snd r) s)))"

definition consolewrite :: "nat \<Rightarrow> byte list \<Rightarrow> 'z cons_st_scheme \<Rightarrow> (int, 'z cons_st_scheme) res" where
  "consolewrite ip buf s =
     rbind (iunlock ip s) (\<lambda>_ s.
     rbind (for_each (\<lambda>c. consputc (uint c)) buf s) (\<lambda>_ s.
     rbind (ilock ip s) (\<lambda>_ s. Ret (int (length buf)) s)))"

definition consoleinit :: "'z cons_st_scheme \<Rightarrow> 'z cons_st_scheme" where
  "consoleinit s = s\<lparr>devsw := (devsw s)(1 := True), locking := True\<rparr>"

text \<open>The driver tables that \<^verbatim>\<open>readi\<close> and \<^verbatim>\<open>writei\<close> consult.\<close>

definition devsw_read :: "'z cons_st_scheme \<Rightarrow> 'z cons_st_scheme dev_read" where
  "devsw_read s m = (if devsw s m then Some consoleread else None)"

definition devsw_write :: "'z cons_st_scheme \<Rightarrow> 'z cons_st_scheme dev_write" where
  "devsw_write s m = (if devsw s m then Some consolewrite else None)"

subsection \<open>Start and stop\<close>

text \<open>\<^verbatim>\<open>uartinit\<close>, given what the status port reads.\<close>

definition uartinit :: "byte \<Rightarrow> 'z cons_st_scheme \<Rightarrow> 'z cons_st_scheme" where
  "uartinit st s =
     (if st = 0xFF then s
      else fold (\<lambda>c. uartputc (uint c)) (str ''xv6...'' @ [10]) (s\<lparr>uart := True\<rparr>))"

text \<open>
  \<^verbatim>\<open>panic\<close>: the state that it freezes, given the processor and the return addresses found on the stack.
  The message is used as a format.
\<close>

definition panic_halt :: "32 word \<Rightarrow> byte list \<Rightarrow> 32 word list \<Rightarrow> 'z cons_st_scheme \<Rightarrow> (unit, 'z cons_st_scheme) res" where
  "panic_halt lapicid msg frames s =
     rbind (cprintf (str ''lapicid %d: panic: '') [Word lapicid] (s\<lparr>locking := False\<rparr>)) (\<lambda>_ s.
     rbind (cprintf msg [] s) (\<lambda>_ s.
     rbind (cprintf [10] [] s) (\<lambda>_ s.
     rbind (for_each (\<lambda>pc. cprintf (str '' %p'') [Word pc]) frames s) (\<lambda>_ s.
       Ret () (s\<lparr>panicked := True\<rparr>)))))"

end
