(* ===== verification/Kbd.thy ===== *)
theory Kbd
  imports Console
begin

section \<open>Keyboard driver (kbd.c, kbd.h)\<close>

text \<open>
  \<^verbatim>\<open>kbdgetc\<close> turns the scan codes of the controller into characters; its only state is the set of
  modifier keys in \<^verbatim>\<open>shift\<close>. The tables of \<^verbatim>\<open>kbd.h\<close> are functions from scan codes to character codes.
\<close>

abbreviation (input) NO :: nat where "NO \<equiv> 0"
abbreviation (input) SHIFT :: "32 word" where "SHIFT \<equiv> 1"
abbreviation (input) CTL :: "32 word" where "CTL \<equiv> 2"
abbreviation (input) ALT :: "32 word" where "ALT \<equiv> 4"
abbreviation (input) CAPSLOCK :: "32 word" where "CAPSLOCK \<equiv> 8"
abbreviation (input) NUMLOCK :: "32 word" where "NUMLOCK \<equiv> 16"
abbreviation (input) SCROLLLOCK :: "32 word" where "SCROLLLOCK \<equiv> 32"
abbreviation (input) E0ESC :: "32 word" where "E0ESC \<equiv> 64"

definition shiftcode :: "nat \<Rightarrow> 32 word" where
  "shiftcode d =
     (if d = 0x1D \<or> d = 0x9D then CTL
      else if d = 0x2A \<or> d = 0x36 then SHIFT
      else if d = 0x38 \<or> d = 0xB8 then ALT else 0)"

definition togglecode :: "nat \<Rightarrow> 32 word" where
  "togglecode d =
     (if d = 0x3A then CAPSLOCK else if d = 0x45 then NUMLOCK else if d = 0x46 then SCROLLLOCK else 0)"

text \<open>The part of the tables that starts at 0, as text, and the designated entries behind it.\<close>

abbreviation (input) chars :: "string \<Rightarrow> nat list" where "chars \<equiv> map of_char"

definition keypad :: "nat \<Rightarrow> nat option" where
  "keypad d =
     map_of [(0xC8, 0xE2), (0xD0, 0xE3), (0xC9, 0xE6), (0xD1, 0xE7), (0xCB, 0xE4), (0xCD, 0xE5),
       (0x97, 0xE0), (0xCF, 0xE1), (0xD2, 0xE8), (0xD3, 0xE9)] d"

definition table :: "nat list \<Rightarrow> (nat \<times> nat) list \<Rightarrow> nat \<Rightarrow> nat" where
  "table xs ys d =
     (if d < length xs then xs ! d
      else case map_of ys d of Some c \<Rightarrow> c | None \<Rightarrow> (case keypad d of Some c \<Rightarrow> c | None \<Rightarrow> NO))"

definition normalmap :: "nat \<Rightarrow> nat" where
  "normalmap = table
     ([NO, 0x1B] @ chars ''1234567890-='' @ [8, 9] @ chars ''qwertyuiop[]'' @ [10, NO] @
      chars ''asdfghjkl;'' @ [39, 96, NO, 92] @ chars ''zxcvbnm,./'' @ [NO] @ chars ''*'' @
      [NO, 32] @ replicate 13 NO @ chars ''789-456+1230.'' @ replicate 4 NO)
     [(0x9C, 10), (0xB5, 47)]"

definition shiftmap :: "nat \<Rightarrow> nat" where
  "shiftmap = table
     ([NO, 27] @ chars ''!@#$%^&*()_+'' @ [8, 9] @ chars ''QWERTYUIOP{}'' @ [10, NO] @
      chars ''ASDFGHJKL:'' @ [34, 126, NO, 124] @ chars ''ZXCVBNM<>?'' @ [NO] @ chars ''*'' @
      [NO, 32] @ replicate 13 NO @ chars ''789-456+1230.'' @ replicate 4 NO)
     [(0x9C, 10), (0xB5, 47)]"

text \<open>\<^verbatim>\<open>C(x)\<close> is \<^verbatim>\<open>x - '@'\<close>; for the slash this is negative and becomes a byte.\<close>

definition ctrl :: "nat \<Rightarrow> nat" where
  "ctrl x = (if x \<ge> 64 then x - 64 else x + 192)"

definition ctlmap :: "nat \<Rightarrow> nat" where
  "ctlmap = table
     (replicate 16 NO @ map ctrl (chars ''QWERTYUIOP'') @ [NO, NO, 13, NO] @
      map ctrl (chars ''ASDFGHJKL'') @ [NO, NO, NO, NO, ctrl 92] @ map ctrl (chars ''ZXCVBNM'') @
      [NO, NO, ctrl 47, NO, NO])
     [(0x9C, 13), (0xB5, ctrl 47)]"

definition charcode :: "32 word \<Rightarrow> nat \<Rightarrow> nat" where
  "charcode m = (if m = 0 then normalmap else if m = SHIFT then shiftmap else ctlmap)"

text \<open>
  \<^verbatim>\<open>kbdgetc\<close>, given what the status port and the data port return: the result and the new modifiers.
\<close>

definition kbdgetc :: "byte \<Rightarrow> byte \<Rightarrow> 32 word \<Rightarrow> int \<times> 32 word" where
  "kbdgetc st dat sh =
     (if st AND 1 = 0 then (-1, sh)
      else let d = unat dat
           in if d = 0xE0 then (0, sh OR E0ESC)
              else if d \<ge> 0x80
              then let d = (if sh AND E0ESC \<noteq> 0 then d else d - 0x80)
                   in (0, sh AND NOT (shiftcode d OR E0ESC))
              else let (d, sh) = (if sh AND E0ESC \<noteq> 0 then (d + 0x80, sh AND NOT E0ESC) else (d, sh));
                       sh = sh OR shiftcode d;
                       sh = sh XOR togglecode d;
                       c = charcode (sh AND (CTL OR SHIFT)) d;
                       c = (if sh AND CAPSLOCK \<noteq> 0
                            then if 97 \<le> c \<and> c \<le> 122 then c - 32
                                 else if 65 \<le> c \<and> c \<le> 90 then c + 32 else c
                            else c)
                   in (int c, sh))"

text \<open>\<^verbatim>\<open>kbdintr\<close> drains the controller: the pending bytes are given as a list.\<close>

fun kbd_chars :: "byte list \<Rightarrow> 32 word \<Rightarrow> int list \<times> 32 word" where
  "kbd_chars [] sh = ([], snd (kbdgetc 0 0 sh))"
| "kbd_chars (b # bs) sh =
     (let (c, sh) = kbdgetc 1 b sh; (cs, sh) = kbd_chars bs sh in (c # cs, sh))"

definition kbdintr :: "byte list \<Rightarrow> 'z cons_st_scheme \<Rightarrow> (bool, 'z cons_st_scheme) res" where
  "kbdintr bs s =
     (let (cs, sh) = kbd_chars bs (shift s) in consoleintr cs False (s\<lparr>shift := sh\<rparr>))"

text \<open>\<^verbatim>\<open>uartgetc\<close> and \<^verbatim>\<open>uartintr\<close>: the same with the bytes that the serial line has received.\<close>

definition uartgetc :: "bool \<Rightarrow> byte \<Rightarrow> byte \<Rightarrow> int" where
  "uartgetc present st dat =
     (if \<not> present then -1 else if st AND 1 = 0 then -1 else uint dat)"

definition uartintr :: "byte list \<Rightarrow> 'z cons_st_scheme \<Rightarrow> (bool, 'z cons_st_scheme) res" where
  "uartintr bs s = consoleintr (takeWhile (\<lambda>c. c \<ge> 0) (map (uartgetc (uart s) 1) bs)) False s"

end
