(* ===== verification/File.thy ===== *)
theory File
  imports Kbd
begin

section \<open>Open files and pipes (file.c, pipe.c)\<close>

text \<open>
  The file table and the pipes. A file pointer is an index of \<^verbatim>\<open>ftable\<close>. \<^verbatim>\<open>struct pipe\<close> lives in a page
  of the allocator; the state maps the address of that page to the structure.

  \<^verbatim>\<open>pipewrite\<close> and \<^verbatim>\<open>piperead\<close> sleep when the pipe is full or empty. The routines here follow one thread
  up to that point; theory \<open>Ring\<close> lets readers and writers take turns.
\<close>

abbreviation (input) NFILE :: nat where "NFILE \<equiv> 100"
abbreviation (input) PIPESIZE :: "32 word" where "PIPESIZE \<equiv> 512"

datatype ftype = FD_NONE | FD_PIPE | FD_INODE

record kfile =
  ftype :: ftype
  fref :: int
  readable :: bool
  writable :: bool
  fpipe :: addr
  fip :: nat
  foff :: "32 word"

record pipe =
  pdata :: "nat \<Rightarrow> byte"
  nread :: "32 word"
  nwrite :: "32 word"
  readopen :: bool
  writeopen :: bool

record file_st = cons_st +
  ftable :: "nat \<Rightarrow> kfile"
  pipes :: "addr \<Rightarrow> pipe"

definition upd_file :: "nat \<Rightarrow> (kfile \<Rightarrow> kfile) \<Rightarrow> 'z file_st_scheme \<Rightarrow> 'z file_st_scheme" where
  "upd_file f g s = s\<lparr>ftable := (ftable s)(f := g (ftable s f))\<rparr>"

definition upd_pipe :: "addr \<Rightarrow> (pipe \<Rightarrow> pipe) \<Rightarrow> 'z file_st_scheme \<Rightarrow> 'z file_st_scheme" where
  "upd_pipe p g s = s\<lparr>pipes := (pipes s)(p := g (pipes s p))\<rparr>"

text \<open>Running an operation of the allocator.\<close>

definition on_kmem :: "(kmem_st \<Rightarrow> ('a, kmem_st) res) \<Rightarrow> 'z bio_st_scheme \<Rightarrow> ('a, 'z bio_st_scheme) res" where
  "on_kmem = on_part (\<lambda>s. km (ps s)) (\<lambda>k s. s\<lparr>ps := (ps s)\<lparr>km := k\<rparr>\<rparr>)"

subsection \<open>Reference counts\<close>

definition filealloc :: "'z file_st_scheme \<Rightarrow> nat option \<times> 'z file_st_scheme" where
  "filealloc s =
     (case first_from (\<lambda>f. fref (ftable s f) = 0) 0 NFILE of
        Some f \<Rightarrow> (Some f, upd_file f (\<lambda>x. x\<lparr>fref := 1\<rparr>) s)
      | None \<Rightarrow> (None, s))"

definition filedup :: "nat \<Rightarrow> 'z file_st_scheme \<Rightarrow> (nat, 'z file_st_scheme) res" where
  "filedup f s =
     (if fref (ftable s f) < 1 then Panic ''filedup''
      else Ret f (upd_file f (\<lambda>x. x\<lparr>fref := fref x + 1\<rparr>) s))"

definition pipeclose :: "addr \<Rightarrow> bool \<Rightarrow> 'z file_st_scheme \<Rightarrow> (unit, 'z file_st_scheme) res" where
  "pipeclose p wr s =
     (let s = (if wr then wakeup_b (PipeReadChan p) (upd_pipe p (\<lambda>x. x\<lparr>writeopen := False\<rparr>) s)
               else wakeup_b (PipeWriteChan p) (upd_pipe p (\<lambda>x. x\<lparr>readopen := False\<rparr>) s))
      in if \<not> readopen (pipes s p) \<and> \<not> writeopen (pipes s p) then on_kmem (kfree p) s else Ret () s)"

definition fileclose :: "nat \<Rightarrow> 'z file_st_scheme \<Rightarrow> (unit, 'z file_st_scheme) res" where
  "fileclose f s =
     (if fref (ftable s f) < 1 then Panic ''fileclose''
      else let s = upd_file f (\<lambda>x. x\<lparr>fref := fref x - 1\<rparr>) s
        in if fref (ftable s f) > 0 then Ret () s
           else let ff = ftable s f;
                    s = upd_file f (\<lambda>x. x\<lparr>fref := 0, ftype := FD_NONE\<rparr>) s
             in case ftype ff of
                  FD_PIPE \<Rightarrow> pipeclose (fpipe ff) (writable ff) s
                | FD_INODE \<Rightarrow>
                    rbind (begin_op s) (\<lambda>_ s.
                    rbind (iput (fip ff) s) (\<lambda>_ s. end_op s))
                | FD_NONE \<Rightarrow> Ret () s)"

definition filestat :: "nat \<Rightarrow> 'z file_st_scheme \<Rightarrow> (stat option, 'z file_st_scheme) res" where
  "filestat f s =
     (if ftype (ftable s f) = FD_INODE
      then rbind (ilock (fip (ftable s f)) s) (\<lambda>_ s.
           let st = stati (fip (ftable s f)) s
           in rbind (iunlock (fip (ftable s f)) s) (\<lambda>_ s. Ret (Some st) s))
      else Ret None s)"

subsection \<open>Pipes\<close>

text \<open>
  \<^verbatim>\<open>pipealloc\<close> returns the read end and the write end. The page that \<^verbatim>\<open>kalloc\<close> returns is never freed on
  the way to \<^verbatim>\<open>bad\<close>, since nothing can fail after it has been allocated.
\<close>

definition close_opt :: "nat option \<Rightarrow> 'z file_st_scheme \<Rightarrow> (unit, 'z file_st_scheme) res" where
  "close_opt f s = (case f of None \<Rightarrow> Ret () s | Some f \<Rightarrow> fileclose f s)"

definition pipealloc :: "'z file_st_scheme \<Rightarrow> ((nat \<times> nat) option, 'z file_st_scheme) res" where
  "pipealloc s =
     (let (f0, s) = filealloc s;
          (f1, s) = (case f0 of None \<Rightarrow> (None, s) | Some _ \<Rightarrow> filealloc s)
      in case (f0, f1) of
           (Some f0', Some f1') \<Rightarrow>
             rbind (on_kmem (\<lambda>k. let (p, k) = kalloc k in Ret p k) s) (\<lambda>p s.
               if p = 0
               then rbind (close_opt f0 s) (\<lambda>_ s. rbind (close_opt f1 s) (\<lambda>_ s. Ret None s))
               else let s = upd_pipe p (\<lambda>x. x\<lparr>readopen := True, writeopen := True, nwrite := 0, nread := 0\<rparr>) s;
                        s = upd_file f0' (\<lambda>x. x\<lparr>ftype := FD_PIPE, readable := True, writable := False, fpipe := p\<rparr>) s;
                        s = upd_file f1' (\<lambda>x. x\<lparr>ftype := FD_PIPE, readable := False, writable := True, fpipe := p\<rparr>) s
                    in Ret (Some (f0', f1')) s)
         | _ \<Rightarrow> rbind (close_opt f0 s) (\<lambda>_ s. rbind (close_opt f1 s) (\<lambda>_ s. Ret None s)))"

text \<open>One byte into the ring buffer, and one out of it.\<close>

definition pipe_put :: "byte \<Rightarrow> pipe \<Rightarrow> pipe" where
  "pipe_put c x = x\<lparr>pdata := (pdata x)(unat (nwrite x mod PIPESIZE) := c), nwrite := nwrite x + 1\<rparr>"

definition pipe_get :: "pipe \<Rightarrow> byte \<times> pipe" where
  "pipe_get x = (pdata x (unat (nread x mod PIPESIZE)), x\<lparr>nread := nread x + 1\<rparr>)"

definition pipe_full :: "pipe \<Rightarrow> bool" where
  "pipe_full x \<longleftrightarrow> nwrite x = nread x + PIPESIZE"

definition pipe_empty :: "pipe \<Rightarrow> bool" where
  "pipe_empty x \<longleftrightarrow> nread x = nwrite x"

fun pipewrite_loop :: "addr \<Rightarrow> byte list \<Rightarrow> 'z file_st_scheme \<Rightarrow> (bool, 'z file_st_scheme) res" where
  "pipewrite_loop p [] s = Ret True s"
| "pipewrite_loop p (c # cs) s =
     (if pipe_full (pipes s p)
      then if \<not> readopen (pipes s p) \<or> proc_killed s then Ret False s
           else sleep_b (PipeWriteChan p) (wakeup_b (PipeReadChan p) s)
      else pipewrite_loop p cs (upd_pipe p (pipe_put c) s))"

definition pipewrite :: "addr \<Rightarrow> byte list \<Rightarrow> 'z file_st_scheme \<Rightarrow> (int, 'z file_st_scheme) res" where
  "pipewrite p bs s =
     rbind (pipewrite_loop p bs s) (\<lambda>ok s.
       if ok then Ret (int (length bs)) (wakeup_b (PipeReadChan p) s) else Ret (-1) s)"

fun piperead_loop :: "addr \<Rightarrow> nat \<Rightarrow> 'z file_st_scheme \<Rightarrow> byte list \<times> 'z file_st_scheme" where
  "piperead_loop p 0 s = ([], s)"
| "piperead_loop p (Suc n) s =
     (if pipe_empty (pipes s p) then ([], s)
      else let (c, x) = pipe_get (pipes s p);
               (cs, s) = piperead_loop p n (upd_pipe p (\<lambda>_. x) s)
           in (c # cs, s))"

definition piperead :: "addr \<Rightarrow> int \<Rightarrow> 'z file_st_scheme \<Rightarrow> (int \<times> byte list, 'z file_st_scheme) res" where
  "piperead p n s =
     (if pipe_empty (pipes s p) \<and> writeopen (pipes s p)
      then if proc_killed s then Ret (-1, []) s else sleep_b (PipeReadChan p) s
      else let (bs, s) = piperead_loop p (nat n) s
           in Ret (int (length bs), bs) (wakeup_b (PipeWriteChan p) s))"

subsection \<open>Reading and writing files\<close>

text \<open>The bytes read are returned; the system call copies them to the user's buffer.\<close>

definition fileread :: "nat \<Rightarrow> int \<Rightarrow> 'z file_st_scheme \<Rightarrow> (int \<times> byte list, 'z file_st_scheme) res" where
  "fileread f n s =
     (if \<not> readable (ftable s f) then Ret (-1, []) s
      else case ftype (ftable s f) of
             FD_PIPE \<Rightarrow> piperead (fpipe (ftable s f)) n s
           | FD_INODE \<Rightarrow>
               (let ip = fip (ftable s f) in
                rbind (ilock ip s) (\<lambda>_ s.
                rbind (readi (devsw_read s) ip (foff (ftable s f)) (word_of_int n) s) (\<lambda>r s.
                  let s = (if fst r > 0 then upd_file f (\<lambda>x. x\<lparr>foff := foff x + word_of_int (fst r)\<rparr>) s else s)
                  in rbind (iunlock ip s) (\<lambda>_ s. Ret r s))))
           | FD_NONE \<Rightarrow> Panic ''fileread'')"

text \<open>The loop of \<^verbatim>\<open>filewrite\<close> writes at most 1536 bytes in one transaction.\<close>

function filewrite_loop :: "nat \<Rightarrow> byte list \<Rightarrow> 'z file_st_scheme \<Rightarrow> (bool, 'z file_st_scheme) res" where
  "filewrite_loop f bs s =
     (if bs = [] then Ret True s
      else let n1 = min (length bs) 1536; ip = fip (ftable s f) in
        rbind (begin_op s) (\<lambda>_ s.
        rbind (ilock ip s) (\<lambda>_ s.
        rbind (writei (devsw_write s) ip (take n1 bs) (foff (ftable s f)) s) (\<lambda>r s.
          let s = (if r > 0 then upd_file f (\<lambda>x. x\<lparr>foff := foff x + word_of_int r\<rparr>) s else s)
          in rbind (iunlock ip s) (\<lambda>_ s.
             rbind (end_op s) (\<lambda>_ s.
               if r < 0 then Ret False s
               else if r \<noteq> int n1 then Panic ''short filewrite''
               else filewrite_loop f (drop n1 bs) s))))))"
  by pat_completeness auto
termination
  by (relation "measure (\<lambda>(f, bs, s). length bs)") auto

declare filewrite_loop.simps [simp del]

definition filewrite :: "nat \<Rightarrow> byte list \<Rightarrow> 'z file_st_scheme \<Rightarrow> (int, 'z file_st_scheme) res" where
  "filewrite f bs s =
     (if \<not> writable (ftable s f) then Ret (-1) s
      else case ftype (ftable s f) of
             FD_PIPE \<Rightarrow> pipewrite (fpipe (ftable s f)) bs s
           | FD_INODE \<Rightarrow>
               rbind (filewrite_loop f bs s) (\<lambda>ok s. Ret (if ok then int (length bs) else -1) s)
           | FD_NONE \<Rightarrow> Panic ''filewrite'')"

end
