(* ===== verification/Ring.thy ===== *)
theory Ring
  imports File
begin

section \<open>Ring buffers: pipes and console input\<close>

text \<open>
  A pipe and the console's input line keep their bytes in an array with two counters that only grow; the
  array is indexed by a counter modulo its size. The counters are 32-bit words and wrap around, which is
  harmless because the size divides \<open>2 ^ 32\<close>. The locale \<open>ring\<close> states what the two share and proves once
  that such a buffer is a queue; it is interpreted on \<^verbatim>\<open>struct pipe\<close> and on \<^verbatim>\<open>input\<close> of \<^verbatim>\<open>console.c\<close>.
\<close>

locale ring =
  fixes N :: nat
    and buf :: "'s \<Rightarrow> nat \<Rightarrow> byte"
    and rd wr :: "'s \<Rightarrow> 32 word"
    and put :: "byte \<Rightarrow> 's \<Rightarrow> 's"
    and get :: "'s \<Rightarrow> 's"
  assumes N: "0 < N" "N dvd 2 ^ 32" "N < 2 ^ 32"
    and buf_put: "buf (put c s) = (buf s)(unat (wr s) mod N := c)"
    and wr_put [simp]: "wr (put c s) = wr s + 1"
    and rd_put [simp]: "rd (put c s) = rd s"
    and buf_get [simp]: "buf (get s) = buf s"
    and rd_get [simp]: "rd (get s) = rd s + 1"
    and wr_get [simp]: "wr (get s) = wr s"
begin

definition len :: "'s \<Rightarrow> nat" where
  "len s = unat (wr s - rd s)"

definition item :: "'s \<Rightarrow> nat \<Rightarrow> byte" where
  "item s i = buf s ((unat (rd s) + i) mod N)"

definition contents :: "'s \<Rightarrow> byte list" where
  "contents s = map (item s) [0..<len s]"

lemma length_contents: "length (contents s) = len s"
  by (simp add: contents_def)

text \<open>The counters may wrap: the index is the same whether or not the sum is reduced.\<close>

lemma index_wrap: "unat (a + of_nat i :: 32 word) mod N = (unat a + i) mod N"
proof -
  have "unat (a + of_nat i :: 32 word) = (unat a + i) mod 2 ^ 32"
    by (simp add: unat_word_ariths unat_of_nat mod_simps)
  then show ?thesis using N(2) by (simp add: mod_mod_cancel)
qed

lemma wr_index: "unat (wr s) mod N = (unat (rd s) + len s) mod N"
proof -
  have "rd s + of_nat (len s) = wr s" by (simp add: len_def)
  then show ?thesis using index_wrap [of "rd s" "len s"] by simp
qed

lemma len_put: "len s < N \<Longrightarrow> len (put c s) = Suc (len s)"
proof -
  assume "len s < N"
  then have "unat (wr s - rd s) + 1 < 2 ^ 32" using N(3) by (simp add: len_def)
  moreover have "wr s + 1 - rd s = (wr s - rd s) + 1" by simp
  ultimately show ?thesis unfolding len_def wr_put rd_put by (simp only: unat_word_ariths) simp
qed

lemma len_get: "0 < len s \<Longrightarrow> len (get s) = len s - 1"
proof -
  assume "0 < len s"
  then have "unat (wr s - rd s - 1) = unat (wr s - rd s) - 1"
    by (intro unat_minus_one) (auto simp: len_def)
  moreover have "wr s - (rd s + 1) = (wr s - rd s) - 1" by simp
  ultimately show ?thesis unfolding len_def wr_get rd_get by (simp only:)
qed

lemma item_put:
  assumes "len s < N" "i \<le> len s"
  shows "item (put c s) i = (if i = len s then c else item s i)"
proof -
  have "(unat (rd s) + i) mod N \<noteq> (unat (rd s) + len s) mod N" if "i < len s"
  proof
    assume "(unat (rd s) + i) mod N = (unat (rd s) + len s) mod N"
    then have "N dvd len s - i" using that mod_eq_dvd_iff_nat [of "unat (rd s) + i" "unat (rd s) + len s" N] by simp
    then show False using that assms by (auto dest: dvd_imp_le)
  qed
  then show ?thesis using assms by (auto simp: item_def buf_put wr_index)
qed

theorem contents_put: "len s < N \<Longrightarrow> contents (put c s) = contents s @ [c]"
  by (rule nth_equalityI) (auto simp: contents_def len_put item_put nth_append simp del: upt_Suc)

theorem contents_get: "0 < len s \<Longrightarrow> contents s = buf s (unat (rd s) mod N) # contents (get s)"
proof -
  assume l: "0 < len s"
  have "item (get s) i = item s (Suc i)" for i
  proof -
    have "(unat (rd s + 1) + i) mod N = (unat (rd s + 1) mod N + i) mod N" by (simp add: mod_add_left_eq)
    also have "\<dots> = ((unat (rd s) + 1) mod N + i) mod N" using index_wrap [of "rd s" 1] by simp
    also have "\<dots> = (unat (rd s) + Suc i) mod N" by (simp add: mod_add_left_eq)
    finally show ?thesis by (simp add: item_def)
  qed
  moreover have "contents s = item s 0 # map (\<lambda>i. item s (Suc i)) [0..<len s - 1]"
    using l by (cases "len s") (simp_all add: contents_def map_upt_Suc del: upt_Suc)
  ultimately show ?thesis using l by (simp add: contents_def len_get item_def [of s 0])
qed

lemma contents_empty: "contents s = [] \<longleftrightarrow> rd s = wr s"
  by (simp add: contents_def len_def) (metis unat_eq_zero right_minus_eq)

lemma len_full: "len s \<le> N \<Longrightarrow> len s = N \<longleftrightarrow> wr s = rd s + of_nat N"
proof
  assume "len s = N"
  then have "of_nat (unat (wr s - rd s)) = (of_nat N :: 32 word)" by (simp add: len_def)
  then show "wr s = rd s + of_nat N" by (simp add: algebra_simps)
next
  assume "wr s = rd s + of_nat N"
  then show "len s = N" using N(3) by (simp add: len_def unat_of_nat)
qed

end

subsection \<open>Pipes\<close>

definition pipe_drop :: "pipe \<Rightarrow> pipe" where
  "pipe_drop x = snd (pipe_get x)"

interpretation pq: ring 512 pdata nread nwrite pipe_put pipe_drop
  by unfold_locales (simp_all add: pipe_put_def pipe_drop_def pipe_get_def unat_mod)

abbreviation (input) queued :: "pipe \<Rightarrow> byte list" where "queued \<equiv> pq.contents"

text \<open>The pipe never holds more than it has room for.\<close>

definition pipe_ok :: "pipe \<Rightarrow> bool" where
  "pipe_ok x \<longleftrightarrow> length (queued x) \<le> 512"

lemma pipe_full_iff: "pipe_ok x \<Longrightarrow> pipe_full x \<longleftrightarrow> length (queued x) = 512"
  using pq.len_full [of x] by (simp add: pipe_ok_def pipe_full_def pq.length_contents)

lemma pipe_put_ok: "pipe_ok x \<Longrightarrow> \<not> pipe_full x \<Longrightarrow> pipe_ok (pipe_put c x) \<and> queued (pipe_put c x) = queued x @ [c]"
  using pq.contents_put [of x c] pq.len_put [of x c]
  by (simp add: pipe_full_iff) (simp add: pipe_ok_def pq.length_contents)

lemma pipe_get_ok:
  assumes "pipe_ok x" "\<not> pipe_empty x"
  shows "queued x = fst (pipe_get x) # queued (snd (pipe_get x)) \<and> pipe_ok (snd (pipe_get x))"
proof -
  have "0 < pq.len x" using assms(2) pq.contents_empty [of x] by (auto simp: pipe_empty_def simp flip: pq.length_contents)
  then have "queued x = fst (pipe_get x) # queued (pipe_drop x)"
    using pq.contents_get [of x] by (simp add: pipe_get_def unat_mod)
  moreover from this have "length (queued (pipe_drop x)) \<le> length (queued x)" by simp
  ultimately show ?thesis using assms(1) by (simp add: pipe_ok_def pipe_drop_def)
qed

lemma pipes_upd [simp]:
  "pipes (upd_pipe a g s) b = (if b = a then g (pipes s a) else pipes s b)" "pipes (wakeup_b c s) = pipes s"
  by (simp_all add: upd_pipe_def wakeup_b_def)

text \<open>The state in which a call leaves the machine, whether it returns or sleeps.\<close>

fun left :: "('a, 's) res \<Rightarrow> 's \<Rightarrow> bool" where
  "left (Ret v s) s' \<longleftrightarrow> s' = s"
| "left (Block c s) s' \<longleftrightarrow> s' = s"
| "left _ s' \<longleftrightarrow> False"

lemma pipes_sleep [simp]: "left (sleep_b c s) s' \<Longrightarrow> pipes s' = pipes s"
  by (auto simp: sleep_b_def)

text \<open>How many bytes of its argument a call of \<^verbatim>\<open>pipewrite\<close> has put into the pipe: the counter tells.\<close>

definition accepted :: "pipe \<Rightarrow> pipe \<Rightarrow> nat" where
  "accepted x y = unat (nwrite y - nwrite x)"

lemma pipewrite_loop_spec:
  assumes "left (pipewrite_loop p bs s) s'" "pipe_ok (pipes s p)"
  shows "\<exists>k\<le>512. k \<le> length bs \<and> nwrite (pipes s' p) = nwrite (pipes s p) + of_nat k \<and> pipe_ok (pipes s' p) \<and>
    queued (pipes s' p) = queued (pipes s p) @ take k bs"
  using assms
proof (induction bs arbitrary: s)
  case Nil
  then show ?case by auto
next
  case (Cons c bs)
  show ?case
  proof (cases "pipe_full (pipes s p)")
    case True
    with Cons.prems have "pipes s' = pipes s" by (auto split: if_splits)
    then show ?thesis using Cons.prems by (intro exI [of _ 0]) simp
  next
    case False
    let ?s = "upd_pipe p (pipe_put c) s"
    note put = pipe_put_ok [OF Cons.prems(2) False, of c]
    obtain k where k: "k \<le> 512" "k \<le> length bs" "nwrite (pipes s' p) = nwrite (pipes ?s p) + of_nat k"
      "pipe_ok (pipes s' p)" "queued (pipes s' p) = queued (pipes ?s p) @ take k bs"
      using Cons.IH [of ?s] Cons.prems False put by auto
    have q: "queued (pipes s' p) = queued (pipes s p) @ take (Suc k) (c # bs)" using k(5) put by simp
    then have "Suc k \<le> 512" using k(2,4) by (simp add: pipe_ok_def)
    then show ?thesis using k q by (intro exI [of _ "Suc k"]) (simp add: pipe_put_def)
  qed
qed

lemma piperead_loop_spec:
  "piperead_loop p n s = (bs, s') \<Longrightarrow> pipe_ok (pipes s p) \<Longrightarrow>
     bs = take n (queued (pipes s p)) \<and> queued (pipes s' p) = drop n (queued (pipes s p)) \<and> pipe_ok (pipes s' p)"
proof (induction n arbitrary: s bs)
  case (Suc n)
  show ?case
  proof (cases "pipe_empty (pipes s p)")
    case True
    then have "queued (pipes s p) = []" using pq.contents_empty by (simp add: pipe_empty_def)
    then show ?thesis using Suc.prems True by auto
  next
    case False
    obtain c x where g: "pipe_get (pipes s p) = (c, x)" by fastforce
    obtain cs where r: "piperead_loop p n (upd_pipe p (\<lambda>_. x) s) = (cs, s')" "bs = c # cs"
      using Suc.prems False g by (auto split: prod.splits)
    have q: "queued (pipes s p) = c # queued x" "pipe_ok x" using pipe_get_ok [OF Suc.prems(2) False] g by simp_all
    then have "pipe_ok (pipes (upd_pipe p (\<lambda>_. x) s) p)" by simp
    from Suc.IH [OF r(1) this] show ?thesis using q(1) r(2) by simp
  qed
qed auto

text \<open>
  Calls on the pipe at \<open>p\<close> by any threads, in any order: a writer, or one that goes on with the rest of its
  bytes after it was woken; a reader; and anything that leaves the pipe alone. The two lists are what the
  writers have put in and what the readers have been given.
\<close>

inductive pipe_run :: "addr \<Rightarrow> 'z file_st_scheme \<Rightarrow> byte list \<Rightarrow> byte list \<Rightarrow> 'z file_st_scheme \<Rightarrow> bool" for p s where
  start: "pipe_run p s [] [] s"
| writes: "pipe_run p s w r t \<Longrightarrow> left (pipewrite p bs t) t' \<Longrightarrow>
    pipe_run p s (w @ take (accepted (pipes t p) (pipes t' p)) bs) r t'"
| reads: "pipe_run p s w r t \<Longrightarrow> piperead p n t = Ret (m, bs) t' \<Longrightarrow> pipe_run p s w (r @ bs) t'"
| waits: "pipe_run p s w r t \<Longrightarrow> piperead p n t = Block c t' \<Longrightarrow> pipe_run p s w r t'"
| others: "pipe_run p s w r t \<Longrightarrow> pipes t' p = pipes t p \<Longrightarrow> pipe_run p s w r t'"

lemma pipewrite_left:
  assumes "left (pipewrite p bs s) s'" "pipe_ok (pipes s p)"
  shows "pipe_ok (pipes s' p)" "queued (pipes s' p) = queued (pipes s p) @ take (accepted (pipes s p) (pipes s' p)) bs"
proof -
  obtain t where t: "left (pipewrite_loop p bs s) t" "pipes s' = pipes t"
    using assms(1) unfolding pipewrite_def
    by (cases "pipewrite_loop p bs s") (auto split: if_splits)
  obtain k where k: "k \<le> 512" "k \<le> length bs" "nwrite (pipes t p) = nwrite (pipes s p) + of_nat k" "pipe_ok (pipes t p)"
    "queued (pipes t p) = queued (pipes s p) @ take k bs"
    using pipewrite_loop_spec [OF t(1) assms(2)] by blast
  moreover have "accepted (pipes s p) (pipes t p) = k" using k(1,3) by (simp add: accepted_def unat_of_nat)
  ultimately show "pipe_ok (pipes s' p)" "queued (pipes s' p) = queued (pipes s p) @ take (accepted (pipes s p) (pipes s' p)) bs"
    by (simp_all add: t(2))
qed

lemma piperead_spec:
  assumes "piperead p n s = Ret (m, bs) s'" "pipe_ok (pipes s p)"
  shows "pipe_ok (pipes s' p) \<and> queued (pipes s p) = bs @ queued (pipes s' p)"
proof -
  obtain cs t where l: "piperead_loop p (nat n) s = (cs, t)" by fastforce
  have "pipes s' = pipes s \<and> bs = [] \<or> pipes s' = pipes t \<and> bs = cs"
    using assms(1) by (auto simp: piperead_def sleep_b_def l split: if_splits)
  then show ?thesis
  proof
    assume "pipes s' = pipes t \<and> bs = cs"
    then show ?thesis using piperead_loop_spec [OF l assms(2)] by simp
  qed (simp add: assms(2))
qed

lemma piperead_waits:
  assumes "piperead p n s = Block c s'"
  shows "pipes s' = pipes s"
proof (cases "pipe_empty (pipes s p) \<and> writeopen (pipes s p)")
  case True
  then have "sleep_b (PipeReadChan p) s = (Block c s' :: (int \<times> byte list, 'a file_st_scheme) res)"
    using assms by (simp add: piperead_def split: if_splits)
  then show ?thesis using pipes_sleep [of _ s s'] by (metis left.simps(2))
next
  case False
  then have "\<exists>v t. piperead p n s = Ret v t" unfolding piperead_def if_not_P [OF False] by (simp split: prod.split)
  then show ?thesis using assms by simp
qed

text \<open>
  C36. A pipe delivers exactly the bytes that were written, in order, none lost and none twice, however the calls
  of its readers and writers interleave, sleep and resume, and although its counters wrap around; and it
  never holds more than 512 bytes.
\<close>

theorem pipe_is_fifo:
  assumes "pipe_run p s w r t" "pipe_empty (pipes s p)"
  shows "w = r @ queued (pipes t p) \<and> length (queued (pipes t p)) \<le> 512"
proof -
  have "w = r @ queued (pipes t p) \<and> pipe_ok (pipes t p)"
    using assms(1)
  proof induction
    case start
    then have "queued (pipes s p) = []" using assms(2) pq.contents_empty by (simp add: pipe_empty_def)
    then show ?case by (simp add: pipe_ok_def)
  next
    case (writes w r t bs t')
    then show ?case using pipewrite_left [of p bs t t'] by simp
  next
    case (reads w r t n m bs t')
    then show ?case using piperead_spec [of p n t m bs t'] by simp
  next
    case (waits w r t n c t')
    then have "pipes t' = pipes t" using piperead_waits by blast
    then show ?case using waits by simp
  next
    case (others w r t t')
    then show ?case by simp
  qed
  then show ?thesis by (simp add: pipe_ok_def)
qed

text \<open>
  C37. A reader gets the smaller of what it asked for and what is there, immediately unless the pipe is empty and
  can still be written; it never sleeps with data in the pipe.
\<close>

theorem piperead_takes_what_is_there:
  assumes "length (queued (pipes s p)) \<le> 512" "0 \<le> n" "queued (pipes s p) \<noteq> [] \<or> \<not> writeopen (pipes s p)"
  shows "\<exists>bs s'. piperead p n s = Ret (int (length bs), bs) s' \<and> bs = take (nat n) (queued (pipes s p)) \<and>
    queued (pipes s' p) = drop (nat n) (queued (pipes s p))"
proof -
  obtain bs t where l: "piperead_loop p (nat n) s = (bs, t)" by fastforce
  have "\<not> (pipe_empty (pipes s p) \<and> writeopen (pipes s p))" using assms(3) pq.contents_empty by (auto simp: pipe_empty_def)
  then have "piperead p n s = Ret (int (length bs), bs) (wakeup_b (PipeWriteChan p) t)" by (auto simp: piperead_def l)
  then show ?thesis using piperead_loop_spec [OF l] assms(1) by (simp add: pipe_ok_def)
qed

subsection \<open>Console input\<close>

text \<open>
  \<^verbatim>\<open>input\<close>: the bytes between \<^verbatim>\<open>r\<close> and \<^verbatim>\<open>e\<close>, of which those before \<^verbatim>\<open>w\<close> can be read. The keyboard's side
  appends at \<^verbatim>\<open>e\<close>.
\<close>

definition type_byte :: "byte \<Rightarrow> 'z cons_st_scheme \<Rightarrow> 'z cons_st_scheme" where
  "type_byte c s = s\<lparr>ibuf := (ibuf s)(unat (in_e s mod INPUT_BUF) := c), in_e := in_e s + 1\<rparr>"

definition read_byte :: "'z cons_st_scheme \<Rightarrow> 'z cons_st_scheme" where
  "read_byte s = s\<lparr>in_r := in_r s + 1\<rparr>"

interpretation iq: ring 128 ibuf in_r in_e type_byte read_byte
  by unfold_locales (simp_all add: type_byte_def read_byte_def unat_mod)

text \<open>The screen: the cursor stays on it, whatever is printed.\<close>

definition screen_ok :: "'z cons_st_scheme \<Rightarrow> bool" where
  "screen_ok s \<longleftrightarrow> \<not> panicked s \<and> uint (cursor s) \<le> 24 * 80"

text \<open>What printing does not touch: everything but the screen and the serial line.\<close>

definition printed :: "'z cons_st_scheme \<Rightarrow> 'z cons_st_scheme \<Rightarrow> bool" where
  "printed s s' \<longleftrightarrow> (\<exists>a b c. s' = s\<lparr>crt := a, cursor := b, uart_out := c\<rparr>)"

lemma printed_refl: "printed s s"
proof -
  have "s = s\<lparr>crt := crt s, cursor := cursor s, uart_out := uart_out s\<rparr>" by simp
  then show ?thesis unfolding printed_def by blast
qed

lemma printed_trans: "printed s t \<Longrightarrow> printed t u \<Longrightarrow> printed s u"
  by (auto simp: printed_def) blast

lemma printed_uartputc: "printed s (uartputc c s)"
proof -
  have "uartputc c s = s\<lparr>crt := crt s, cursor := cursor s, uart_out := uart_out (uartputc c s)\<rparr>"
    by (simp add: uartputc_def)
  then show ?thesis unfolding printed_def by blast
qed

lemma screen_ok_uartputc [simp]: "screen_ok (uartputc c s) = screen_ok s"
  by (simp add: screen_ok_def uartputc_def)

lemma cursor_word: "0 \<le> k \<Longrightarrow> k < 65536 \<Longrightarrow> uint (word_of_int k :: 16 word) = k"
  by (simp add: uint_word_of_int)

lemma printed_crt: "printed s t \<Longrightarrow> printed s (t\<lparr>crt := a\<rparr>)"
proof (rule printed_trans, assumption)
  have "t\<lparr>crt := a\<rparr> = t\<lparr>crt := a, cursor := cursor t, uart_out := uart_out t\<rparr>" by simp
  then show "printed t (t\<lparr>crt := a\<rparr>)" unfolding printed_def by blast
qed

lemma printed_cursor: "printed s t \<Longrightarrow> printed s (t\<lparr>cursor := a\<rparr>)"
proof (rule printed_trans, assumption)
  have "t\<lparr>cursor := a\<rparr> = t\<lparr>crt := crt t, cursor := a, uart_out := uart_out t\<rparr>" by simp
  then show "printed t (t\<lparr>cursor := a\<rparr>)" unfolding printed_def by blast
qed

lemma printed_panicked: "printed s t \<Longrightarrow> panicked t = panicked s"
  by (auto simp: printed_def)

lemma cgaputc_ok:
  assumes "screen_ok s"
  shows "\<exists>s'. cgaputc c s = Ret () s' \<and> screen_ok s' \<and> printed s s'"
proof -
  define q where "q = uint (cursor s)"
  define k where "k = (if c = newline then q + (80 - q mod 80) else if c = BACKSPACE then if q > 0 then q - 1 else q else q + 1)"
  have q: "0 \<le> q" "q \<le> 1920" using assms by (simp_all add: q_def screen_ok_def)
  have "0 \<le> q + (80 - q mod 80)" "q + (80 - q mod 80) \<le> 2000" using q by presburger+
  then have k: "0 \<le> k" "k \<le> 2000" using q by (simp_all add: k_def)
  define s1 where "s1 = (if c = newline \<or> c = BACKSPACE then s else s\<lparr>crt := (crt s)(nat q := word_of_int c AND 0xFF OR 0x0700)\<rparr>)"
  have s1: "printed s s1" by (simp add: s1_def printed_refl printed_crt)
  define A where "A = (\<lambda>i. if i < 23 * 80 then crt s1 (i + 80) else crt s1 i)"
  define s2 where "s2 = (if k div 80 \<ge> 24 then s1\<lparr>crt := A\<rparr>\<lparr>crt := (\<lambda>i. if nat (k - 80) \<le> i \<and> i < 24 * 80 then 0 else A i)\<rparr> else s1)"
  define j where "j = (if k div 80 \<ge> 24 then k - 80 else k)"
  have first: "(if c = newline then (q + (80 - q mod 80), s) else if c = BACKSPACE then (if q > 0 then q - 1 else q, s)
      else (q + 1, s\<lparr>crt := (crt s)(nat q := word_of_int c AND 0xFF OR 0x0700)\<rparr>)) = (k, s1)"
    by (simp add: k_def s1_def)
  have "cgaputc c s = Ret () (s2\<lparr>cursor := word_of_int j, crt := (crt s2)(nat j := 0x20 OR 0x0700)\<rparr>)"
    unfolding cgaputc_def q_def [symmetric] Let_def first using k by (simp add: s2_def j_def A_def cong: if_cong)
  moreover have "24 \<le> k div 80 \<longleftrightarrow> 1920 \<le> k" by presburger
  then have j: "0 \<le> j" "j \<le> 1920" "printed s s2" using k s1 by (simp_all add: j_def s2_def printed_crt)
  moreover have "printed s (s2\<lparr>cursor := word_of_int j, crt := (crt s2)(nat j := 0x20 OR 0x0700)\<rparr>)"
    by (intro printed_crt printed_cursor j(3))
  ultimately show ?thesis using j assms printed_panicked [OF j(3)] by (simp add: screen_ok_def cursor_word)
qed

lemma consputc_ok:
  assumes "screen_ok s"
  shows "\<exists>s'. consputc c s = Ret () s' \<and> screen_ok s' \<and> printed s s'"
proof -
  define t where "t = (if c = BACKSPACE then uartputc 8 (uartputc 32 (uartputc 8 s)) else uartputc c s)"
  have t: "screen_ok t" "printed s t"
    using assms printed_trans [OF printed_trans [OF printed_uartputc printed_uartputc] printed_uartputc, of s]
    by (auto simp: t_def printed_uartputc)
  obtain s' where "cgaputc c t = Ret () s'" "screen_ok s'" "printed t s'" using cgaputc_ok [OF t(1)] by blast
  then show ?thesis using t(2) assms printed_trans by (auto simp: consputc_def screen_ok_def t_def [symmetric])
qed

lemma print_list_ok:
  "screen_ok s \<Longrightarrow> \<exists>s'. for_each (\<lambda>c. consputc (f c)) cs s = Ret () s' \<and> screen_ok s' \<and> printed s s'"
proof (induction cs arbitrary: s)
  case (Cons c cs)
  obtain t where t: "consputc (f c) s = Ret () t" "screen_ok t" "printed s t" using consputc_ok [OF Cons.prems] by blast
  obtain s' where "for_each (\<lambda>c. consputc (f c)) cs t = Ret () s'" "screen_ok s'" "printed t s'" using Cons.IH [OF t(2)] by blast
  then show ?case using t printed_trans by auto
qed (simp add: printed_refl)

text \<open>
  C40. \<^verbatim>\<open>cprintf\<close> returns for every format and arguments, without the panic of \<^verbatim>\<open>cgaputc\<close>: with the cursor on the screen
  it stays on the screen, and nothing but the screen and the serial line changes.
\<close>

theorem cprintf_returns:
  assumes "screen_ok s"
  shows "\<exists>s'. cprintf fmt args s = Ret () s' \<and> screen_ok s' \<and> printed s s'"
  using assms
proof (induction fmt arbitrary: args s rule: length_induct)
  case (1 fmt)
  define ok where "ok m t \<longleftrightarrow> (\<exists>s'. m = Ret () s' \<and> screen_ok s' \<and> printed t s')"
    for m :: "(unit, 'a cons_st_scheme) res" and t
  have seq: "ok (rbind m f) t" if "ok m t" "\<And>u. screen_ok u \<Longrightarrow> ok (f () u) u" for m f t
    using that printed_trans unfolding ok_def by (metis rbind.simps(1))
  have put: "screen_ok t \<Longrightarrow> ok (consputc c t) t" "screen_ok t \<Longrightarrow> ok (for_each (\<lambda>c. consputc (uint c)) cs t) t"
    "screen_ok t \<Longrightarrow> ok (printint w b sg t) t" for c cs w b sg t
    using consputc_ok [of t c] print_list_ok [of t uint] by (simp_all add: ok_def printint_def)
  have rest: "length r < length fmt \<Longrightarrow> screen_ok t \<Longrightarrow> ok (cprintf r bs t) t" for r bs t
    using 1(1) by (simp add: ok_def)
  have "ok (cprintf fmt args s) s"
  proof (cases fmt)
    case Nil
    then show ?thesis using 1(2) by (simp add: ok_def printed_refl)
  next
    case (Cons c r)
    have "ok (Ret () s) s" using 1(2) by (simp add: ok_def printed_refl)
    then show ?thesis using 1(2) Cons by (cases r) (auto intro!: seq put rest)
  qed
  then show ?case by (simp add: ok_def)
qed

text \<open>Printing leaves the input queue alone.\<close>

lemma printed_input:
  assumes "printed s s'"
  shows "ibuf s' = ibuf s" "in_r s' = in_r s" "in_w s' = in_w s" "in_e s' = in_e s"
  using assms by (auto simp: printed_def)

text \<open>The line being edited is at the end of the queue, and the queue fits into the buffer.\<close>

definition input_ok :: "'z cons_st_scheme \<Rightarrow> bool" where
  "input_ok s \<longleftrightarrow> screen_ok s \<and> in_w s - in_r s \<le> in_e s - in_r s \<and> in_e s - in_r s \<le> INPUT_BUF"

lemma input_ok_printed: "printed s t \<Longrightarrow> screen_ok t \<Longrightarrow> input_ok s \<Longrightarrow> input_ok t"
  using printed_input [of s t] by (simp add: input_ok_def)

lemma erase_ok:
  assumes "input_ok s" "in_e s \<noteq> in_w s"
  shows "input_ok (s\<lparr>in_e := in_e s - 1\<rparr>)" "unat (in_e s - in_w s) = Suc (unat (in_e s - 1 - in_w s))"
proof -
  define a b where "a = in_w s - in_r s" and "b = in_e s - in_r s"
  have ab: "a \<le> b" "b \<le> 128" "a \<noteq> b" using assms by (auto simp: input_ok_def a_def b_def)
  then have "a < b" by simp
  then have "b \<noteq> 0" by auto
  then have "a \<le> b - 1" "b - 1 \<le> 128"
    using ab(2) \<open>a < b\<close> unat_minus_one [of b] by (simp_all add: word_le_nat_alt word_less_nat_alt)
  then show "input_ok (s\<lparr>in_e := in_e s - 1\<rparr>)"
    using assms(1) by (simp add: input_ok_def screen_ok_def a_def b_def algebra_simps)
  show "unat (in_e s - in_w s) = Suc (unat (in_e s - 1 - in_w s))"
    using assms(2) unat_minus_one [of "in_e s - in_w s"] unat_gt_0 [of "in_e s - in_w s"] by (simp add: algebra_simps)
qed

lemma kill_line_ok: "input_ok s \<Longrightarrow> \<exists>s'. kill_line n s = Ret () s' \<and> input_ok s'"
proof (induction n arbitrary: s)
  case (Suc n)
  let ?t = "s\<lparr>in_e := in_e s - 1\<rparr>"
  show ?case
  proof (cases "in_e s \<noteq> in_w s \<and> ibuf s (unat ((in_e s - 1) mod INPUT_BUF)) \<noteq> 10")
    case True
    have t: "input_ok ?t" using erase_ok [OF Suc.prems] True by blast
    then obtain u where u: "consputc BACKSPACE ?t = Ret () u" "screen_ok u" "printed ?t u"
      using consputc_ok [of ?t BACKSPACE] by (auto simp: input_ok_def)
    then have "input_ok u" using input_ok_printed t by blast
    then show ?thesis using True u(1) Suc.IH by auto
  qed (use Suc.prems in auto)
qed simp

lemma type_ok:
  assumes "input_ok s" "in_e s - in_r s < INPUT_BUF"
  shows "input_ok (type_byte c s)" "input_ok ((type_byte c s)\<lparr>in_w := in_e s + 1\<rparr>)"
proof -
  define a b where "a = in_w s - in_r s" and "b = in_e s - in_r s"
  have ab: "a \<le> b" "b < 128" using assms by (auto simp: input_ok_def a_def b_def)
  have "unat (b + 1) = unat b + 1" using ab(2) by (simp add: unat_word_ariths word_less_nat_alt)
  then have "a \<le> b + 1" "b + 1 \<le> 128" using ab by (simp_all add: word_le_nat_alt word_less_nat_alt)
  then show "input_ok (type_byte c s)" "input_ok ((type_byte c s)\<lparr>in_w := in_e s + 1\<rparr>)"
    using assms(1) by (simp_all add: input_ok_def screen_ok_def type_byte_def a_def b_def algebra_simps)
qed

lemma input_ok_wakeup [simp]: "input_ok (wakeup_b c s) = input_ok s"
  by (simp add: input_ok_def screen_ok_def wakeup_b_def)

lemma console_char_ok:
  assumes ok: "input_ok s"
  shows "\<exists>d' s'. console_char c d s = Ret d' s' \<and> input_ok s'"
proof -
  have put: "\<exists>u. consputc k t = Ret () u \<and> input_ok u \<and> printed t u" if "input_ok t" for k t
    using that consputc_ok [of t k] input_ok_printed [of t] by (auto simp: input_ok_def)
  consider "c = 16" | "c = 21" | "c \<noteq> 16" "c \<noteq> 21" "c = 8 \<or> c = 127"
    | "c \<noteq> 16" "c \<noteq> 21" "c \<noteq> 8" "c \<noteq> 127" by blast
  then show ?thesis
  proof cases
    case 2
    then show ?thesis using kill_line_ok [OF ok] by (auto simp: console_char_def)
  next
    case 3
    then show ?thesis using ok put erase_ok(1) [OF ok] by (auto simp: console_char_def)
  next
    case 4
    show ?thesis
    proof (cases "c \<noteq> 0 \<and> in_e s - in_r s < INPUT_BUF")
      case True
      define k where "k = (if c = 13 then 10 else c)"
      let ?t = "type_byte (word_of_int k) s"
      obtain u where u: "consputc k ?t = Ret () u" "input_ok u" "printed ?t u" using put type_ok(1) [OF ok] True by blast
      have "input_ok (u\<lparr>in_w := in_e u\<rparr>)"
        using type_ok(2) [OF ok, of "word_of_int k"] True u(2) printed_input [OF u(3)]
        by (simp add: input_ok_def screen_ok_def type_byte_def)
      then show ?thesis using 4 True u by (simp add: console_char_def k_def [symmetric] type_byte_def [symmetric] Let_def)
    qed (use 4 ok in \<open>auto simp: console_char_def\<close>)
  qed (use ok in \<open>auto simp: console_char_def\<close>)
qed

text \<open>
  C39. Whatever arrives from the keyboard or the serial line, \<^verbatim>\<open>consoleintr\<close> returns; the line being edited stays
  behind the readable part of the buffer, and the buffer never overflows.
\<close>

theorem consoleintr_ok:
  assumes "input_ok s"
  shows "\<exists>d' s'. consoleintr cs d s = Ret d' s' \<and> input_ok s'"
  using assms
proof (induction cs arbitrary: d s)
  case (Cons c cs)
  obtain d1 t where "console_char c d s = Ret d1 t" "input_ok t" using console_char_ok [OF Cons.prems] by blast
  then show ?case using Cons.IH by simp
qed auto

text \<open>Characters without a meaning of their own.\<close>

definition plain :: "byte \<Rightarrow> bool" where
  "plain c \<longleftrightarrow> c \<notin> {0, 4, 8, 10, 13, 16, 21, 127}"

lemma queue_printed: "printed s t \<Longrightarrow> iq.contents t = iq.contents s"
  using printed_input [of s t] by (simp add: iq.contents_def iq.item_def [abs_def] iq.len_def)

lemma queue_room: "length (iq.contents s) < 128 \<Longrightarrow> in_e s - in_r s < INPUT_BUF"
  by (simp add: iq.length_contents iq.len_def word_less_nat_alt)

lemma type_plain:
  assumes "input_ok s" "plain c" "length (iq.contents s) < 127"
  shows "\<exists>u. console_char (uint c) d s = Ret d u \<and> input_ok u \<and> in_w u = in_w s \<and> in_r u = in_r s \<and>
    iq.contents u = iq.contents s @ [c]"
proof -
  have c: "uint c \<noteq> k" if "plain c" "k \<in> {0, 4, 8, 10, 13, 16, 21, 127}" for k :: int
    using that by (auto simp: plain_def dest!: arg_cong [of _ _ "word_of_int :: int \<Rightarrow> byte"])
  have room: "in_e s - in_r s < INPUT_BUF" using assms(3) by (intro queue_room) simp
  have q: "iq.contents (type_byte c s) = iq.contents s @ [c]"
    using assms(3) by (intro iq.contents_put) (simp add: iq.length_contents [symmetric])
  obtain u where u: "consputc (uint c) (type_byte c s) = Ret () u" "screen_ok u" "printed (type_byte c s) u"
    using consputc_ok [of "type_byte c s" "uint c"] type_ok(1) [OF assms(1) room, of c] by (auto simp: input_ok_def)
  have "input_ok u" using input_ok_printed [OF u(3,2)] type_ok(1) [OF assms(1) room] by blast
  moreover have "in_e u \<noteq> in_r u + INPUT_BUF"
  proof
    assume "in_e u = in_r u + INPUT_BUF"
    then have "length (iq.contents u) = 128" by (simp add: iq.length_contents iq.len_def)
    then show False using queue_printed [OF u(3)] q assms(3) by simp
  qed
  moreover have "in_w u = in_w s" "in_r u = in_r s" using printed_input [OF u(3)] by (simp_all add: type_byte_def)
  ultimately show ?thesis
    using u(1) room c assms(2) queue_printed [OF u(3)] q by (simp add: console_char_def type_byte_def [symmetric])
qed

lemma type_line:
  "input_ok s \<Longrightarrow> list_all plain cs \<Longrightarrow> length (iq.contents s) + length cs < 128 \<Longrightarrow>
   \<exists>u. consoleintr (map uint cs @ ks) d s = consoleintr ks d u \<and> input_ok u \<and> in_w u = in_w s \<and> in_r u = in_r s \<and>
     iq.contents u = iq.contents s @ cs"
proof (induction cs arbitrary: s)
  case (Cons c cs)
  obtain t where t: "console_char (uint c) d s = Ret d t" "input_ok t" "in_w t = in_w s" "in_r t = in_r s"
    "iq.contents t = iq.contents s @ [c]"
    using type_plain [of s c d] Cons.prems by auto
  then show ?case using Cons.IH [of t] Cons.prems by auto
qed auto

lemma type_enter:
  assumes "input_ok s" "length (iq.contents s) < 128"
  shows "\<exists>u. console_char 13 d s = Ret d u \<and> input_ok u \<and> in_w u = in_e u \<and> iq.contents u = iq.contents s @ [10]"
proof -
  have room: "in_e s - in_r s < INPUT_BUF" by (rule queue_room [OF assms(2)])
  have q: "iq.contents (type_byte 10 s) = iq.contents s @ [10]"
    using assms(2) by (intro iq.contents_put) (simp add: iq.length_contents [symmetric])
  obtain u where u: "consputc 10 (type_byte 10 s) = Ret () u" "screen_ok u" "printed (type_byte 10 s) u"
    using consputc_ok [of "type_byte 10 s" 10] type_ok(1) [OF assms(1) room, of 10] by (auto simp: input_ok_def)
  let ?u = "wakeup_b InputChan (u\<lparr>in_w := in_e u\<rparr>)"
  have "iq.contents ?u = iq.contents u" "in_w ?u = in_e ?u"
    by (simp_all add: iq.contents_def iq.item_def [abs_def] iq.len_def wakeup_b_def)
  moreover have "input_ok ?u"
    using type_ok(2) [OF assms(1) room, of 10] u(2) printed_input [OF u(3)]
    by (simp add: input_ok_def screen_ok_def type_byte_def wakeup_b_def)
  moreover have "console_char 13 d s = Ret d ?u"
    using u(1) room by (simp add: console_char_def type_byte_def [symmetric])
  ultimately show ?thesis using queue_printed [OF u(3)] q by auto
qed

lemma read_line:
  "iq.contents s = cs @ [10] \<Longrightarrow> in_w s = in_e s \<Longrightarrow> 4 \<notin> set cs \<Longrightarrow> 10 \<notin> set cs \<Longrightarrow> length cs < n \<Longrightarrow>
   \<exists>u. consoleread_loop n target acc s = Ret (True, acc @ cs @ [10]) u \<and> iq.contents u = []"
proof (induction n arbitrary: s cs acc)
  case (Suc n)
  have "0 < iq.len s" using Suc.prems(1) by (simp flip: iq.length_contents)
  from iq.contents_get [OF this] obtain c ds where
    c: "ibuf s (unat (in_r s mod INPUT_BUF)) = c" "iq.contents (read_byte s) = ds" "cs @ [10] = c # ds"
    using Suc.prems(1) by (auto simp: unat_mod)
  have ne: "in_r s \<noteq> in_w s" using iq.contents_empty [of s] Suc.prems(1,2) by auto
  show ?case
  proof (cases cs)
    case Nil
    then show ?thesis using ne c by (simp add: read_byte_def [symmetric] Let_def)
  next
    case (Cons b bs)
    with c(3) have d: "ds = bs @ [10]" "c = b" by simp_all
    have "c \<noteq> 4" "c \<noteq> 10" using Suc.prems(3,4) Cons d by auto
    moreover have "in_w (read_byte s) = in_e (read_byte s)" using Suc.prems(2) by (simp add: read_byte_def)
    ultimately show ?thesis
      using Suc.IH [of "read_byte s" bs "acc @ [c]"] Suc.prems Cons c ne d by (simp add: read_byte_def [symmetric] Let_def)
  qed
qed simp


subsection \<open>Numbers\<close>

text \<open>The number that a list of digits stands for, least significant digit first.\<close>

definition digit_value :: "byte \<Rightarrow> nat" where
  "digit_value c = (if c \<ge> 97 then unat c - 87 else unat c - 48)"

fun value_of :: "nat \<Rightarrow> byte list \<Rightarrow> nat" where
  "value_of b [] = 0"
| "value_of b (c # cs) = digit_value c + b * value_of b cs"

lemma digit_value_digit: "d < 16 \<Longrightarrow> digit_value (digit d) = d"
proof -
  assume d: "d < 16"
  have "unat (of_nat (48 + d) :: byte) = 48 + d" "unat (of_nat (87 + d) :: byte) = 87 + d"
    using d by (simp_all only: unat_of_nat) simp_all
  then show ?thesis by (auto simp: digit_value_def digit_def word_le_nat_alt simp del: of_nat_add)
qed

lemma value_of_digits: "1 < b \<Longrightarrow> b \<le> 16 \<Longrightarrow> value_of b (digits_of b x) = x"
proof (induction x rule: less_induct)
  case (less x)
  have "digit_value (digit (x mod b)) = x mod b" using less.prems by (intro digit_value_digit) (meson mod_less_divisor less_le_trans less_trans zero_less_one)
  moreover have "x div b \<noteq> 0 \<Longrightarrow> value_of b (digits_of b (x div b)) = x div b"
    using less by (cases "x = 0") (auto intro: div_less_dividend)
  ultimately show ?case using less.prems by (subst digits_of.simps) (auto simp: div_eq_0_iff)
qed

lemma length_digits: "1 < b \<Longrightarrow> x < b ^ n \<Longrightarrow> 0 < n \<Longrightarrow> length (digits_of b x) \<le> n"
proof (induction n arbitrary: x)
  case (Suc n)
  show ?case
  proof (cases "x div b = 0")
    case False
    then have "n \<noteq> 0" using Suc.prems by (cases n) auto
    moreover have "x div b < b ^ n" using Suc.prems by (simp add: less_mult_imp_div_less mult.commute)
    ultimately show ?thesis using Suc by (subst digits_of.simps) auto
  qed (subst digits_of.simps, simp)
qed simp

text \<open>
  \<^verbatim>\<open>printint\<close> stores at most 11 characters into its buffer of 16, for every number in both bases, and they
  are the digits of the number: for a signed decimal a minus sign and the digits of its absolute value,
  also for the smallest number, whose negation overflows.
\<close>

theorem printint_buf_correct:
  assumes "base = 10 \<or> base = 16 \<and> \<not> sign"
  shows "length (printint_buf xx base sign) \<le> 11 \<and>
    (if sign \<and> sint xx < 0
     then \<exists>ds. printint_buf xx base sign = ds @ [45] \<and> int (value_of base ds) = - sint xx
     else int (value_of base (printint_buf xx base sign)) = (if sign then sint xx else uint xx))"
proof -
  have b: "1 < base" "base \<le> 16" using assms by auto
  have "unat w < 2 ^ 32" for w :: "32 word" using unsigned_less [of w] by simp
  then have "unat w < base ^ 10" for w :: "32 word" using assms by (auto intro: less_trans [of _ "2 ^ 32"])
  then have len: "length (digits_of base (unat w)) \<le> 10" for w :: "32 word" using length_digits [OF b(1), of _ 10] by simp
  have neg: "int (unat (- xx)) = - sint xx" if "sint xx < 0"
  proof -
    have "- sint xx < 2 ^ 32" "0 \<le> - sint xx" using that sint_range_size [of xx] by (simp_all add: word_size)
    moreover have "0 \<le> k \<Longrightarrow> k < 2 ^ 32 \<Longrightarrow> uint (word_of_int k :: 32 word) = k" for k
      by (simp add: uint_word_of_int)
    ultimately have "uint (word_of_int (- sint xx) :: 32 word) = - sint xx" by blast
    then show ?thesis by (simp flip: uint_nat)
  qed
  have pos: "int (unat xx) = sint xx" if "\<not> sint xx < 0"
  proof -
    have "uint xx < 2 ^ 32" using uint_bounded [of xx] by simp
    then have "sint xx = uint xx - 2 ^ 32 * of_bool (bit (uint xx) 31)"
      by (simp add: sint_uint signed_take_bit_eq_take_bit_minus take_bit_int_eq_self)
    then show ?thesis using that \<open>uint xx < 2 ^ 32\<close> by (cases "bit (uint xx) 31") (simp_all flip: uint_nat)
  qed
  note v = value_of_digits [OF b]
  show ?thesis
  proof (cases "sign \<and> sint xx < 0")
    case True
    then have p: "printint_buf xx base sign = digits_of base (unat (- xx)) @ [45]" by (simp add: printint_buf_def)
    have "int (value_of base (digits_of base (unat (- xx)))) = - sint xx" using neg True by (simp only: v)
    then show ?thesis using len [of "- xx"] unfolding p if_P [OF True] by auto
  next
    case False
    then have p: "printint_buf xx base sign = digits_of base (unat xx)" by (auto simp: printint_buf_def)
    have "int (unat xx) = (if sign then sint xx else uint xx)" using pos False by auto
    then show ?thesis using False len [of xx] by (simp only: p v if_False) simp
  qed
qed

subsection \<open>Examples\<close>

definition file_boot :: file_st where
  "file_boot = \<lparr>ps = boot_st, me = (0, 0), bufs = (\<lambda>_. blank_buf), bnext = (\<lambda>_. 0), bprev = (\<lambda>_. 0),
     idequeue = [], havedisk1 = True, disk = (\<lambda>_ _ _. 0), fault = (\<lambda>_ _. False), writes = [],
     lstart = 2, lsize = 30, outstanding = 0, committing = False, ldev = 1, lh_n = 0, lh_block = (\<lambda>_. 0),
     sb = \<lparr>ssize = 1000, nblocks = 941, ninodes = 200, nlog = 30, logstart = 2, inodestart = 32, bmapstart = 58\<rparr>,
     icache = (\<lambda>_. \<lparr>idev = 1, inum = 1, iref = 1, ilk = initsleeplock, ivalid = True, itype = 1, major = 0, minor = 0,
       nlink = 1, isize = 0, addrs = (\<lambda>_. 0)\<rparr>),
     crt = (\<lambda>_. 0), cursor = 0, uart = True, uart_out = [], panicked = False, locking = True, ibuf = (\<lambda>_. 0),
     in_r = 0, in_w = 0, in_e = 0, devsw = (\<lambda>m. m = 1), shift = 0,
     ftable = (\<lambda>_. \<lparr>ftype = FD_NONE, fref = 0, readable = False, writable = False, fpipe = 0, fip = 0, foff = 0\<rparr>),
     pipes = (\<lambda>_. \<lparr>pdata = (\<lambda>_. 0), nread = 0xFFFFFFFF, nwrite = 0xFFFFFFFF, readopen = True, writeopen = True\<rparr>)\<rparr>"

theorem pipe_is_fifo_witness:
  "\<exists>t t'. pipewrite 4096 [1, 2] file_boot = Ret 2 t \<and> piperead 4096 1 t = Ret (1, [1]) t' \<and> [1, 2] = [1] @ queued (pipes t' 4096)"
proof -
  define t where "t = wakeup_b (PipeReadChan 4096) (upd_pipe 4096 (pipe_put 2) (upd_pipe 4096 (pipe_put 1) file_boot))"
  have w: "pipewrite 4096 [1, 2] file_boot = Ret 2 t"
    by (simp add: pipewrite_def pipe_full_def t_def)
      (auto simp: file_boot_def upd_pipe_def pipe_put_def intro: exI [of _ True])
  have x: "pipes t 4096 = pipe_put 2 (pipe_put 1 (pipes file_boot 4096))" by (simp add: t_def)
  have r: "\<exists>t'. piperead 4096 1 t = Ret (1, [1]) t'"
    by (simp add: piperead_def x Let_def pipe_empty_def) (auto simp: file_boot_def pipe_get_def pipe_put_def intro: exI [of _ True])
  then obtain t' where t': "piperead 4096 1 t = Ret (1, [1]) t'" by blast
  have "pipe_run 4096 file_boot ([] @ take (accepted (pipes file_boot 4096) (pipes t 4096)) [1, 2]) [] t"
    by (rule pipe_run.writes [OF pipe_run.start]) (simp add: w)
  moreover have "accepted (pipes file_boot 4096) (pipes t 4096) = 2"
    by (simp add: x accepted_def pipe_put_def)
  ultimately have "pipe_run 4096 file_boot [1, 2] [] t" by simp
  then have "pipe_run 4096 file_boot [1, 2] ([] @ [1]) t'" by (rule pipe_run.reads [OF _ t'])
  from pipe_is_fifo [OF this] show ?thesis using w t' by (auto simp: pipe_empty_def file_boot_def)
qed

theorem piperead_takes_what_is_there_witness:
  "\<exists>s'. piperead 4096 5 (file_boot\<lparr>pipes := \<lambda>_. (pipes file_boot 0)\<lparr>writeopen := False\<rparr>\<rparr>) = Ret (0, []) s'"
proof -
  let ?s = "file_boot\<lparr>pipes := \<lambda>_. (pipes file_boot 0)\<lparr>writeopen := False\<rparr>\<rparr>"
  have "queued (pipes ?s 4096) = []" by (simp add: pq.contents_empty file_boot_def)
  then show ?thesis using piperead_takes_what_is_there [of ?s 4096 5] by auto
qed

lemma screen_boot: "screen_ok file_boot"
  by (simp add: screen_ok_def file_boot_def)

lemma input_boot: "input_ok file_boot"
  by (simp add: input_ok_def screen_boot) (simp add: file_boot_def)

theorem cprintf_returns_witness: "\<exists>s'. cprintf (str ''%d %s'') [Word 7, Str None] file_boot = Ret () s' \<and> screen_ok s'"
  using cprintf_returns [OF screen_boot, of "str ''%d %s''" "[Word 7, Str None]"] by auto

theorem consoleintr_ok_witness: "\<exists>d' s'. consoleintr [104, 105, 8, 21, 4] False file_boot = Ret d' s' \<and> input_ok s'"
  using consoleintr_ok [OF input_boot] by blast


end
