(* ===== verification/Uaccess.thy ===== *)
theory Uaccess
  imports File
begin

section \<open>Arguments of system calls and user memory (syscall.c)\<close>

text \<open>
  The kernel runs on the page table of the current process, so a user address is read and written
  through it. \<^verbatim>\<open>fetchint\<close> and \<^verbatim>\<open>fetchstr\<close> only check the address against the size of the process; an
  access to a page that is not present traps in the kernel, which panics.
\<close>

abbreviation (input) curproc :: "'z bio_st_scheme \<Rightarrow> proc" where
  "curproc s \<equiv> ptable (ps s) (fst (me s))"

abbreviation (input) curthread :: "'z bio_st_scheme \<Rightarrow> thread" where
  "curthread s \<equiv> thr (ps s) (fst (me s)) (snd (me s))"

definition upd_curproc :: "(proc \<Rightarrow> proc) \<Rightarrow> 'z bio_st_scheme \<Rightarrow> 'z bio_st_scheme" where
  "upd_curproc f s = s\<lparr>ps := upd_proc (fst (me s)) f (ps s)\<rparr>"

definition on_ps :: "(proc_st \<Rightarrow> ('a, proc_st) res) \<Rightarrow> 'z bio_st_scheme \<Rightarrow> ('a, 'z bio_st_scheme) res" where
  "on_ps = on_part ps (\<lambda>p s. s\<lparr>ps := p\<rparr>)"

text \<open>A thread that has called \<^verbatim>\<open>sched\<close>, to resume at \<open>q\<close>.\<close>

definition off_cpu :: "kpc \<Rightarrow> 'z bio_st_scheme \<Rightarrow> ('a, 'z bio_st_scheme) res" where
  "off_cpu q s =
     Block (chan (curthread s)) (s\<lparr>ps := upd_thread (fst (me s)) (snd (me s)) (\<lambda>t. t\<lparr>tpc := q\<rparr>) (ps s)\<rparr>)"

subsection \<open>Access through the page table\<close>

definition user_pa :: "kmem_st \<Rightarrow> addr \<Rightarrow> addr \<Rightarrow> addr option" where
  "user_pa k pg va =
     (let pte = fst (walkpgdir pg va False k);
          e = load32 (mem k) pte
      in if pte = 0 \<or> e AND PTE_P = 0 then None else Some (P2V (PTE_ADDR e) + (va AND 0xFFF)))"

definition uload :: "addr \<Rightarrow> 'z bio_st_scheme \<Rightarrow> (byte, 'z bio_st_scheme) res" where
  "uload va s =
     (case user_pa (km (ps s)) (pgdir (curproc s)) va of
        None \<Rightarrow> Panic ''trap''
      | Some a \<Rightarrow> Ret (mem (km (ps s)) a) s)"

definition ustore :: "addr \<Rightarrow> byte \<Rightarrow> 'z bio_st_scheme \<Rightarrow> (unit, 'z bio_st_scheme) res" where
  "ustore va c s =
     (case user_pa (km (ps s)) (pgdir (curproc s)) va of
        None \<Rightarrow> Panic ''trap''
      | Some a \<Rightarrow> Ret () (s\<lparr>ps := upd_mem (\<lambda>m. m(a := c)) (ps s)\<rparr>))"

fun uload_bytes :: "addr \<Rightarrow> nat \<Rightarrow> 'z bio_st_scheme \<Rightarrow> (byte list, 'z bio_st_scheme) res" where
  "uload_bytes va 0 s = Ret [] s"
| "uload_bytes va (Suc n) s =
     rbind (uload va s) (\<lambda>c s. rbind (uload_bytes (va + 1) n s) (\<lambda>cs s. Ret (c # cs) s))"

fun ustore_bytes :: "addr \<Rightarrow> byte list \<Rightarrow> 'z bio_st_scheme \<Rightarrow> (unit, 'z bio_st_scheme) res" where
  "ustore_bytes va [] s = Ret () s"
| "ustore_bytes va (c # cs) s = rbind (ustore va c s) (\<lambda>_ s. ustore_bytes (va + 1) cs s)"

definition le32 :: "byte list \<Rightarrow> nat \<Rightarrow> 32 word" where
  "le32 bs i = rd32 (\<lambda>j. bs ! j) i"

definition bytes32 :: "32 word \<Rightarrow> byte list" where
  "bytes32 v = [ucast v, ucast (drop_bit 8 v), ucast (drop_bit 16 v), ucast (drop_bit 24 v)]"

lemma le32_bytes32 [simp]: "le32 (bytes32 v) 0 = v"
  by (simp add: le32_def bytes32_def rd32_def word32_bytes)

subsection \<open>Fetching arguments\<close>

text \<open>The value that is stored through the pointer is the result; None stands for the return value -1.\<close>

definition fetchint :: "addr \<Rightarrow> 'z bio_st_scheme \<Rightarrow> (32 word option, 'z bio_st_scheme) res" where
  "fetchint a s =
     (if a \<ge> sz (curproc s) \<or> a + 4 > sz (curproc s) then Ret None s
      else rbind (uload_bytes a 4 s) (\<lambda>bs s. Ret (Some (le32 bs 0)) s))"

text \<open>\<^verbatim>\<open>fetchstr\<close> scans from \<open>a\<close> up to the size of the process; the result is the string.\<close>

fun fetchstr_loop :: "nat \<Rightarrow> addr \<Rightarrow> 'z bio_st_scheme \<Rightarrow> (byte list option, 'z bio_st_scheme) res" where
  "fetchstr_loop 0 a s = Ret None s"
| "fetchstr_loop (Suc n) a s =
     rbind (uload a s) (\<lambda>c s.
       if c = 0 then Ret (Some []) s
       else rbind (fetchstr_loop n (a + 1) s) (\<lambda>r s. Ret (map_option ((#) c) r) s))"

definition fetchstr :: "addr \<Rightarrow> 'z bio_st_scheme \<Rightarrow> (byte list option, 'z bio_st_scheme) res" where
  "fetchstr a s =
     (if a \<ge> sz (curproc s) then Ret None s
      else fetchstr_loop (unat (sz (curproc s) - a)) a s)"

definition argint :: "nat \<Rightarrow> 'z bio_st_scheme \<Rightarrow> (32 word option, 'z bio_st_scheme) res" where
  "argint n s = fetchint (load32 (mem (km (ps s))) (tf (curthread s) + TF_ESP) + 4 + 4 * of_nat n) s"

definition argptr :: "nat \<Rightarrow> int \<Rightarrow> 'z bio_st_scheme \<Rightarrow> (addr option, 'z bio_st_scheme) res" where
  "argptr n k s =
     rbind (argint n s) (\<lambda>r s.
       case r of
         None \<Rightarrow> Ret None s
       | Some i \<Rightarrow>
           if k < 0 \<or> i \<ge> sz (curproc s) \<or> i + word_of_int k > sz (curproc s) then Ret None s
           else Ret (Some i) s)"

definition argstr :: "nat \<Rightarrow> 'z bio_st_scheme \<Rightarrow> (byte list option, 'z bio_st_scheme) res" where
  "argstr n s =
     rbind (argint n s) (\<lambda>r s. case r of None \<Rightarrow> Ret None s | Some a \<Rightarrow> fetchstr a s)"

text \<open>Continuing only if the arguments could be fetched.\<close>

definition with_arg :: "('a option, 's) res \<Rightarrow> ('a \<Rightarrow> 's \<Rightarrow> (int, 's) res) \<Rightarrow> (int, 's) res" where
  "with_arg m f = rbind m (\<lambda>r s. case r of None \<Rightarrow> Ret (-1) s | Some x \<Rightarrow> f x s)"

end
