(* ===== verification/Exec.thy ===== *)
theory Exec
  imports Uaccess
begin

section \<open>Loading a program (exec.c, elf.h, and loaduvm of vm.c)\<close>

text \<open>
  \<^verbatim>\<open>exec\<close> builds the new address space beside the old one and only then replaces it. The pieces of
  the routine between its \<^verbatim>\<open>goto bad\<close> statements are separate definitions; each returns None
  where the code jumps to \<^verbatim>\<open>bad\<close>.
\<close>

record elfhdr =
  e_magic :: "32 word"
  e_entry :: addr
  e_phoff :: "32 word"
  e_phnum :: nat

record proghdr =
  p_type :: "32 word"
  p_off :: "32 word"
  p_vaddr :: addr
  p_filesz :: "32 word"
  p_memsz :: "32 word"

abbreviation (input) ELF_MAGIC :: "32 word" where "ELF_MAGIC \<equiv> 0x464C457F"
abbreviation (input) ELF_PROG_LOAD :: "32 word" where "ELF_PROG_LOAD \<equiv> 1"
abbreviation (input) MAXARG :: nat where "MAXARG \<equiv> 32"

text \<open>The fields of the headers that \<^verbatim>\<open>exec\<close> uses, at their offsets in the file.\<close>

definition elfhdr_of :: "byte list \<Rightarrow> elfhdr" where
  "elfhdr_of bs = \<lparr>e_magic = le32 bs 0, e_entry = le32 bs 24, e_phoff = le32 bs 28,
     e_phnum = unat (rd16 (\<lambda>j. bs ! j) 44)\<rparr>"

definition proghdr_of :: "byte list \<Rightarrow> proghdr" where
  "proghdr_of bs = \<lparr>p_type = le32 bs 0, p_off = le32 bs 4, p_vaddr = le32 bs 8,
     p_filesz = le32 bs 16, p_memsz = le32 bs 20\<rparr>"

subsection \<open>loaduvm\<close>

text \<open>\<open>r\<close> bytes are left from position \<open>i\<close> on; each round fills one page.\<close>

function loaduvm_loop :: "addr \<Rightarrow> addr \<Rightarrow> nat \<Rightarrow> 32 word \<Rightarrow> nat \<Rightarrow> nat \<Rightarrow> 'z cons_st_scheme \<Rightarrow> (int, 'z cons_st_scheme) res" where
  "loaduvm_loop pg va ip offset i r s =
     (if r = 0 then Ret 0 s
      else let k = km (ps s); pte = fst (walkpgdir pg (va + of_nat i) False k)
        in if pte = 0 then Panic ''loaduvm: address should exist''
           else let pa = PTE_ADDR (load32 (mem k) pte); n = min r 4096
                in rbind (readi (devsw_read s) ip (offset + of_nat i) (of_nat n) s) (\<lambda>(m, bs) s.
                     let s = s\<lparr>ps := upd_mem (\<lambda>m. write_bytes m (P2V pa) bs) (ps s)\<rparr>
                     in if m \<noteq> int n then Ret (-1) s
                        else loaduvm_loop pg va ip offset (i + n) (r - n) s))"
  by pat_completeness auto
termination
  by (relation "measure (\<lambda>(pg, va, ip, offset, i, r, s). r)") auto

declare loaduvm_loop.simps [simp del]

definition loaduvm :: "addr \<Rightarrow> addr \<Rightarrow> nat \<Rightarrow> 32 word \<Rightarrow> 32 word \<Rightarrow> 'z cons_st_scheme \<Rightarrow> (int, 'z cons_st_scheme) res" where
  "loaduvm pg va ip offset n s =
     (if va mod PGSIZE \<noteq> 0 then Panic ''loaduvm: addr must be page aligned''
      else loaduvm_loop pg va ip offset 0 (unat n) s)"

subsection \<open>exec\<close>

text \<open>The loop over the program headers, with \<open>n\<close> of them to go; the result is the msz reached.\<close>

fun load_segments :: "nat \<Rightarrow> 32 word \<Rightarrow> addr \<Rightarrow> nat \<Rightarrow> 32 word \<Rightarrow> 'z cons_st_scheme \<Rightarrow> (32 word option, 'z cons_st_scheme) res" where
  "load_segments 0 off pg ip msz s = Ret (Some msz) s"
| "load_segments (Suc n) off pg ip msz s =
     rbind (readi (devsw_read s) ip off 32 s) (\<lambda>(m, bs) s.
       if m \<noteq> 32 then Ret None s
       else let ph = proghdr_of bs
         in if p_type ph \<noteq> ELF_PROG_LOAD then load_segments n (off + 32) pg ip msz s
            else if p_memsz ph < p_filesz ph then Ret None s
            else if p_vaddr ph + p_memsz ph < p_vaddr ph then Ret None s
            else rbind (on_kmem (allocuvm pg msz (p_vaddr ph + p_memsz ph)) s) (\<lambda>msz s.
                   if msz = 0 then Ret None s
                   else if p_vaddr ph mod PGSIZE \<noteq> 0 then Ret None s
                   else rbind (loaduvm pg (p_vaddr ph) ip (p_off ph) (p_filesz ph) s) (\<lambda>r s.
                     if r < 0 then Ret None s else load_segments n (off + 32) pg ip msz s)))"

text \<open>The argument strings go below \<open>sp\<close>, each at a multiple of 4; the result lists their addresses.\<close>

fun push_args :: "addr \<Rightarrow> byte list list \<Rightarrow> nat \<Rightarrow> addr \<Rightarrow> 'z bio_st_scheme \<Rightarrow> ((addr \<times> addr list) option, 'z bio_st_scheme) res" where
  "push_args pg [] argc sp s = Ret (Some (sp, [])) s"
| "push_args pg (a # as) argc sp s =
     (if argc \<ge> MAXARG then Ret None s
      else let sp = (sp - (of_nat (length a) + 1)) AND NOT 3
           in rbind (on_kmem (copyout pg sp (a @ [0])) s) (\<lambda>r s.
                if r < 0 then Ret None s
                else rbind (push_args pg as (argc + 1) sp s) (\<lambda>q s.
                       Ret (map_option (\<lambda>(top, us). (top, sp # us)) q) s)))"

text \<open>From the two stack pages to the finished stack: the new msz and the stack pointer.\<close>

definition build_stack :: "addr \<Rightarrow> byte list list \<Rightarrow> 32 word \<Rightarrow> 'z bio_st_scheme \<Rightarrow> ((32 word \<times> addr) option, 'z bio_st_scheme) res" where
  "build_stack pg argv msz s =
     (let msz = PGROUNDUP msz
      in rbind (on_kmem (allocuvm pg msz (msz + 2 * PGSIZE)) s) (\<lambda>msz s.
           if msz = 0 then Ret None s
           else rbind (on_kmem (clearpteu pg (msz - 2 * PGSIZE)) s) (\<lambda>_ s.
           rbind (push_args pg argv 0 msz s) (\<lambda>q s.
             case q of
               None \<Rightarrow> Ret None s
             | Some (sp, us) \<Rightarrow>
                 let argc = of_nat (length us);
                     ustack = [0xFFFFFFFF, argc, sp - (argc + 1) * 4] @ us @ [0];
                     sp = sp - (3 + argc + 1) * 4
                 in rbind (on_kmem (copyout pg sp (concat (map bytes32 ustack))) s) (\<lambda>r s.
                      if r < 0 then Ret None s else Ret (Some (msz, sp)) s)))))"

text \<open>What follows the last slash of the path, cut to fit the name field.\<close>

definition last_elem :: "byte list \<Rightarrow> byte list" where
  "last_elem path = take 15 (rev (takeWhile (\<lambda>c. c \<noteq> slash) (rev path)))"

definition commit_image :: "byte list \<Rightarrow> addr \<Rightarrow> 32 word \<Rightarrow> addr \<Rightarrow> addr \<Rightarrow> 'z bio_st_scheme \<Rightarrow> (int, 'z bio_st_scheme) res" where
  "commit_image path pg msz entry sp s =
     (let oldpg = pgdir (curproc s);
          s = upd_curproc (\<lambda>p. p\<lparr>name := last_elem path, pgdir := pg, sz := msz\<rparr>) s;
          f = tf (curthread s);
          s = s\<lparr>ps := upd_mem (\<lambda>m. store32 (store32 m (f + TF_EIP) entry) (f + TF_ESP) sp) (ps s)\<rparr>
      in rbind (on_ps (check_switchuvm (fst (me s)) (snd (me s))) s) (\<lambda>_ s.
         rbind (on_kmem (freevm oldpg) s) (\<lambda>_ s. Ret 0 s)))"

text \<open>The label \<^verbatim>\<open>bad\<close>, with the page directory (0 for none) and the inode if it is still held.\<close>

definition exec_bad :: "addr \<Rightarrow> nat option \<Rightarrow> 'z cons_st_scheme \<Rightarrow> (int, 'z cons_st_scheme) res" where
  "exec_bad pg ip s =
     rbind (if pg \<noteq> 0 then on_kmem (freevm pg) s else Ret () s) (\<lambda>_ s.
       case ip of
         None \<Rightarrow> Ret (-1) s
       | Some ip \<Rightarrow> rbind (iunlockput ip s) (\<lambda>_ s. rbind (end_op s) (\<lambda>_ s. Ret (-1) s)))"

definition exec_body :: "byte list \<Rightarrow> byte list list \<Rightarrow> 'z cons_st_scheme \<Rightarrow> (int, 'z cons_st_scheme) res" where
  "exec_body path argv s =
     rbind (begin_op s) (\<lambda>_ s.
     rbind (namei path s) (\<lambda>r s.
       case r of
         None \<Rightarrow> rbind (end_op s) (\<lambda>_ s.
                   rbind (cprintf (str ''exec: fail'' @ [10]) [] s) (\<lambda>_ s. Ret (-1) s))
       | Some ip \<Rightarrow>
           rbind (ilock ip s) (\<lambda>_ s.
           rbind (readi (devsw_read s) ip 0 52 s) (\<lambda>(m, bs) s.
             if m \<noteq> 52 then exec_bad 0 (Some ip) s
             else let elf = elfhdr_of bs
               in if e_magic elf \<noteq> ELF_MAGIC then exec_bad 0 (Some ip) s
                  else rbind (on_kmem setupkvm s) (\<lambda>pg s.
                    if pg = 0 then exec_bad 0 (Some ip) s
                    else rbind (load_segments (e_phnum elf) (e_phoff elf) pg ip 0 s) (\<lambda>q s.
                      case q of
                        None \<Rightarrow> exec_bad pg (Some ip) s
                      | Some msz \<Rightarrow>
                          rbind (iunlockput ip s) (\<lambda>_ s.
                          rbind (end_op s) (\<lambda>_ s.
                          rbind (build_stack pg argv msz s) (\<lambda>q s.
                            case q of
                              None \<Rightarrow> exec_bad pg None s
                            | Some (msz, sp) \<Rightarrow> commit_image path pg msz (e_entry elf) sp s)))))))))"

text \<open>
  \<^verbatim>\<open>exec\<close> first removes the other threads of the process. As long as some are left the caller gives up the
  processor inside \<^verbatim>\<open>kill_other_threads\<close>.
\<close>

definition exec :: "byte list \<Rightarrow> byte list list \<Rightarrow> 'z cons_st_scheme \<Rightarrow> (int, 'z cons_st_scheme) res" where
  "exec path argv s =
     rbind (on_ps (kill_other_threads False (fst (me s)) (snd (me s))) s) (\<lambda>r s.
       case r of Done _ \<Rightarrow> exec_body path argv s | Gap q \<Rightarrow> off_cpu q s | Off q \<Rightarrow> off_cpu q s)"

end
