(* ===== verification/Sysfile.thy ===== *)
theory Sysfile
  imports Exec
begin

section \<open>File system calls (sysfile.c)\<close>

text \<open>
  The handlers of the system calls on files. Each fetches its arguments from the user stack and then
  follows the code branch by branch, with every transaction closed on every path. The data of a
  \<^verbatim>\<open>write\<close> is read from user memory when the arguments have been checked, that of a \<^verbatim>\<open>read\<close> is copied
  out when the file routine has returned it.
\<close>

abbreviation (input) NOFILE :: nat where "NOFILE \<equiv> 16"
abbreviation (input) O_RDONLY :: "32 word" where "O_RDONLY \<equiv> 0"
abbreviation (input) O_WRONLY :: "32 word" where "O_WRONLY \<equiv> 1"
abbreviation (input) O_RDWR :: "32 word" where "O_RDWR \<equiv> 2"
abbreviation (input) O_CREATE :: "32 word" where "O_CREATE \<equiv> 0x200"

subsection \<open>Descriptors\<close>

definition argfd :: "nat \<Rightarrow> 'z file_st_scheme \<Rightarrow> ((nat \<times> nat) option, 'z file_st_scheme) res" where
  "argfd n s =
     rbind (argint n s) (\<lambda>r s.
       case r of
         None \<Rightarrow> Ret None s
       | Some w \<Rightarrow>
           let fd = sint w
           in if fd < 0 \<or> fd \<ge> int NOFILE then Ret None s
              else Ret (map_option (Pair (nat fd)) (ofile (curproc s) (nat fd))) s)"

definition set_ofile :: "nat \<Rightarrow> nat option \<Rightarrow> 'z bio_st_scheme \<Rightarrow> 'z bio_st_scheme" where
  "set_ofile fd f s = upd_curproc (\<lambda>p. p\<lparr>ofile := (ofile p)(fd := f)\<rparr>) s"

definition fdalloc :: "nat \<Rightarrow> 'z bio_st_scheme \<Rightarrow> int \<times> 'z bio_st_scheme" where
  "fdalloc f s =
     (case first_from (\<lambda>fd. ofile (curproc s) fd = None) 0 NOFILE of
        Some fd \<Rightarrow> (int fd, set_ofile fd (Some f) s)
      | None \<Rightarrow> (-1, s))"

definition sys_dup :: "'z file_st_scheme \<Rightarrow> (int, 'z file_st_scheme) res" where
  "sys_dup s =
     with_arg (argfd 0 s) (\<lambda>(_, f) s.
       let (fd, s) = fdalloc f s
       in if fd < 0 then Ret (-1) s else rbind (filedup f s) (\<lambda>_ s. Ret fd s))"

definition sys_read :: "'z file_st_scheme \<Rightarrow> (int, 'z file_st_scheme) res" where
  "sys_read s =
     with_arg (argfd 0 s) (\<lambda>(_, f) s.
     with_arg (argint 2 s) (\<lambda>n s.
     with_arg (argptr 1 (sint n) s) (\<lambda>p s.
       rbind (fileread f (sint n) s) (\<lambda>(r, bs) s.
       rbind (ustore_bytes p bs s) (\<lambda>_ s. Ret r s)))))"

definition sys_write :: "'z file_st_scheme \<Rightarrow> (int, 'z file_st_scheme) res" where
  "sys_write s =
     with_arg (argfd 0 s) (\<lambda>(_, f) s.
     with_arg (argint 2 s) (\<lambda>n s.
     with_arg (argptr 1 (sint n) s) (\<lambda>p s.
       rbind (uload_bytes p (unat n) s) (\<lambda>bs s. filewrite f bs s))))"

definition sys_close :: "'z file_st_scheme \<Rightarrow> (int, 'z file_st_scheme) res" where
  "sys_close s =
     with_arg (argfd 0 s) (\<lambda>(fd, f) s.
       rbind (fileclose f (set_ofile fd None s)) (\<lambda>_ s. Ret 0 s))"

text \<open>\<^verbatim>\<open>struct stat\<close> in user memory: the padding after the two short fields is not written.\<close>

definition ustore_stat :: "addr \<Rightarrow> stat \<Rightarrow> 'z bio_st_scheme \<Rightarrow> (unit, 'z bio_st_scheme) res" where
  "ustore_stat p st s =
     rbind (ustore_bytes (p + 4) (bytes32 (st_dev st)) s) (\<lambda>_ s.
     rbind (ustore_bytes (p + 8) (bytes32 (st_ino st)) s) (\<lambda>_ s.
     rbind (ustore_bytes p (take 2 (bytes32 (ucast (st_type st)))) s) (\<lambda>_ s.
     rbind (ustore_bytes (p + 12) (take 2 (bytes32 (ucast (st_nlink st)))) s) (\<lambda>_ s.
       ustore_bytes (p + 16) (bytes32 (st_size st)) s))))"

definition sys_fstat :: "'z file_st_scheme \<Rightarrow> (int, 'z file_st_scheme) res" where
  "sys_fstat s =
     with_arg (argfd 0 s) (\<lambda>(_, f) s.
     with_arg (argptr 1 20 s) (\<lambda>p s.
       rbind (filestat f s) (\<lambda>r s.
         case r of
           None \<Rightarrow> Ret (-1) s
         | Some st \<Rightarrow> rbind (ustore_stat p st s) (\<lambda>_ s. Ret 0 s))))"

subsection \<open>Links\<close>

text \<open>Leaving a handler through the end of its transaction.\<close>

definition end_with :: "int \<Rightarrow> 'z log_st_scheme \<Rightarrow> (int, 'z log_st_scheme) res" where
  "end_with r s = rbind (end_op s) (\<lambda>_ s. Ret r s)"

definition put_end :: "nat \<Rightarrow> int \<Rightarrow> 'z fs_st_scheme \<Rightarrow> (int, 'z fs_st_scheme) res" where
  "put_end ip r s = rbind (iunlockput ip s) (\<lambda>_ s. end_with r s)"

definition add_nlink :: "nat \<Rightarrow> 16 word \<Rightarrow> 'z fs_st_scheme \<Rightarrow> (unit, 'z fs_st_scheme) res" where
  "add_nlink ip d s = iupdate ip (upd_inode ip (\<lambda>x. x\<lparr>nlink := nlink x + d\<rparr>) s)"

text \<open>The label \<^verbatim>\<open>bad\<close> of \<^verbatim>\<open>sys_link\<close>.\<close>

definition link_bad :: "nat \<Rightarrow> 'z fs_st_scheme \<Rightarrow> (int, 'z fs_st_scheme) res" where
  "link_bad ip s =
     rbind (ilock ip s) (\<lambda>_ s.
     rbind (add_nlink ip (-1) s) (\<lambda>_ s. put_end ip (-1) s))"

definition sys_link :: "'z file_st_scheme \<Rightarrow> (int, 'z file_st_scheme) res" where
  "sys_link s =
     with_arg (argstr 0 s) (\<lambda>old s.
     with_arg (argstr 1 s) (\<lambda>new s.
     rbind (begin_op s) (\<lambda>_ s.
     rbind (namei old s) (\<lambda>r s.
       case r of
         None \<Rightarrow> end_with (-1) s
       | Some ip \<Rightarrow>
           rbind (ilock ip s) (\<lambda>_ s.
             if itype (icache s ip) = T_DIR then put_end ip (-1) s
             else
               rbind (add_nlink ip 1 s) (\<lambda>_ s.
               rbind (iunlock ip s) (\<lambda>_ s.
               rbind (nameiparent new s) (\<lambda>r s.
                 case r of
                   None \<Rightarrow> link_bad ip s
                 | Some (dp, nm) \<Rightarrow>
                     rbind (ilock dp s) (\<lambda>_ s.
                     rbind (if idev (icache s dp) \<noteq> idev (icache s ip) then Ret (-1) s
                            else dirlink dp nm (inum (icache s ip)) s) (\<lambda>r s.
                       if r < 0 then rbind (iunlockput dp s) (\<lambda>_ s. link_bad ip s)
                       else
                         rbind (iunlockput dp s) (\<lambda>_ s.
                         rbind (iput ip s) (\<lambda>_ s. end_with 0 s))))))))))))"

fun isdirempty_from :: "nat \<Rightarrow> nat list \<Rightarrow> 'z cons_st_scheme \<Rightarrow> (bool, 'z cons_st_scheme) res" where
  "isdirempty_from dp [] s = Ret True s"
| "isdirempty_from dp (off # offs) s =
     rbind (readi (devsw_read s) dp (of_nat off) 16 s) (\<lambda>(m, bs) s.
       if m \<noteq> 16 then Panic ''isdirempty: readi''
       else if de_inum (dirent_of bs) \<noteq> 0 then Ret False s
       else isdirempty_from dp offs s)"

definition isdirempty :: "nat \<Rightarrow> 'z cons_st_scheme \<Rightarrow> (bool, 'z cons_st_scheme) res" where
  "isdirempty dp s = isdirempty_from dp (drop 2 (dir_offs (isize (icache s dp)))) s"

text \<open>\<^verbatim>\<open>sys_unlink\<close> once the entry and its inode are at hand and both are locked.\<close>

definition unlink_entry :: "nat \<Rightarrow> nat \<Rightarrow> nat \<Rightarrow> 'z file_st_scheme \<Rightarrow> (int, 'z file_st_scheme) res" where
  "unlink_entry dp ip off s =
     rbind (writei (devsw_write s) dp (replicate 16 0) (of_nat off) s) (\<lambda>m s.
       if m \<noteq> 16 then Panic ''unlink: writei''
       else
         rbind (if itype (icache s ip) = T_DIR then add_nlink dp (-1) s else Ret () s) (\<lambda>_ s.
         rbind (iunlockput dp s) (\<lambda>_ s.
         rbind (add_nlink ip (-1) s) (\<lambda>_ s. put_end ip 0 s))))"

definition sys_unlink :: "'z file_st_scheme \<Rightarrow> (int, 'z file_st_scheme) res" where
  "sys_unlink s =
     with_arg (argstr 0 s) (\<lambda>path s.
     rbind (begin_op s) (\<lambda>_ s.
     rbind (nameiparent path s) (\<lambda>r s.
       case r of
         None \<Rightarrow> end_with (-1) s
       | Some (dp, nm) \<Rightarrow>
           rbind (ilock dp s) (\<lambda>_ s.
             if namecmp nm [46] = 0 \<or> namecmp nm [46, 46] = 0 then put_end dp (-1) s
             else rbind (dirlookup dp nm s) (\<lambda>r s.
               case r of
                 None \<Rightarrow> put_end dp (-1) s
               | Some (ip, off) \<Rightarrow>
                   rbind (ilock ip s) (\<lambda>_ s.
                     if sint (nlink (icache s ip)) < 1 then Panic ''unlink: nlink < 1''
                     else rbind (if itype (icache s ip) = T_DIR then isdirempty ip s else Ret True s) (\<lambda>e s.
                       if \<not> e then rbind (iunlockput ip s) (\<lambda>_ s. put_end dp (-1) s)
                       else unlink_entry dp ip off s)))))))"

subsection \<open>Creating and opening\<close>

text \<open>The new inode is returned locked, as by the code.\<close>

definition create_new :: "nat \<Rightarrow> byte list \<Rightarrow> 16 word \<Rightarrow> 16 word \<Rightarrow> 16 word \<Rightarrow> 'z fs_st_scheme \<Rightarrow> (nat option, 'z fs_st_scheme) res" where
  "create_new dp nm t mj mn s =
     rbind (ialloc (idev (icache s dp)) t s) (\<lambda>ip s.
     rbind (ilock ip s) (\<lambda>_ s.
     rbind (iupdate ip (upd_inode ip (\<lambda>x. x\<lparr>major := mj, minor := mn, nlink := 1\<rparr>) s)) (\<lambda>_ s.
     rbind (if t = T_DIR
            then rbind (add_nlink dp 1 s) (\<lambda>_ s.
                 rbind (dirlink ip [46] (inum (icache s ip)) s) (\<lambda>r s.
                   if r < 0 then Panic ''create dots''
                   else rbind (dirlink ip [46, 46] (inum (icache s dp)) s) (\<lambda>r s.
                     if r < 0 then Panic ''create dots'' else Ret () s)))
            else Ret () s) (\<lambda>_ s.
     rbind (dirlink dp nm (inum (icache s ip)) s) (\<lambda>r s.
       if r < 0 then Panic ''create: dirlink''
       else rbind (iunlockput dp s) (\<lambda>_ s. Ret (Some ip) s))))))"

definition create :: "byte list \<Rightarrow> 16 word \<Rightarrow> 16 word \<Rightarrow> 16 word \<Rightarrow> 'z fs_st_scheme \<Rightarrow> (nat option, 'z fs_st_scheme) res" where
  "create path t mj mn s =
     rbind (nameiparent path s) (\<lambda>r s.
       case r of
         None \<Rightarrow> Ret None s
       | Some (dp, nm) \<Rightarrow>
           rbind (ilock dp s) (\<lambda>_ s.
           rbind (dirlookup dp nm s) (\<lambda>r s.
             case r of
               Some (ip, _) \<Rightarrow>
                 rbind (iunlockput dp s) (\<lambda>_ s.
                 rbind (ilock ip s) (\<lambda>_ s.
                   if t = T_FILE \<and> itype (icache s ip) = T_FILE then Ret (Some ip) s
                   else rbind (iunlockput ip s) (\<lambda>_ s. Ret None s)))
             | None \<Rightarrow> create_new dp nm t mj mn s)))"

text \<open>\<^verbatim>\<open>sys_open\<close> up to the locked inode, and from there on.\<close>

definition open_inode :: "byte list \<Rightarrow> 32 word \<Rightarrow> 'z fs_st_scheme \<Rightarrow> (nat option, 'z fs_st_scheme) res" where
  "open_inode path omode s =
     (if omode AND O_CREATE \<noteq> 0 then create path T_FILE 0 0 s
      else rbind (namei path s) (\<lambda>r s.
        case r of
          None \<Rightarrow> Ret None s
        | Some ip \<Rightarrow>
            rbind (ilock ip s) (\<lambda>_ s.
              if itype (icache s ip) = T_DIR \<and> omode \<noteq> O_RDONLY
              then rbind (iunlockput ip s) (\<lambda>_ s. Ret None s)
              else Ret (Some ip) s)))"

definition open_file :: "nat \<Rightarrow> 32 word \<Rightarrow> 'z file_st_scheme \<Rightarrow> (int, 'z file_st_scheme) res" where
  "open_file ip omode s =
     (let (f, s) = filealloc s
      in case f of
           None \<Rightarrow> put_end ip (-1) s
         | Some f \<Rightarrow>
             let (fd, s) = fdalloc f s
             in if fd < 0 then rbind (fileclose f s) (\<lambda>_ s. put_end ip (-1) s)
                else
                  rbind (iunlock ip s) (\<lambda>_ s.
                  rbind (end_op s) (\<lambda>_ s.
                    Ret fd (upd_file f (\<lambda>x. x\<lparr>ftype := FD_INODE, fip := ip, foff := 0,
                      readable := (omode AND O_WRONLY = 0),
                      writable := (omode AND O_WRONLY \<noteq> 0 \<or> omode AND O_RDWR \<noteq> 0)\<rparr>) s))))"

definition sys_open :: "'z file_st_scheme \<Rightarrow> (int, 'z file_st_scheme) res" where
  "sys_open s =
     with_arg (argstr 0 s) (\<lambda>path s.
     with_arg (argint 1 s) (\<lambda>omode s.
     rbind (begin_op s) (\<lambda>_ s.
     rbind (open_inode path omode s) (\<lambda>r s.
       case r of None \<Rightarrow> end_with (-1) s | Some ip \<Rightarrow> open_file ip omode s))))"

text \<open>The end of \<^verbatim>\<open>sys_mkdir\<close> and \<^verbatim>\<open>sys_mknod\<close>.\<close>

definition made :: "(nat option, 'z fs_st_scheme) res \<Rightarrow> (int, 'z fs_st_scheme) res" where
  "made m = rbind m (\<lambda>r s. case r of None \<Rightarrow> end_with (-1) s | Some ip \<Rightarrow> put_end ip 0 s)"

definition sys_mkdir :: "'z file_st_scheme \<Rightarrow> (int, 'z file_st_scheme) res" where
  "sys_mkdir s =
     rbind (begin_op s) (\<lambda>_ s.
     rbind (argstr 0 s) (\<lambda>r s.
       case r of None \<Rightarrow> end_with (-1) s | Some path \<Rightarrow> made (create path T_DIR 0 0 s)))"

definition sys_mknod :: "'z file_st_scheme \<Rightarrow> (int, 'z file_st_scheme) res" where
  "sys_mknod s =
     rbind (begin_op s) (\<lambda>_ s.
     rbind (argstr 0 s) (\<lambda>p s. case p of None \<Rightarrow> end_with (-1) s | Some path \<Rightarrow>
     rbind (argint 1 s) (\<lambda>a s. case a of None \<Rightarrow> end_with (-1) s | Some mj \<Rightarrow>
     rbind (argint 2 s) (\<lambda>b s. case b of None \<Rightarrow> end_with (-1) s | Some mn \<Rightarrow>
       made (create path T_DEV (ucast mj) (ucast mn) s)))))"

definition sys_chdir :: "'z file_st_scheme \<Rightarrow> (int, 'z file_st_scheme) res" where
  "sys_chdir s =
     rbind (begin_op s) (\<lambda>_ s.
     rbind (argstr 0 s) (\<lambda>p s. case p of None \<Rightarrow> end_with (-1) s | Some path \<Rightarrow>
     rbind (namei path s) (\<lambda>r s. case r of None \<Rightarrow> end_with (-1) s | Some ip \<Rightarrow>
     rbind (ilock ip s) (\<lambda>_ s.
       if itype (icache s ip) \<noteq> T_DIR then put_end ip (-1) s
       else
         rbind (iunlock ip s) (\<lambda>_ s.
         rbind (case cwd (curproc s) of None \<Rightarrow> Panic ''null pointer'' | Some old \<Rightarrow> iput old s) (\<lambda>_ s.
         rbind (end_op s) (\<lambda>_ s.
           Ret 0 (upd_curproc (\<lambda>p. p\<lparr>cwd := Some ip\<rparr>) s))))))))"

subsection \<open>exec and pipe\<close>

text \<open>The argument vector, with \<open>n\<close> places left in \<^verbatim>\<open>argv\<close>.\<close>

fun fetch_argv :: "nat \<Rightarrow> addr \<Rightarrow> 'z bio_st_scheme \<Rightarrow> (byte list list option, 'z bio_st_scheme) res" where
  "fetch_argv 0 a s = Ret None s"
| "fetch_argv (Suc n) a s =
     rbind (fetchint a s) (\<lambda>r s. case r of None \<Rightarrow> Ret None s | Some u \<Rightarrow>
       if u = 0 then Ret (Some []) s
       else rbind (fetchstr u s) (\<lambda>q s. case q of None \<Rightarrow> Ret None s | Some x \<Rightarrow>
         rbind (fetch_argv n (a + 4) s) (\<lambda>xs s. Ret (map_option ((#) x) xs) s)))"

definition sys_exec :: "'z file_st_scheme \<Rightarrow> (int, 'z file_st_scheme) res" where
  "sys_exec s =
     with_arg (argstr 0 s) (\<lambda>path s.
     with_arg (argint 1 s) (\<lambda>uargv s.
     with_arg (fetch_argv MAXARG uargv s) (\<lambda>argv s. exec path argv s)))"

definition sys_pipe :: "'z file_st_scheme \<Rightarrow> (int, 'z file_st_scheme) res" where
  "sys_pipe s =
     with_arg (argptr 0 8 s) (\<lambda>p s.
     with_arg (pipealloc s) (\<lambda>(rf, wf) s.
       let (fd0, s) = fdalloc rf s;
           (fd1, s) = (if fd0 < 0 then (-1, s) else fdalloc wf s)
       in if fd0 < 0 \<or> fd1 < 0
          then let s = (if fd0 \<ge> 0 then set_ofile (nat fd0) None s else s)
               in rbind (fileclose rf s) (\<lambda>_ s. rbind (fileclose wf s) (\<lambda>_ s. Ret (-1) s))
          else
            rbind (ustore_bytes p (bytes32 (word_of_int fd0)) s) (\<lambda>_ s.
            rbind (ustore_bytes (p + 4) (bytes32 (word_of_int fd1)) s) (\<lambda>_ s. Ret 0 s))))"

end
