(* ===== verification/Trap.thy ===== *)
theory Trap
  imports Sysfile
begin

section \<open>System calls and traps (sysproc.c, syscall.c, trap.c)\<close>

text \<open>
  The remaining system calls, their dispatch, and the trap handler. The routines of \<^verbatim>\<open>proc.c\<close> that also
  touch files, \<^verbatim>\<open>fork\<close>, \<^verbatim>\<open>safe_exit\<close> and \<^verbatim>\<open>forkret\<close>, are completed here over the state that has the file
  table. A call that does not return because its thread has given up the processor ends in \<open>Block\<close>; the
  thread's field \<open>tpc\<close> says where it goes on.
\<close>

record trap_st = file_st +
  ticks :: "32 word"
  first_time :: bool

subsection \<open>Calls into proc.c\<close>

abbreviation (input) on_me :: "(nat \<Rightarrow> nat \<Rightarrow> proc_st \<Rightarrow> ('a, proc_st) res) \<Rightarrow> 'z bio_st_scheme \<Rightarrow> ('a, 'z bio_st_scheme) res" where
  "on_me f s \<equiv> on_ps (f (fst (me s)) (snd (me s))) s"

abbreviation (input) total :: "(nat \<Rightarrow> nat \<Rightarrow> proc_st \<Rightarrow> 'a \<times> proc_st) \<Rightarrow> nat \<Rightarrow> nat \<Rightarrow> proc_st \<Rightarrow> ('a, proc_st) res" where
  "total f i j s \<equiv> (let (r, s) = f i j s in Ret r s)"

text \<open>The open files and the directory of the child are counted.\<close>

definition dup_files :: "nat \<Rightarrow> 'z file_st_scheme \<Rightarrow> (unit, 'z file_st_scheme) res" where
  "dup_files p s =
     rbind (for_each (\<lambda>fd s.
         case ofile (ptable (ps s) p) fd of
           None \<Rightarrow> Ret () s
         | Some f \<Rightarrow> rbind (filedup f s) (\<lambda>_ s. Ret () s)) [0..<NOFILE] s) (\<lambda>_ s.
       case cwd (ptable (ps s) p) of
         None \<Rightarrow> Panic ''null pointer''
       | Some ip \<Rightarrow> rbind (idup ip s) (\<lambda>_ s. Ret () s))"

definition sys_fork :: "'z file_st_scheme \<Rightarrow> (int, 'z file_st_scheme) res" where
  "sys_fork s =
     rbind (on_me fork s) (\<lambda>(r, c) s.
       case c of
         None \<Rightarrow> Ret r s
       | Some _ \<Rightarrow> rbind (dup_files (fst (me s)) s) (\<lambda>_ s. Ret r s))"

text \<open>\<^verbatim>\<open>safe_exit\<close>: files and directory first, then the part under \<^verbatim>\<open>ptable.lock\<close>.\<close>

definition close_files :: "'z file_st_scheme \<Rightarrow> (unit, 'z file_st_scheme) res" where
  "close_files s =
     for_each (\<lambda>fd s.
       case ofile (curproc s) fd of
         None \<Rightarrow> Ret () s
       | Some f \<Rightarrow> rbind (fileclose f s) (\<lambda>_ s. Ret () (set_ofile fd None s))) [0..<NOFILE] s"

definition safe_exit :: "'z file_st_scheme \<Rightarrow> ('a, 'z file_st_scheme) res" where
  "safe_exit s =
     (if initproc (ps s) = Some (fst (me s)) then Panic ''init exiting''
      else
        rbind (close_files s) (\<lambda>_ s.
        rbind (begin_op s) (\<lambda>_ s.
        rbind (case cwd (curproc s) of None \<Rightarrow> Panic ''null pointer'' | Some ip \<Rightarrow> iput ip s) (\<lambda>_ s.
        rbind (end_op s) (\<lambda>_ s.
        rbind (on_me (total safe_exit_tail) (upd_curproc (\<lambda>p. p\<lparr>cwd := None\<rparr>) s)) (\<lambda>_ s.
          off_cpu Dead s))))))"

definition exit_call :: "'z file_st_scheme \<Rightarrow> ('a, 'z file_st_scheme) res" where
  "exit_call s =
     rbind (on_me exit s) (\<lambda>r s.
       case r of
         Off q \<Rightarrow> off_cpu q s
       | _ \<Rightarrow> safe_exit s)"

definition kthread_exit_call :: "'z file_st_scheme \<Rightarrow> ('a, 'z file_st_scheme) res" where
  "kthread_exit_call s =
     rbind (on_me (total kthread_exit) s) (\<lambda>r s.
       case r of
         Off q \<Rightarrow> off_cpu q s
       | _ \<Rightarrow> exit_call s)"

text \<open>
  The other calls either return, give up the processor, or, for \<^verbatim>\<open>kthread_mutex_unlock\<close>, go on without the
  lock to wake the threads that wait for the mutex.
\<close>

definition outcome :: "kout \<Rightarrow> 'z bio_st_scheme \<Rightarrow> (int, 'z bio_st_scheme) res" where
  "outcome r s =
     (case r of
        Done v \<Rightarrow> Ret v s
      | Gap (UnlockWakeup m) \<Rightarrow> Ret 0 (wakeup_b (MutexChan m) s)
      | Gap q \<Rightarrow> off_cpu q s
      | Off q \<Rightarrow> off_cpu q s)"

definition forkret :: "'z trap_st_scheme \<Rightarrow> (unit, 'z trap_st_scheme) res" where
  "forkret s =
     (if first_time s
      then rbind (iinit 1 (s\<lparr>first_time := False\<rparr>)) (\<lambda>_ s. initlog 1 s)
      else Ret () s)"

subsection \<open>sysproc.c\<close>

definition sys_exit :: "'z file_st_scheme \<Rightarrow> (int, 'z file_st_scheme) res" where
  "sys_exit s = exit_call s"

definition sys_wait :: "'z file_st_scheme \<Rightarrow> (int, 'z file_st_scheme) res" where
  "sys_wait s = rbind (on_me wait s) outcome"

definition sys_kill :: "'z file_st_scheme \<Rightarrow> (int, 'z file_st_scheme) res" where
  "sys_kill s =
     with_arg (argint 0 s) (\<lambda>p s. on_ps (\<lambda>k. let (r, k) = kill (sint p) k in Ret r k) s)"

definition sys_getpid :: "'z file_st_scheme \<Rightarrow> (int, 'z file_st_scheme) res" where
  "sys_getpid s = Ret (pid (curproc s)) s"

definition sys_sbrk :: "'z file_st_scheme \<Rightarrow> (int, 'z file_st_scheme) res" where
  "sys_sbrk s =
     with_arg (argint 0 s) (\<lambda>n s.
       let a = sint (sz (curproc s))
       in rbind (on_me (\<lambda>i j. growproc i j (sint n)) s) (\<lambda>r s. Ret (if r < 0 then -1 else a) s))"

text \<open>
  The loop of \<^verbatim>\<open>sys_sleep\<close>, entered again with the same \<open>ticks0\<close> after every wakeup. The comparison is one
  of unsigned numbers, since \<^verbatim>\<open>ticks\<close> is unsigned.
\<close>

definition sleep_loop :: "32 word \<Rightarrow> 32 word \<Rightarrow> 'z trap_st_scheme \<Rightarrow> (int, 'z trap_st_scheme) res" where
  "sleep_loop ticks0 n s =
     (if ticks s - ticks0 < n
      then if proc_killed s then Ret (-1) s else sleep_b TicksChan s
      else Ret 0 s)"

definition sys_sleep :: "'z trap_st_scheme \<Rightarrow> (int, 'z trap_st_scheme) res" where
  "sys_sleep s = with_arg (argint 0 s) (\<lambda>n s. sleep_loop (ticks s) n s)"

definition sys_uptime :: "'z trap_st_scheme \<Rightarrow> (int, 'z trap_st_scheme) res" where
  "sys_uptime s = Ret (sint (ticks s)) s"

definition sys_kthread_create :: "'z file_st_scheme \<Rightarrow> (int, 'z file_st_scheme) res" where
  "sys_kthread_create s =
     with_arg (argptr 0 4 s) (\<lambda>start_func s.
     with_arg (argptr 1 4 s) (\<lambda>stack s.
       on_me (total (\<lambda>i j. kthread_create i j start_func stack)) s))"

definition sys_kthread_id :: "'z file_st_scheme \<Rightarrow> (int, 'z file_st_scheme) res" where
  "sys_kthread_id s = Ret (kthread_id (Some (me s)) (ps s)) s"

definition sys_kthread_exit :: "'z file_st_scheme \<Rightarrow> (int, 'z file_st_scheme) res" where
  "sys_kthread_exit s = kthread_exit_call s"

definition sys_kthread_join :: "'z file_st_scheme \<Rightarrow> (int, 'z file_st_scheme) res" where
  "sys_kthread_join s =
     with_arg (argint 0 s) (\<lambda>n s. rbind (on_me (\<lambda>i j. kthread_join i j (sint n)) s) outcome)"

definition sys_kthread_mutex_alloc :: "'z file_st_scheme \<Rightarrow> (int, 'z file_st_scheme) res" where
  "sys_kthread_mutex_alloc s = on_me (total kthread_mutex_alloc) s"

definition sys_kthread_mutex_dealloc :: "'z file_st_scheme \<Rightarrow> (int, 'z file_st_scheme) res" where
  "sys_kthread_mutex_dealloc s =
     with_arg (argint 0 s) (\<lambda>n s. on_me (total (\<lambda>i j. kthread_mutex_dealloc i j (sint n))) s)"

definition sys_kthread_mutex_lock :: "'z file_st_scheme \<Rightarrow> (int, 'z file_st_scheme) res" where
  "sys_kthread_mutex_lock s =
     with_arg (argint 0 s) (\<lambda>n s.
       rbind (on_me (total (\<lambda>i j. kthread_mutex_lock i j (sint n))) s) outcome)"

definition sys_kthread_mutex_unlock :: "'z file_st_scheme \<Rightarrow> (int, 'z file_st_scheme) res" where
  "sys_kthread_mutex_unlock s =
     with_arg (argint 0 s) (\<lambda>n s. rbind (on_me (\<lambda>i j. kthread_mutex_unlock i j (sint n)) s) outcome)"

subsection \<open>Dispatch\<close>

definition syscalls :: "int \<Rightarrow> ('z trap_st_scheme \<Rightarrow> (int, 'z trap_st_scheme) res) option" where
  "syscalls num = map_of
     [(1, sys_fork), (2, sys_exit), (3, sys_wait), (4, sys_pipe), (5, sys_read), (6, sys_kill),
      (7, sys_exec), (8, sys_fstat), (9, sys_chdir), (10, sys_dup), (11, sys_getpid), (12, sys_sbrk),
      (13, sys_sleep), (14, sys_uptime), (15, sys_open), (16, sys_write), (17, sys_mknod),
      (18, sys_unlink), (19, sys_link), (20, sys_mkdir), (21, sys_close), (22, sys_kthread_create),
      (23, sys_kthread_id), (24, sys_kthread_exit), (25, sys_kthread_join),
      (26, sys_kthread_mutex_alloc), (27, sys_kthread_mutex_dealloc), (28, sys_kthread_mutex_lock),
      (29, sys_kthread_mutex_unlock)] num"

definition tf_word :: "addr \<Rightarrow> 'z bio_st_scheme \<Rightarrow> 32 word" where
  "tf_word off s = load32 (mem (km (ps s))) (tf (curthread s) + off)"

definition set_eax :: "int \<Rightarrow> 'z bio_st_scheme \<Rightarrow> 'z bio_st_scheme" where
  "set_eax r s = s\<lparr>ps := upd_mem (\<lambda>m. store32 m (tf (curthread s) + TF_EAX) (word_of_int r)) (ps s)\<rparr>"

definition syscall :: "'z trap_st_scheme \<Rightarrow> (unit, 'z trap_st_scheme) res" where
  "syscall s =
     (let num = sint (tf_word TF_EAX s)
      in case syscalls num of
           Some f \<Rightarrow> rbind (f s) (\<lambda>r s. Ret () (set_eax r s))
         | None \<Rightarrow>
             rbind (cprintf (str ''%d %s: unknown sys call %d'' @ [10])
                      [Word (word_of_int (pid (curproc s))), Str (Some (name (curproc s))), Word (word_of_int num)] s)
               (\<lambda>_ s. Ret () (set_eax (-1) s)))"

subsection \<open>Control-P\<close>

definition state_name :: "procstate \<Rightarrow> byte list" where
  "state_name x =
     (case x of PUNUSED \<Rightarrow> str ''punused'' | PUSED \<Rightarrow> str ''pused'' | PZOMBIE \<Rightarrow> str ''pzombie'')"

text \<open>The saved frame pointer of a sleeping thread is the fourth word of its context.\<close>

definition procdump_thread :: "nat \<Rightarrow> nat \<Rightarrow> 'z cons_st_scheme \<Rightarrow> (unit, 'z cons_st_scheme) res" where
  "procdump_thread i j s =
     (let t = thr (ps s) i j; m = mem (km (ps s))
      in if tstate t = TSLEEPING
         then rbind (for_each (\<lambda>pc s. cprintf (str '' %p'') [Word pc] s)
                (takeWhile (\<lambda>pc. pc \<noteq> 0) (getcallerpcs m (load32 m (tcontext t + 12) + 8))) s) (\<lambda>_ s.
              cprintf [10] [] s)
         else Ret () s)"

definition procdump :: "'z cons_st_scheme \<Rightarrow> (unit, 'z cons_st_scheme) res" where
  "procdump s =
     for_each (\<lambda>i s.
       let p = ptable (ps s) i
       in if pstate p = PUNUSED then Ret () s
          else rbind (cprintf (str ''%d %s %s'')
                   [Word (word_of_int (pid p)), Str (Some (state_name (pstate p))), Str (Some (name p))] s) (\<lambda>_ s.
               for_each (\<lambda>j. procdump_thread i j) [0..<NTHREAD] s)) [0..<NPROC] s"

definition after_intr :: "(bool, 'z cons_st_scheme) res \<Rightarrow> (unit, 'z cons_st_scheme) res" where
  "after_intr m = rbind m (\<lambda>dump s. if dump then procdump s else Ret () s)"

subsection \<open>The trap handler\<close>

text \<open>
  What the hardware supplies with a trap: the processor, whether it was in the scheduler with no current
  process, the faulting address, and the bytes waiting in the keyboard controller and on the serial line.
\<close>

record hwin =
  cpuno :: nat
  idle :: bool
  cr2 :: addr
  kbd_in :: "byte list"
  uart_in :: "byte list"

abbreviation (input) TF_TRAPNO :: "32 word" where "TF_TRAPNO \<equiv> 48"
abbreviation (input) TF_ERR :: "32 word" where "TF_ERR \<equiv> 52"
abbreviation (input) T_SYSCALL :: "32 word" where "T_SYSCALL \<equiv> 64"
abbreviation (input) T_IRQ0 :: "32 word" where "T_IRQ0 \<equiv> 32"

text \<open>The checks before and after a system call.\<close>

definition die_if_killed :: "'z file_st_scheme \<Rightarrow> (unit, 'z file_st_scheme) res" where
  "die_if_killed s =
     (if tkilled (curthread s) then kthread_exit_call s
      else if killed (curproc s) then exit_call s
      else Ret () s)"

definition trap_syscall :: "addr \<Rightarrow> 'z trap_st_scheme \<Rightarrow> (unit, 'z trap_st_scheme) res" where
  "trap_syscall f s =
     rbind (die_if_killed s) (\<lambda>_ s.
       let s = s\<lparr>ps := upd_thread (fst (me s)) (snd (me s)) (\<lambda>t. t\<lparr>tf := f\<rparr>) (ps s)\<rparr>
       in rbind (syscall s) (\<lambda>_ s. die_if_killed s))"

text \<open>The \<^verbatim>\<open>switch\<close>; \<open>w\<close> reads a word of the trap frame.\<close>

definition trap_switch :: "hwin \<Rightarrow> addr \<Rightarrow> 'z trap_st_scheme \<Rightarrow> (unit, 'z trap_st_scheme) res" where
  "trap_switch h f s =
     (let w = (\<lambda>off. load32 (mem (km (ps s))) (f + off));
          trapno = w TF_TRAPNO;
          cs = w TF_CS AND 0xFFFF;
          cpu = Word (of_nat (cpuno h))
      in if trapno = T_IRQ0
         then Ret () (if cpuno h = 0 then wakeup_b TicksChan (s\<lparr>ticks := ticks s + 1\<rparr>) else s)
         else if trapno = T_IRQ0 + 14 then ideintr s
         else if trapno = T_IRQ0 + 15 then Ret () s
         else if trapno = T_IRQ0 + 1 then after_intr (kbdintr (kbd_in h) s)
         else if trapno = T_IRQ0 + 4 then after_intr (uartintr (uart_in h) s)
         else if trapno = T_IRQ0 + 7 \<or> trapno = T_IRQ0 + 31
         then cprintf (str ''cpu%d: spurious interrupt at %x:%x'' @ [10]) [cpu, Word cs, Word (w TF_EIP)] s
         else if idle h \<or> cs AND 3 = 0
         then rbind (cprintf (str ''unexpected trap %d from cpu %d eip %x (cr2=0x%x)'' @ [10])
                       [Word trapno, cpu, Word (w TF_EIP), Word (cr2 h)] s) (\<lambda>_ s. Panic ''trap'')
         else rbind (cprintf (str ''pid %d %s: trap %d err %d on cpu %d eip 0x%x addr 0x%x--kill proc'' @ [10])
                       [Word (word_of_int (pid (curproc s))), Str (Some (name (curproc s))), Word trapno,
                        Word (w TF_ERR), cpu, Word (w TF_EIP), Word (cr2 h)] s) (\<lambda>_ s.
                Ret () (upd_curproc (\<lambda>p. p\<lparr>killed := True\<rparr>) s)))"

text \<open>
  What follows the \<^verbatim>\<open>yield\<close>. The comment speaks of the process, the code tests the thread, and since \<^verbatim>\<open>exit\<close>
  does not return the call of \<^verbatim>\<open>kthread_exit\<close> is never reached.
\<close>

definition trap_tail :: "bool \<Rightarrow> 'z file_st_scheme \<Rightarrow> (unit, 'z file_st_scheme) res" where
  "trap_tail user s =
     rbind (if tkilled (curthread s) \<and> user then exit_call s else Ret () s) (\<lambda>_ s.
       if tkilled (curthread s) \<and> user then kthread_exit_call s else Ret () s)"

definition trap :: "hwin \<Rightarrow> addr \<Rightarrow> 'z trap_st_scheme \<Rightarrow> (unit, 'z trap_st_scheme) res" where
  "trap h f s =
     (let trapno = load32 (mem (km (ps s))) (f + TF_TRAPNO);
          user = (load32 (mem (km (ps s))) (f + TF_CS) AND 3 = 3)
      in if trapno = T_SYSCALL then trap_syscall f s
         else rbind (trap_switch h f s) (\<lambda>_ s.
           if idle h then Ret () s
           else
             rbind (if killed (curproc s) \<and> user then exit_call s else Ret () s) (\<lambda>_ s.
             rbind (if tkilled (curthread s) \<and> user then kthread_exit_call s else Ret () s) (\<lambda>_ s.
               if tstate (curthread s) = TRUNNING \<and> trapno = T_IRQ0
               then rbind (on_me (total yield) s) (\<lambda>_ s. off_cpu YieldAwake s)
               else trap_tail user s))))"

end
