(* ===== verification/Frames.thy ===== *)
theory Frames
  imports Trap
begin

section \<open>What the file system leaves alone\<close>

text \<open>
  The code of the buffer cache, the log and the file system works on its own tables and wakes threads; it
  touches nothing else. The locale \<open>fs_frame\<close> states this for any part \<open>p\<close> of the state that does not
  depend on those tables, and has one lemma per operation. Interpreted on the number of running
  transactions it gives that every system call closes the transaction it opens; interpreted on the open
  files and on the image of the process it gives that the file system cannot disturb them, and with it
  that a failing \<^verbatim>\<open>exec\<close> changes nothing.
\<close>

locale fs_frame =
  fixes p :: "'z fs_st_scheme \<Rightarrow> 'x"
  assumes p_bufs [simp]: "p (s\<lparr>bufs := a\<rparr>) = p s"
    and p_bnext [simp]: "p (s\<lparr>bnext := b\<rparr>) = p s"
    and p_bprev [simp]: "p (s\<lparr>bprev := b\<rparr>) = p s"
    and p_idequeue [simp]: "p (s\<lparr>idequeue := c\<rparr>) = p s"
    and p_disk [simp]: "p (s\<lparr>disk := d\<rparr>) = p s"
    and p_writes [simp]: "p (s\<lparr>writes := e\<rparr>) = p s"
    and p_committing [simp]: "p (s\<lparr>committing := f\<rparr>) = p s"
    and p_lh_n [simp]: "p (s\<lparr>lh_n := g\<rparr>) = p s"
    and p_lh_block [simp]: "p (s\<lparr>lh_block := h\<rparr>) = p s"
    and p_sb [simp]: "p (s\<lparr>sb := i\<rparr>) = p s"
    and p_icache [simp]: "p (s\<lparr>icache := j\<rparr>) = p s"
    and p_wakeup [simp]: "p (wakeup_b k s) = p s"
begin

lemma p_upd [simp]: "p (upd_buf b g s) = p s" "p (upd_inode i h s) = p s"
  by (simp_all add: upd_buf_def upd_inode_def)

lemma p_link [simp]: "p (link_front b s) = p s" "p (unlink_buf b s) = p s" "p (releasesleep b s) = p s"
    "p (releasesleep_i i s) = p s"
  by (simp_all add: link_front_def unlink_buf_def releasesleep_def releasesleep_i_def Let_def)

lemma k_acquiresleep [keep]: "p s = x \<Longrightarrow> keeps p x (acquiresleep b s)" "p s = x \<Longrightarrow> keeps p x (acquiresleep_i i s)"
  by (simp_all add: acquiresleep_def acquiresleep_i_def sleep_b_def keep)

lemma k_idestart [keep]: "p s = x \<Longrightarrow> keeps p x (idestart b s)"
  unfolding idestart_def by (intro keep) simp_all

lemma k_ideintr [keep]: "p s = x \<Longrightarrow> keeps p x (ideintr s)"
  unfolding ideintr_def by (intro keep) (simp_all split: if_splits)

lemma k_ide_serve [keep]: "p s = x \<Longrightarrow> keeps p x (ide_serve n s)"
  by (induction n arbitrary: s) (auto intro!: keep)

lemma k_iderw [keep]: "p s = x \<Longrightarrow> keeps p x (iderw b s)"
  unfolding iderw_def by (intro keep) simp_all

lemma k_bget [keep]: "p s = x \<Longrightarrow> keeps p x (bget d n s)"
  unfolding bget_def by (intro keep) simp_all

lemma k_bread [keep]: "p s = x \<Longrightarrow> keeps p x (bread d n s)"
  unfolding bread_def by (intro keep) simp_all

lemma k_bwrite [keep]: "p s = x \<Longrightarrow> keeps p x (bwrite b s)"
  unfolding bwrite_def by (intro keep) simp_all

lemma k_brelse [keep]: "p s = x \<Longrightarrow> keeps p x (brelse b s)"
  unfolding brelse_def by (intro keep) simp_all

lemma k_readsb [keep]: "p s = x \<Longrightarrow> keeps p x (readsb d s)"
  unfolding readsb_def by (intro keep) simp_all

lemma k_log_write [keep]: "p s = x \<Longrightarrow> keeps p x (log_write b s)"
  unfolding log_write_def by (intro keep) (simp_all split: if_splits)

lemma k_write_head [keep]: "p s = x \<Longrightarrow> keeps p x (write_head s)"
  unfolding write_head_def by (intro keep) simp_all

lemma k_commit [keep]: "p s = x \<Longrightarrow> keeps p x (commit s)"
  unfolding commit_def write_log_def write_one_def install_trans_def install_one_def by (intro keep) simp_all

lemma k_bzero [keep]: "p s = x \<Longrightarrow> keeps p x (bzero d n s)"
  unfolding bzero_def by (intro keep) simp_all

lemma k_balloc_from [keep]: "p s = x \<Longrightarrow> keeps p x (balloc_from d bs s)"
  by (induction bs arbitrary: s) (auto intro!: keep)

lemma k_balloc [keep]: "p s = x \<Longrightarrow> keeps p x (balloc d s)"
  unfolding balloc_def by (intro keep) simp_all

lemma k_bfree [keep]: "p s = x \<Longrightarrow> keeps p x (bfree d b s)"
  unfolding bfree_def by (intro keep) simp_all

lemma k_iget [keep]: "p s = x \<Longrightarrow> keeps p x (iget d i s)"
  unfolding iget_def by (intro keep) simp_all

lemma k_ialloc_from [keep]: "p s = x \<Longrightarrow> keeps p x (ialloc_from d t is s)"
  by (induction "is" arbitrary: s) (auto intro!: keep)

lemma k_ialloc [keep]: "p s = x \<Longrightarrow> keeps p x (ialloc d t s)"
  unfolding ialloc_def by (intro keep) simp_all

lemma k_iupdate [keep]: "p s = x \<Longrightarrow> keeps p x (iupdate ip s)"
  unfolding iupdate_def by (intro keep) simp_all

lemma k_idup [keep]: "p s = x \<Longrightarrow> keeps p x (idup ip s)"
  unfolding idup_def by (intro keep) simp_all

lemma k_ilock [keep]: "p s = x \<Longrightarrow> keeps p x (ilock ip s)"
  unfolding ilock_def by (intro keep) simp_all

lemma k_iunlock [keep]: "p s = x \<Longrightarrow> keeps p x (iunlock ip s)"
  unfolding iunlock_def by (intro keep) simp_all

lemma k_itrunc [keep]: "p s = x \<Longrightarrow> keeps p x (itrunc ip s)"
  unfolding itrunc_def by (intro keep) simp_all

lemma k_iput [keep]: "p s = x \<Longrightarrow> keeps p x (iput ip s)"
  unfolding iput_def by (intro keep) simp_all

lemma k_iunlockput [keep]: "p s = x \<Longrightarrow> keeps p x (iunlockput ip s)"
  unfolding iunlockput_def by (intro keep) simp_all

lemma k_bmap [keep]: "p s = x \<Longrightarrow> keeps p x (bmap ip bn s)"
  unfolding bmap_def by (intro keep) simp_all

lemma k_readi_loop [keep]: "p s = x \<Longrightarrow> keeps p x (readi_loop ip off r s)"
proof (induction r arbitrary: off s rule: less_induct)
  case (less r)
  then show ?case
    by (subst readi_loop.simps) (intro keep; simp)
qed

lemma k_readi:
  assumes "p s = x" "\<And>m f ip n s. dv m = Some f \<Longrightarrow> p s = x \<Longrightarrow> keeps p x (f ip n s)"
  shows "keeps p x (readi dv ip off n s)"
proof (cases "dev_fun dv (major (icache s ip))")
  case (Some f)
  then have "\<exists>m. dv m = Some f" by (auto simp: dev_fun_def split: if_splits)
  then show ?thesis unfolding readi_def using assms Some by (auto simp: Let_def intro!: keep)
qed (unfold readi_def, use assms(1) in \<open>auto simp: Let_def intro!: keep\<close>)

lemma k_writei_loop [keep]: "p s = x \<Longrightarrow> keeps p x (writei_loop ip off src s)"
proof (induction src arbitrary: off s rule: length_induct)
  case (1 src)
  then show ?case
    by (subst writei_loop.simps) (intro keep; simp)
qed

lemma k_writei:
  assumes "p s = x" "\<And>m f ip src s. dv m = Some f \<Longrightarrow> p s = x \<Longrightarrow> keeps p x (f ip src s)"
  shows "keeps p x (writei dv ip src off s)"
proof (cases "dev_fun dv (major (icache s ip))")
  case (Some f)
  then have "\<exists>m. dv m = Some f" by (auto simp: dev_fun_def split: if_splits)
  then show ?thesis unfolding writei_def using assms Some by (auto simp: Let_def intro!: keep)
qed (unfold writei_def, use assms(1) in \<open>auto simp: Let_def intro!: keep\<close>)

lemmas k_no_dev [keep] = k_readi [where dv = no_dev, simplified] k_writei [where dv = no_dev, simplified]

lemma k_dirlookup_from [keep]: "p s = x \<Longrightarrow> keeps p x (dirlookup_from dp nm offs s)"
  by (induction offs arbitrary: s) (auto intro!: keep)

lemma k_dirlookup [keep]: "p s = x \<Longrightarrow> keeps p x (dirlookup dp nm s)"
  unfolding dirlookup_def by (intro keep) simp_all

lemma k_dirlink_slot [keep]: "p s = x \<Longrightarrow> keeps p x (dirlink_slot dp offs e s)"
  by (induction offs arbitrary: s e) (auto intro!: keep)

lemma k_dirlink [keep]: "p s = x \<Longrightarrow> keeps p x (dirlink dp nm i s)"
  unfolding dirlink_def by (intro keep) simp_all

lemma k_namex_loop [keep]: "p s = x \<Longrightarrow> keeps p x (namex_loop par path nm ip s)"
proof (induction path arbitrary: nm ip s rule: length_induct)
  case (1 path)
  then show ?case
    by (subst namex_loop.simps) (intro keep; auto dest: skipelem_shorter intro!: keep)
qed

lemma k_namex [keep]: "p s = x \<Longrightarrow> keeps p x (namex path par s)"
  unfolding namex_def by (intro keep) simp_all

lemma k_namei [keep]: "p s = x \<Longrightarrow> keeps p x (namei path s)" "p s = x \<Longrightarrow> keeps p x (nameiparent path s)"
  unfolding namei_def nameiparent_def by (intro keep; simp)+

lemma k_create [keep]: "p s = x \<Longrightarrow> keeps p x (create path t mj mn s)"
  unfolding create_def create_new_def add_nlink_def by (intro keep) simp_all

lemma k_open_inode [keep]: "p s = x \<Longrightarrow> keeps p x (open_inode path omode s)"
  unfolding open_inode_def by (intro keep) simp_all

lemma k_add_nlink [keep]: "p s = x \<Longrightarrow> keeps p x (add_nlink ip d s)"
  unfolding add_nlink_def by (intro keep) simp_all

end

section \<open>Console, user memory and program loading\<close>

locale io_frame = fs_frame p for p :: "'z cons_st_scheme \<Rightarrow> 'x" +
  assumes p_crt [simp]: "p (s\<lparr>crt := a\<rparr>) = p s"
    and p_cursor [simp]: "p (s\<lparr>cursor := b\<rparr>) = p s"
    and p_uart_out [simp]: "p (s\<lparr>uart_out := c\<rparr>) = p s"
    and p_in_r [simp]: "p (s\<lparr>in_r := d\<rparr>) = p s"
    and p_km [simp]: "p (s\<lparr>ps := (ps s)\<lparr>km := e\<rparr>\<rparr>) = p s"
begin

lemma p_mem [simp]: "p (s\<lparr>ps := upd_mem g (ps s)\<rparr>) = p s"
  by (simp add: upd_mem_def)

lemma p_uartputc [simp]: "p (uartputc c s) = p s"
  by (simp add: uartputc_def)

lemma k_on_kmem [keep]: "p s = x \<Longrightarrow> keeps p x (on_kmem g s)"
  unfolding on_kmem_def by (rule keeps_on_part) simp

lemma k_consputc [keep]: "p s = x \<Longrightarrow> keeps p x (consputc c s)"
  unfolding consputc_def cgaputc_def by (intro keep) (auto simp: Let_def split: if_splits)

lemma k_printint [keep]: "p s = x \<Longrightarrow> keeps p x (printint w b sg s)"
  unfolding printint_def by (intro keep) simp_all

lemma k_cprintf [keep]: "p s = x \<Longrightarrow> keeps p x (cprintf fmt as s)"
proof (induction fmt arbitrary: "as" s rule: length_induct)
  case (1 fmt)
  show ?case
  proof (cases fmt)
    case (Cons c fmt')
    show ?thesis unfolding Cons cprintf.simps using 1(2) by (intro keep 1(1) [rule_format]; simp add: Cons)
  qed (simp add: 1 keep)
qed

lemma k_consoleread_loop [keep]: "p s = x \<Longrightarrow> keeps p x (consoleread_loop n target acc s)"
  by (induction n target acc s rule: consoleread_loop.induct) (auto simp: sleep_b_def Let_def intro!: keep)

lemma k_consoleread [keep]: "p s = x \<Longrightarrow> keeps p x (consoleread ip n s)"
  unfolding consoleread_def by (intro keep) simp_all

lemma k_consolewrite [keep]: "p s = x \<Longrightarrow> keeps p x (consolewrite ip buf s)"
  unfolding consolewrite_def by (intro keep) simp_all

lemma k_readi_dev [keep]: "p s = x \<Longrightarrow> keeps p x (readi (devsw_read t) ip off n s)"
  by (rule k_readi) (auto simp: devsw_read_def split: if_splits intro!: keep)

lemma k_writei_dev [keep]: "p s = x \<Longrightarrow> keeps p x (writei (devsw_write t) ip src off s)"
  by (rule k_writei) (auto simp: devsw_write_def split: if_splits intro!: keep)

lemma k_uload [keep]: "p s = x \<Longrightarrow> keeps p x (uload va s)"
  unfolding uload_def by (intro keep) simp_all

lemma k_ustore [keep]: "p s = x \<Longrightarrow> keeps p x (ustore va c s)"
  unfolding ustore_def by (intro keep) simp_all

lemma k_uload_bytes [keep]: "p s = x \<Longrightarrow> keeps p x (uload_bytes va n s)"
  by (induction n arbitrary: va s) (auto intro!: keep)

lemma k_ustore_bytes [keep]: "p s = x \<Longrightarrow> keeps p x (ustore_bytes va cs s)"
  by (induction cs arbitrary: va s) (auto intro!: keep)

lemma k_fetchint [keep]: "p s = x \<Longrightarrow> keeps p x (fetchint a s)"
  unfolding fetchint_def by (intro keep) simp_all

lemma k_fetchstr_loop [keep]: "p s = x \<Longrightarrow> keeps p x (fetchstr_loop n a s)"
  by (induction n arbitrary: a s) (auto intro!: keep)

lemma k_fetchstr [keep]: "p s = x \<Longrightarrow> keeps p x (fetchstr a s)"
  unfolding fetchstr_def by (intro keep) simp_all

lemma k_argint [keep]: "p s = x \<Longrightarrow> keeps p x (argint n s)"
  unfolding argint_def by (intro keep) simp_all

lemma k_argptr [keep]: "p s = x \<Longrightarrow> keeps p x (argptr n k s)"
  unfolding argptr_def by (intro keep) simp_all

lemma k_argstr [keep]: "p s = x \<Longrightarrow> keeps p x (argstr n s)"
  unfolding argstr_def by (intro keep) simp_all

lemma k_fetch_argv [keep]: "p s = x \<Longrightarrow> keeps p x (fetch_argv n a s)"
  by (induction n arbitrary: a s) (auto intro!: keep)

lemma k_ustore_stat [keep]: "p s = x \<Longrightarrow> keeps p x (ustore_stat a st s)"
  unfolding ustore_stat_def by (intro keep) simp_all

lemma k_isdirempty_from [keep]: "p s = x \<Longrightarrow> keeps p x (isdirempty_from dp offs s)"
  by (induction offs arbitrary: s) (auto intro!: keep)

lemma k_isdirempty [keep]: "p s = x \<Longrightarrow> keeps p x (isdirempty dp s)"
  unfolding isdirempty_def by (intro keep) simp_all

lemma k_loaduvm_loop [keep]: "p s = x \<Longrightarrow> keeps p x (loaduvm_loop pg va ip offset i r s)"
proof (induction r arbitrary: i s rule: less_induct)
  case (less r)
  then show ?case by (subst loaduvm_loop.simps) (intro keep; simp)
qed

lemma k_loaduvm [keep]: "p s = x \<Longrightarrow> keeps p x (loaduvm pg va ip offset n s)"
  unfolding loaduvm_def by (intro keep) simp_all

lemma k_load_segments [keep]: "p s = x \<Longrightarrow> keeps p x (load_segments n off pg ip z s)"
proof (induction n arbitrary: off z s)
  case (Suc n)
  then show ?case by (subst load_segments.simps) (intro keep; simp)
qed (simp add: keep)

lemma k_push_args [keep]: "p s = x \<Longrightarrow> keeps p x (push_args pg as argc sp s)"
  by (induction "as" arbitrary: argc sp s) (auto simp: Let_def intro!: keep)

lemma k_build_stack [keep]: "p s = x \<Longrightarrow> keeps p x (build_stack pg argv z s)"
  unfolding build_stack_def by (intro keep) simp_all

end

section \<open>Calls that do not return\<close>

definition never :: "('a, 's) res \<Rightarrow> bool" where
  "never m \<longleftrightarrow> (\<forall>v s. m \<noteq> Ret v s)"

lemma never_stop: "never (off_cpu q s)" "never (Panic m)"
  by (simp_all add: never_def off_cpu_def)

lemma never_rbind: "(\<And>v s. never (f v s)) \<Longrightarrow> never (rbind m f)"
  by (simp add: never_def)

lemma keeps_never: "never m \<Longrightarrow> keeps p x m"
  by (simp add: never_def keeps_def)

lemma never_safe_exit: "never (safe_exit s)"
  unfolding safe_exit_def by (simp add: never_rbind never_stop)

lemma never_exit_call: "never (exit_call s)"
  unfolding exit_call_def by (intro never_rbind) (simp add: never_stop never_safe_exit split: kout.splits)

lemma never_kthread_exit_call: "never (kthread_exit_call s)"
  unfolding kthread_exit_call_def by (intro never_rbind) (simp add: never_stop never_exit_call split: kout.splits)

lemma no_return [simp]:
  "exit_call s = Ret v s' \<longleftrightarrow> False" "kthread_exit_call s = Ret v s' \<longleftrightarrow> False" "off_cpu q t = Ret w t' \<longleftrightarrow> False"
  using never_exit_call [of s] never_kthread_exit_call [of s] never_stop(1) [of q t] by (auto simp: never_def)

section \<open>Every system call closes its transaction\<close>

interpretation tx: io_frame outstanding
  by unfold_locales (simp_all add: wakeup_b_def)

lemma tx_ps [simp]: "outstanding (s\<lparr>ps := a\<rparr>) = outstanding s"
  by simp

text \<open>\<open>closes x m\<close>: \<open>m\<close> runs inside a transaction that was opened when \<open>x\<close> others were running, and ends it.\<close>

definition closes :: "int \<Rightarrow> ('a, 'z log_st_scheme) res \<Rightarrow> bool" where
  "closes x m \<longleftrightarrow> keeps outstanding x m"

named_theorems close \<open>ends of transactions\<close>

lemma tx_begin [close]:
  assumes "outstanding s = x" "\<And>s. outstanding s = x + 1 \<Longrightarrow> closes x (f () s)"
  shows "keeps outstanding x (rbind (begin_op s) f)"
  using assms by (auto simp: begin_op_def sleep_b_def closes_def keep)

lemma tx_end_op: "outstanding s = x + 1 \<Longrightarrow> keeps outstanding x (end_op (s :: 'z cons_st_scheme))"
  unfolding end_op_def by (intro keep) simp_all

lemma closes_end_op [close]:
  "outstanding s = x + 1 \<Longrightarrow> (\<And>s. outstanding s = x \<Longrightarrow> keeps outstanding x (f () s)) \<Longrightarrow>
     closes x (rbind (end_op (s :: 'z cons_st_scheme)) f)"
  "outstanding s = x + 1 \<Longrightarrow> closes x (end_op s)"
  "outstanding s = x + 1 \<Longrightarrow> closes x (end_with r s)"
  by (auto simp: closes_def end_with_def intro: keep tx_end_op)

lemma closes_rbind [close]:
  "keeps outstanding (x + 1) m \<Longrightarrow> (\<And>v s. outstanding s = x + 1 \<Longrightarrow> closes x (f v s)) \<Longrightarrow> closes x (rbind m f)"
  by (auto simp: closes_def keeps_def)

lemma closes_put_end [close]: "outstanding s = x + 1 \<Longrightarrow> closes x (put_end ip r (s :: 'z cons_st_scheme))"
  unfolding put_end_def by (intro close keep)

lemma closes_stop [close]: "closes x (Panic m)" "closes x (Block c s)"
  by (simp_all add: closes_def keep)

lemma closes_if [close]: "(b \<Longrightarrow> closes x m) \<Longrightarrow> (\<not> b \<Longrightarrow> closes x n) \<Longrightarrow> closes x (if b then m else n)"
  by simp

lemma closes_let [close]: "closes x (f t) \<Longrightarrow> closes x (Let t f)"
  by simp

lemma closes_option [close]:
  "closes x m \<Longrightarrow> (\<And>a. v = Some a \<Longrightarrow> closes x (f a)) \<Longrightarrow> closes x (case v of None \<Rightarrow> m | Some a \<Rightarrow> f a)"
  by (cases v) simp_all

lemma closes_prod [close]:
  "(\<And>a b. v = (a, b) \<Longrightarrow> closes x (g a b)) \<Longrightarrow> closes x (case v of (a, b) \<Rightarrow> g a b)"
  "(\<And>a b. v = (a, b) \<Longrightarrow> closes x (h a b s)) \<Longrightarrow> closes x ((case v of (a, b) \<Rightarrow> h a b) s)"
  by (cases v; simp)+

lemma keeps_with_arg [keep]:
  "keeps p x m \<Longrightarrow> (\<And>v s. p s = x \<Longrightarrow> keeps p x (f v s)) \<Longrightarrow> keeps p x (with_arg m f)"
  unfolding with_arg_def by (intro keep) simp_all

lemma tx_file [simp]:
  "outstanding (upd_file f g s) = outstanding s" "outstanding (upd_pipe a h s) = outstanding s"
  by (simp_all add: upd_file_def upd_pipe_def)

lemma tx_proc [simp]:
  "outstanding (set_ofile fd v s) = outstanding s" "outstanding (upd_curproc k s) = outstanding s"
  "outstanding (set_eax r s) = outstanding s"
  by (simp_all add: set_ofile_def upd_curproc_def set_eax_def)

lemma tx_on_ps [keep]: "outstanding s = x \<Longrightarrow> keeps outstanding x (on_ps f s)"
  unfolding on_ps_def by (rule keeps_on_part) simp

lemma tx_fdalloc [simp]: "fdalloc f s = (fd, s') \<Longrightarrow> outstanding s' = outstanding s"
  by (auto simp: fdalloc_def split: option.splits)

lemma tx_filealloc [simp]: "filealloc s = (f, s') \<Longrightarrow> outstanding s' = outstanding s"
  by (auto simp: filealloc_def split: option.splits)

lemma tx_argfd [keep]: "outstanding s = x \<Longrightarrow> keeps outstanding x (argfd n s)"
  unfolding argfd_def by (intro keep) simp_all

lemma keeps_ftype [keep]:
  "(t = FD_NONE \<Longrightarrow> keeps p x a) \<Longrightarrow> (t = FD_PIPE \<Longrightarrow> keeps p x b) \<Longrightarrow> (t = FD_INODE \<Longrightarrow> keeps p x c) \<Longrightarrow>
     keeps p x (case t of FD_NONE \<Rightarrow> a | FD_PIPE \<Rightarrow> b | FD_INODE \<Rightarrow> c)"
  by (cases t) simp_all

lemma tx_fileclose [keep]: "outstanding s = x \<Longrightarrow> keeps outstanding x (fileclose f s)"
  unfolding fileclose_def pipeclose_def by (intro close keep; simp)

lemma tx_filedup [keep]: "outstanding s = x \<Longrightarrow> keeps outstanding x (filedup f s)"
  unfolding filedup_def by (intro keep) simp_all

lemma tx_filewrite_loop [keep]: "outstanding s = x \<Longrightarrow> keeps outstanding x (filewrite_loop f bs s)"
proof (induction bs arbitrary: s rule: length_induct)
  case (1 bs)
  then show ?case by (subst filewrite_loop.simps) (intro close keep; simp)
qed

lemma tx_pipewrite_loop [keep]: "outstanding s = x \<Longrightarrow> keeps outstanding x (pipewrite_loop a bs s)"
  by (induction bs arbitrary: s) (auto simp: sleep_b_def intro!: keep)

lemma tx_piperead_loop [simp]: "piperead_loop a n s = (bs, s') \<Longrightarrow> outstanding s' = outstanding s"
  by (induction n arbitrary: s bs) (auto simp: Let_def split: if_splits prod.splits)

lemma tx_fileread [keep]: "outstanding s = x \<Longrightarrow> keeps outstanding x (fileread f n s)"
  unfolding fileread_def piperead_def sleep_b_def by (intro keep; simp)

lemma tx_filewrite [keep]: "outstanding s = x \<Longrightarrow> keeps outstanding x (filewrite f bs s)"
  unfolding filewrite_def pipewrite_def by (intro keep; simp)

lemma tx_filestat [keep]: "outstanding s = x \<Longrightarrow> keeps outstanding x (filestat f s)"
  unfolding filestat_def by (intro keep; simp)

lemma tx_pipealloc [keep]: "outstanding s = x \<Longrightarrow> keeps outstanding x (pipealloc s)"
  unfolding pipealloc_def close_opt_def by (intro keep; (simp split: option.splits)?)

lemma tx_outcome [keep]: "outstanding s = x \<Longrightarrow> keeps outstanding x (outcome r (s :: 'z cons_st_scheme))"
  unfolding outcome_def off_cpu_def by (auto split: kout.splits kpc.splits intro!: keep)

lemma closes_link_bad [close]: "outstanding s = x + 1 \<Longrightarrow> closes x (link_bad ip (s :: 'z cons_st_scheme))"
  unfolding link_bad_def by (intro close keep)

lemma closes_exec_bad: 
  "outstanding s = x + 1 \<Longrightarrow> closes x (exec_bad pg (Some ip) s)"
  unfolding exec_bad_def option.case by (intro close keep)

lemma tx_exec_bad: "outstanding s = x \<Longrightarrow> keeps outstanding x (exec_bad pg None s)"
  unfolding exec_bad_def option.case by (intro keep)

lemma tx_commit_image [keep]: "outstanding s = x \<Longrightarrow> keeps outstanding x (commit_image path pg z entry sp (s :: 'z cons_st_scheme))"
  unfolding commit_image_def by (intro keep; simp)

lemma tx_exec_body [keep]: "outstanding s = x \<Longrightarrow> keeps outstanding x (exec_body path argv s)"
  unfolding exec_body_def by (intro close closes_exec_bad keep tx_exec_bad; simp)

lemma tx_exec [keep]: "outstanding s = x \<Longrightarrow> keeps outstanding x (exec path argv s)"
  unfolding exec_def off_cpu_def by (intro keep; simp add: keep split: kout.splits)

lemma tx_dup_files [keep]: "outstanding s = x \<Longrightarrow> keeps outstanding x (dup_files q s)"
  unfolding dup_files_def by (intro keep; simp)

lemma tx_sysfile:
  assumes "outstanding s = x"
  shows "keeps outstanding x (sys_dup s)" "keeps outstanding x (sys_read s)" "keeps outstanding x (sys_write s)"
    "keeps outstanding x (sys_close s)" "keeps outstanding x (sys_fstat s)" "keeps outstanding x (sys_pipe s)"
    "keeps outstanding x (sys_exec s)"
  unfolding sys_dup_def sys_read_def sys_write_def sys_close_def sys_fstat_def sys_pipe_def sys_exec_def
  using assms by (intro keep; (simp split: if_splits)?)+

lemma closes_open_file [close]: "outstanding s = x + 1 \<Longrightarrow> closes x (open_file ip omode s)"
  unfolding open_file_def by (intro close keep; simp)

lemma tx_syspath:
  assumes "outstanding s = x"
  shows "keeps outstanding x (sys_link s)" "keeps outstanding x (sys_unlink s)" "keeps outstanding x (sys_open s)"
    "keeps outstanding x (sys_mkdir s)" "keeps outstanding x (sys_mknod s)" "keeps outstanding x (sys_chdir s)"
  unfolding sys_link_def sys_unlink_def unlink_entry_def sys_open_def sys_mkdir_def sys_mknod_def made_def sys_chdir_def
  using assms by (intro close keep; simp)+

lemma tx_sysproc:
  assumes "outstanding s = x"
  shows "keeps outstanding x (sys_fork s)" "keeps outstanding x (sys_wait s)" "keeps outstanding x (sys_kill s)"
    "keeps outstanding x (sys_getpid s)" "keeps outstanding x (sys_sbrk s)"
    "keeps outstanding x (sys_kthread_create s)" "keeps outstanding x (sys_kthread_id s)"
    "keeps outstanding x (sys_kthread_join s)" "keeps outstanding x (sys_kthread_mutex_alloc s)"
    "keeps outstanding x (sys_kthread_mutex_dealloc s)" "keeps outstanding x (sys_kthread_mutex_lock s)"
    "keeps outstanding x (sys_kthread_mutex_unlock s)"
    "keeps outstanding x (sys_exit s)" "keeps outstanding x (sys_kthread_exit s)"
  unfolding sys_fork_def sys_wait_def sys_kill_def sys_getpid_def sys_sbrk_def sys_kthread_create_def
    sys_kthread_id_def sys_kthread_join_def sys_kthread_mutex_alloc_def sys_kthread_mutex_dealloc_def
    sys_kthread_mutex_lock_def sys_kthread_mutex_unlock_def sys_exit_def sys_kthread_exit_def
  using assms by (intro keeps_never [OF never_exit_call] keeps_never [OF never_kthread_exit_call] keep; simp)+

lemma tx_sysclock:
  assumes "outstanding s = x"
  shows "keeps outstanding x (sys_sleep s)" "keeps outstanding x (sys_uptime s)"
  unfolding sys_sleep_def sleep_loop_def sys_uptime_def sleep_b_def using assms by (intro keep; simp)+

lemma tx_syscalls:
  assumes "syscalls n = Some h" "outstanding s = x"
  shows "keeps outstanding x (h s)"
  using assms(1) unfolding syscalls_def
  by (auto split: if_splits intro: tx_sysfile tx_syspath tx_sysproc tx_sysclock assms(2))

text \<open>C21. Every system call that returns leaves the number of running transactions as it found it: each handler ends exactly the transactions that it began, also on its error paths.\<close>

theorem syscalls_close_transactions:
  assumes "syscalls n = Some h" "h s = Ret r s'"
  shows "outstanding s' = outstanding s"
  using keepsD [OF tx_syscalls [OF assms(1) refl] assms(2)] .

section \<open>Threads that have been killed\<close>

lemma die_if_killed_Ret: "die_if_killed s = Ret () s' \<Longrightarrow> s' = s \<and> \<not> tkilled (curthread s) \<and> \<not> killed (curproc s)"
  by (auto simp: die_if_killed_def split: if_splits)

lemma trap_tail_Ret: "trap_tail True s = Ret () s' \<Longrightarrow> s' = s \<and> \<not> tkilled (curthread s)"
  by (auto simp: trap_tail_def split: if_splits)


section \<open>A failing exec\<close>

locale op_frame = io_frame p for p :: "'z cons_st_scheme \<Rightarrow> 'x" +
  assumes p_outstanding [simp]: "p (s\<lparr>outstanding := a\<rparr>) = p s"
begin

lemma k_begin_op [keep]: "p s = x \<Longrightarrow> keeps p x (begin_op s)"
  unfolding begin_op_def sleep_b_def by (intro keep) simp_all

lemma k_end_op [keep]: "p s = x \<Longrightarrow> keeps p x (end_op s)"
  unfolding end_op_def by (intro keep) simp_all

lemma k_exec_bad [keep]: "p s = x \<Longrightarrow> keeps p x (exec_bad pg ip s)"
  unfolding exec_bad_def by (intro keep) simp_all

end

text \<open>The image of the current process: what \<^verbatim>\<open>exec\<close> replaces, and what it must keep.\<close>

definition proc_image :: "'z bio_st_scheme \<Rightarrow> (nat \<times> nat) \<times> 32 word \<times> addr \<times> byte list \<times> (nat \<Rightarrow> nat option) \<times> nat option" where
  "proc_image s = (me s, sz (curproc s), pgdir (curproc s), name (curproc s), ofile (curproc s), cwd (curproc s))"

interpretation im: op_frame proc_image
  by unfold_locales (simp_all add: proc_image_def wakeup_b_def wakeup_def wakeup1_def)

definition slot_image :: "nat \<Rightarrow> proc_st \<Rightarrow> 32 word \<times> addr \<times> byte list \<times> (nat \<Rightarrow> nat option) \<times> nat option" where
  "slot_image i s = (sz (ptable s i), pgdir (ptable s i), name (ptable s i), ofile (ptable s i), cwd (ptable s i))"

lemma slot_image_upd [simp]:
  "slot_image i (upd_thread a b f s) = slot_image i s" "slot_image i (upd_mutex m g s) = slot_image i s"
  "slot_image i (wakeup1 c s) = slot_image i s" "slot_image i (s\<lparr>km := k\<rparr>) = slot_image i s"
  by (simp_all add: slot_image_def upd_thread_def upd_proc_def upd_mutex_def wakeup1_def)

lemma slot_image_remove_thread [keep]: "slot_image i s = x \<Longrightarrow> keeps (slot_image i) x (remove_thread ci cj k j s)"
  unfolding remove_thread_def on_km_def drop_mutex_def kthread_mutex_dealloc_def
  by (intro keep keeps_on_part) (simp_all split: option.splits)

lemma slot_image_kill_loop [keep]: "slot_image i s = x \<Longrightarrow> keeps (slot_image i) x (kill_loop k j js b s)"
  by (induction js arbitrary: b s) (auto simp: Let_def intro!: keep)

lemma slot_image_kill [keep]: "slot_image i s = x \<Longrightarrow> keeps (slot_image i) x (kill_other_threads b k j s)"
  unfolding kill_other_threads_def kill_round_def by (intro keep) simp_all

lemma image_kill [keep]: "proc_image s = x \<Longrightarrow> keeps proc_image x (on_ps (kill_other_threads b i j) s)"
  using keepsD [OF slot_image_kill [OF refl], of b i j "ps s"]
  by (auto simp: keeps_def on_ps_def on_part_eq_Ret proc_image_def slot_image_def)

text \<open>The same for an operation that keeps a part of the state whenever it returns an error.\<close>

definition keeps_err :: "('s \<Rightarrow> 'x) \<Rightarrow> 'x \<Rightarrow> (int, 's) res \<Rightarrow> bool" where
  "keeps_err p x m \<longleftrightarrow> (\<forall>v s. m = Ret v s \<longrightarrow> v < 0 \<longrightarrow> p s = x)"

lemma keeps_err_base: "keeps p x m \<Longrightarrow> keeps_err p x m"
  by (auto simp: keeps_err_def keeps_def)

lemma keeps_err_struct:
  "keeps p x n \<Longrightarrow> (\<And>v s. p s = x \<Longrightarrow> keeps_err p x (f v s)) \<Longrightarrow> keeps_err p x (rbind n f)"
  "(b \<Longrightarrow> keeps_err p x m) \<Longrightarrow> (\<not> b \<Longrightarrow> keeps_err p x m') \<Longrightarrow> keeps_err p x (if b then m else m')"
  "keeps_err p x (g t) \<Longrightarrow> keeps_err p x (Let t g)"
  "keeps_err p x m \<Longrightarrow> (\<And>a. keeps_err p x (h a)) \<Longrightarrow> keeps_err p x (case w of None \<Rightarrow> m | Some a \<Rightarrow> h a)"
  "(\<And>a b. keeps_err p x (k a b)) \<Longrightarrow> keeps_err p x (case pr of (a, b) \<Rightarrow> k a b)"
  "(\<And>a b. keeps_err p x (l a b s)) \<Longrightarrow> keeps_err p x ((case pr of (a, b) \<Rightarrow> l a b) s)"
  by (auto simp: keeps_err_def keeps_def Let_def split: option.splits prod.splits)

lemma commit_image_returns_0: "commit_image path pg z entry sp s = Ret v s' \<Longrightarrow> v = 0"
  by (auto simp: commit_image_def Let_def)

lemma err_commit_image: "keeps_err p x (commit_image path pg z entry sp s)"
  by (auto simp: keeps_err_def dest: commit_image_returns_0)

lemma err_exec_body: "proc_image s = x \<Longrightarrow> keeps_err proc_image x (exec_body path argv s)"
  unfolding exec_body_def by (intro keeps_err_struct err_commit_image keeps_err_base keep; simp)

lemma err_exec: "proc_image s = x \<Longrightarrow> keeps_err proc_image x (exec path argv s)"
  unfolding exec_def
proof (intro keeps_err_struct image_kill, assumption)
  fix v and t :: "'z cons_st_scheme"
  assume "proc_image t = x"
  then show "keeps_err proc_image x (case v of Done _ \<Rightarrow> exec_body path argv t | Gap q \<Rightarrow> off_cpu q t | Off q \<Rightarrow> off_cpu q t)"
    using err_exec_body [of t x path argv] by (cases v) (simp_all add: keeps_err_def)
qed

text \<open>
  C22. An \<^verbatim>\<open>exec\<close> that fails, for whatever reason and however far it got, leaves the process its name, size, page
  directory, open files and current directory.
\<close>

theorem exec_failure_keeps_image:
  assumes "exec path argv s = Ret v s'" "v < 0"
  shows "proc_image s' = proc_image s"
  using err_exec [OF refl, of s path argv] assms by (simp add: keeps_err_def)

section \<open>Examples\<close>

text \<open>A machine with an empty root directory's inode in memory, and one process with one thread.\<close>

definition sys_boot :: trap_st where
  "sys_boot = \<lparr>ps = boot_st, me = (0, 0), bufs = (\<lambda>_. blank_buf), bnext = (\<lambda>_. 0), bprev = (\<lambda>_. 0),
     idequeue = [], havedisk1 = True, disk = (\<lambda>_ _ _. 0), fault = (\<lambda>_ _. False), writes = [],
     lstart = 2, lsize = 30, outstanding = 0, committing = False, ldev = 1, lh_n = 0, lh_block = (\<lambda>_. 0),
     sb = \<lparr>ssize = 1000, nblocks = 941, ninodes = 200, nlog = 30, logstart = 2, inodestart = 32, bmapstart = 58\<rparr>,
     icache = (\<lambda>_. \<lparr>idev = 1, inum = 1, iref = 1, ilk = initsleeplock, ivalid = True, itype = 1, major = 0, minor = 0,
       nlink = 1, isize = 0, addrs = (\<lambda>_. 0)\<rparr>),
     crt = (\<lambda>_. 0), cursor = 0, uart = True, uart_out = [], panicked = False, locking = True, ibuf = (\<lambda>_. 0),
     in_r = 0, in_w = 0, in_e = 0, devsw = (\<lambda>m. m = 1), shift = 0,
     ftable = (\<lambda>_. \<lparr>ftype = FD_NONE, fref = 0, readable = False, writable = False, fpipe = 0, fip = 0, foff = 0\<rparr>),
     pipes = (\<lambda>_. \<lparr>pdata = (\<lambda>_. 0), nread = 0, nwrite = 0, readopen = False, writeopen = False\<rparr>),
     ticks = 0, first_time = False\<rparr>"

lemmas boot_defs = sys_boot_def boot_st_def idle_proc_def idle_thread_def kmem_example_def

lemma sys_chdir_boot: "\<exists>s'. sys_chdir sys_boot = Ret (-1) s'"
  by (simp add: boot_defs sys_chdir_def begin_op_def argstr_def argint_def fetchint_def end_with_def end_op_def commit_def
      thr_def Let_def)

theorem syscalls_close_transactions_witness:
  "\<exists>s'. syscalls 9 = Some (sys_chdir :: trap_st \<Rightarrow> _) \<and> sys_chdir sys_boot = Ret (-1) s' \<and> outstanding s' = outstanding sys_boot"
proof -
  have n: "syscalls 9 = Some (sys_chdir :: trap_st \<Rightarrow> _)" by (simp add: syscalls_def)
  obtain s' where "sys_chdir sys_boot = Ret (-1) s'" using sys_chdir_boot by blast
  then show ?thesis using n syscalls_close_transactions [OF n] by blast
qed

text \<open>The root directory is no program: its file is shorter than a header.\<close>

lemma kill_boot: "kill_other_threads False 0 0 boot_st = Ret (Done 0) boot_st"
proof -
  have "kill_loop 0 0 js False boot_st = Ret False boot_st" for js
    by (induction js) (simp_all add: boot_defs thr_def)
  then show ?thesis by (simp add: kill_other_threads_def kill_round_def) (simp add: boot_defs thr_def)
qed

lemma iget_boot: "iget 1 1 (sys_boot\<lparr>outstanding := 1\<rparr>) = Ret 0 (upd_inode 0 (\<lambda>x. x\<lparr>iref := 2\<rparr>) (sys_boot\<lparr>outstanding := 1\<rparr>))"
  by (simp add: iget_def first_from.simps sys_boot_def upd_inode_def)

lemma exec_boot: "\<exists>s'. exec [47] [] sys_boot = Ret (-1) s'"
proof -
  have b: "begin_op sys_boot = Ret () (sys_boot\<lparr>outstanding := 1\<rparr>)"
    by (simp add: begin_op_def sys_boot_def)
  have n: "namei [47] (sys_boot\<lparr>outstanding := 1\<rparr>) = Ret (Some 0) (upd_inode 0 (\<lambda>x. x\<lparr>iref := 2\<rparr>) (sys_boot\<lparr>outstanding := 1\<rparr>))"
    by (simp add: namei_def namex_def iget_boot namex_loop.simps skipelem_def)
  have e: "\<exists>s'. exec_body [47] [] sys_boot = Ret (-1) s'"
    unfolding exec_body_def b n rbind.simps option.case
    by (simp add: sys_boot_def upd_inode_def ilock_def acquiresleep_i_def initsleeplock_def readi_def readi_loop.simps
        exec_bad_def iunlockput_def iunlock_def holdingsleep_i_def releasesleep_i_def wakeup_b_def mypid_def
        wakeup_def wakeup1_def iput_def end_op_def commit_def Let_def)
  have p: "ps sys_boot = boot_st" "me sys_boot = (0, 0)" by (simp_all add: sys_boot_def)
  have "on_ps (kill_other_threads False 0 0) sys_boot = Ret (Done 0) (sys_boot\<lparr>ps := boot_st\<rparr>)"
    unfolding on_ps_def by (rule on_part_Ret) (simp add: p kill_boot)
  then have "on_ps (kill_other_threads False 0 0) sys_boot = Ret (Done 0) sys_boot" by (simp add: sys_boot_def)
  then show ?thesis unfolding exec_def p using e by simp
qed

theorem exec_failure_keeps_image_witness:
  "\<exists>s'. exec [47] [] sys_boot = Ret (-1) s' \<and> proc_image s' = proc_image sys_boot"
  using exec_boot exec_failure_keeps_image [of "[47]" "[]" sys_boot "-1"] by auto

definition trap_boot :: trap_st where
  "trap_boot = sys_boot\<lparr>ps := upd_mem (\<lambda>m. m(0x80105030 := 32, 0x8010503C := 0x1B)) boot_st\<rparr>"


end
