(* ===== verification/Grep.thy ===== *)
theory Grep
  imports Prelude
begin

section \<open>grep\<close>

text \<open>
  \<^verbatim>\<open>grep.c\<close>: the matcher for patterns with \<^verbatim>\<open>^ . * $\<close>, and the loop that reads the input in pieces and prints the lines that match.
  A C string is the list of its bytes before the terminating 0, so \<^verbatim>\<open>re[0] == 0\<close> is the empty list. The matcher is proved to decide the
  language of the pattern. How many bytes a \<^verbatim>\<open>read\<close> returns is an argument of the loop: with a regular file, which gives as
  many as are asked for, \<^verbatim>\<open>grep\<close> prints exactly the matching lines; with short reads it loses text.
\<close>

abbreviation (input) star :: byte where "star \<equiv> 42"
abbreviation (input) dollar :: byte where "dollar \<equiv> 36"
abbreviation (input) dot :: byte where "dot \<equiv> 46"
abbreviation (input) caret :: byte where "caret \<equiv> 94"
abbreviation (input) newline :: byte where "newline \<equiv> 10"

subsection \<open>The matcher\<close>

function matchhere :: "byte list \<Rightarrow> byte list \<Rightarrow> bool" and matchstar :: "byte \<Rightarrow> byte list \<Rightarrow> byte list \<Rightarrow> bool" where
  "matchhere re tx =
     (if re = [] then True
      else if tl re \<noteq> [] \<and> hd (tl re) = star then matchstar (hd re) (tl (tl re)) tx
      else if hd re = dollar \<and> tl re = [] then tx = []
      else if tx \<noteq> [] \<and> (hd re = dot \<or> hd re = hd tx) then matchhere (tl re) (tl tx)
      else False)"
| "matchstar c re tx =
     (if matchhere re tx then True
      else if tx \<noteq> [] \<and> (hd tx = c \<or> c = dot) then matchstar c re (tl tx)
      else False)"
  by pat_completeness auto
termination
  by (relation "inv_image (less_than <*lex*> less_than <*lex*> less_than)
      (\<lambda>x. case x of Inl (re, tx) \<Rightarrow> (length re, length tx, 0) | Inr (c, re, tx) \<Rightarrow> (length re, length tx, 1 :: nat))") auto

declare matchhere.simps [simp del] matchstar.simps [simp del]

fun match_from :: "byte list \<Rightarrow> byte list \<Rightarrow> bool" where
  "match_from re tx = (if matchhere re tx then True else case tx of [] \<Rightarrow> False | _ # cs \<Rightarrow> match_from re cs)"

declare match_from.simps [simp del]

definition match :: "byte list \<Rightarrow> byte list \<Rightarrow> bool" where
  "match re tx = (if re \<noteq> [] \<and> hd re = caret then matchhere (tl re) tx else match_from re tx)"

subsection \<open>The loop\<close>

text \<open>
  The inner loop, on the bytes of \<^verbatim>\<open>buf\<close> from \<^verbatim>\<open>p\<close> on, which \<^verbatim>\<open>strchr\<close> sees up to the first 0: what is left after the last newline, and
  the output.
\<close>

function scan_lines :: "byte list \<Rightarrow> byte list \<Rightarrow> byte list \<Rightarrow> byte list \<times> byte list" where
  "scan_lines pattern p out =
     (let q = takeWhile (\<lambda>c. c \<noteq> newline \<and> c \<noteq> 0) p
      in if length q < length p \<and> p ! length q = newline
         then scan_lines pattern (drop (Suc (length q)) p) (out @ (if match pattern q then q @ [newline] else []))
         else (p, out))"
  by pat_completeness auto
termination
  by (relation "measure (\<lambda>(pattern, p, out). length p)") auto

declare scan_lines.simps [simp del]

text \<open>\<open>rd n inp\<close> says how many bytes \<^verbatim>\<open>read\<close> gives when \<open>n\<close> are asked for and \<open>inp\<close> is what is left of the input.\<close>

function grep_loop :: "(nat \<Rightarrow> byte list \<Rightarrow> nat) \<Rightarrow> byte list \<Rightarrow> byte list \<Rightarrow> byte list \<Rightarrow> byte list \<Rightarrow> byte list" where
  "grep_loop rd pattern buf inp out =
     (let n = min (rd (1023 - length buf) inp) (min (1023 - length buf) (length inp))
      in if n = 0 then out
         else let b = buf @ take n inp;
                  (p, out) = scan_lines pattern b out
              in grep_loop rd pattern (if length p = length b then [] else p) (drop n inp) out)"
  by pat_completeness auto
termination
  by (relation "measure (\<lambda>(rd, pattern, buf, inp, out). length inp)") auto

declare grep_loop.simps [simp del]

definition grep :: "(nat \<Rightarrow> byte list \<Rightarrow> nat) \<Rightarrow> byte list \<Rightarrow> byte list \<Rightarrow> byte list" where
  "grep rd pattern inp = grep_loop rd pattern [] inp []"

subsection \<open>What a pattern means\<close>

text \<open>
  A pattern is a sequence of characters, each of them repeated or not, and says whether the text has to end there.
\<close>

fun items :: "byte list \<Rightarrow> (byte \<times> bool) list \<times> bool" where
  "items [] = ([], False)"
| "items [c] = (if c = dollar then ([], True) else ([(c, False)], False))"
| "items (c # d # re) =
     (if d = star then let (is, e) = items re in ((c, True) # is, e)
      else let (is, e) = items (d # re) in ((c, False) # is, e))"

definition stands_for :: "byte \<Rightarrow> byte \<Rightarrow> bool" where
  "stands_for c x \<longleftrightarrow> c = dot \<or> c = x"

fun lang :: "(byte \<times> bool) list \<Rightarrow> byte list set" where
  "lang [] = {[]}"
| "lang ((c, rep) # is) = {u @ v | u v. v \<in> lang is \<and> (\<forall>x\<in>set u. stands_for c x) \<and> (rep \<or> length u = 1)}"

definition begins_with :: "(byte \<times> bool) list \<times> bool \<Rightarrow> byte list \<Rightarrow> bool" where
  "begins_with p tx \<longleftrightarrow> (\<exists>u v. tx = u @ v \<and> u \<in> lang (fst p) \<and> (snd p \<longrightarrow> v = []))"

lemma begins_with_end: "begins_with ([], False) tx" "begins_with ([], True) tx \<longleftrightarrow> tx = []"
  by (auto simp: begins_with_def)

lemma begins_with_one:
  "begins_with ((c, False) # is, e) tx \<longleftrightarrow> tx \<noteq> [] \<and> stands_for c (hd tx) \<and> begins_with (is, e) (tl tx)"
proof
  assume "begins_with ((c, False) # is, e) tx"
  then obtain u v w where w: "tx = (u @ v) @ w" "v \<in> lang is" "\<forall>x\<in>set u. stands_for c x" "length u = 1" "e \<longrightarrow> w = []"
    unfolding begins_with_def fst_conv snd_conv lang.simps by blast
  then obtain x where "u = [x]" by (auto simp: length_Suc_conv)
  then show "tx \<noteq> [] \<and> stands_for c (hd tx) \<and> begins_with (is, e) (tl tx)" using w by (auto simp: begins_with_def)
next
  assume a: "tx \<noteq> [] \<and> stands_for c (hd tx) \<and> begins_with (is, e) (tl tx)"
  then obtain v w where w: "tl tx = v @ w" "v \<in> lang is" "e \<longrightarrow> w = []" unfolding begins_with_def fst_conv snd_conv by blast
  have "tx = ([hd tx] @ v) @ w" using a w(1) by (cases tx) auto
  moreover have "[hd tx] @ v \<in> lang ((c, False) # is)"
    unfolding lang.simps using a w(2) by (intro CollectI exI [of _ "[hd tx]"] exI [of _ v]) simp
  ultimately show "begins_with ((c, False) # is, e) tx" using w(3) unfolding begins_with_def fst_conv snd_conv by blast
qed

lemma begins_with_star:
  "begins_with ((c, True) # is, e) tx \<longleftrightarrow>
     begins_with (is, e) tx \<or> tx \<noteq> [] \<and> stands_for c (hd tx) \<and> begins_with ((c, True) # is, e) (tl tx)"
proof
  assume "begins_with ((c, True) # is, e) tx"
  then obtain u v w where w: "tx = (u @ v) @ w" "v \<in> lang is" "\<forall>x\<in>set u. stands_for c x" "e \<longrightarrow> w = []"
    unfolding begins_with_def fst_conv snd_conv lang.simps by blast
  show "begins_with (is, e) tx \<or> tx \<noteq> [] \<and> stands_for c (hd tx) \<and> begins_with ((c, True) # is, e) (tl tx)"
  proof (cases u)
    case Nil
    then show ?thesis using w by (auto simp: begins_with_def)
  next
    case (Cons x u')
    then have "tl tx = (u' @ v) @ w" "u' @ v \<in> lang ((c, True) # is)" using w by auto
    then have "begins_with ((c, True) # is, e) (tl tx)" using w(4) unfolding begins_with_def fst_conv snd_conv by blast
    then show ?thesis using w(1,3) Cons by simp
  qed
next
  assume "begins_with (is, e) tx \<or> tx \<noteq> [] \<and> stands_for c (hd tx) \<and> begins_with ((c, True) # is, e) (tl tx)"
  then show "begins_with ((c, True) # is, e) tx"
  proof
    assume "begins_with (is, e) tx"
    then obtain v w where w: "tx = ([] @ v) @ w" "v \<in> lang is" "e \<longrightarrow> w = []" unfolding begins_with_def by auto
    then have "[] @ v \<in> lang ((c, True) # is)" by fastforce
    then show ?thesis using w unfolding begins_with_def fst_conv snd_conv by blast
  next
    assume a: "tx \<noteq> [] \<and> stands_for c (hd tx) \<and> begins_with ((c, True) # is, e) (tl tx)"
    then obtain u v w where w: "tl tx = (u @ v) @ w" "v \<in> lang is" "\<forall>x\<in>set u. stands_for c x" "e \<longrightarrow> w = []"
      unfolding begins_with_def fst_conv snd_conv lang.simps by blast
    have "tx = ((hd tx # u) @ v) @ w" using a w(1) by (cases tx) auto
    moreover have "(hd tx # u) @ v \<in> lang ((c, True) # is)" 
      unfolding lang.simps using a w(2,3) by (intro CollectI exI [of _ "hd tx # u"] exI [of _ v]) simp
    ultimately show ?thesis using w(4) unfolding begins_with_def fst_conv snd_conv by blast
  qed
qed

lemma matchstar_correct:
  assumes "\<And>tx. matchhere re tx = begins_with p tx"
  shows "matchstar c re tx \<longleftrightarrow> begins_with ((c, True) # fst p, snd p) tx"
proof (induction tx)
  case Nil
  then show ?case using assms by (subst matchstar.simps, subst begins_with_star) simp
next
  case (Cons x tx)
  then show ?case using assms by (subst matchstar.simps, subst begins_with_star) (auto simp: stands_for_def)
qed

lemma matchhere_correct: "matchhere re tx \<longleftrightarrow> begins_with (items re) tx"
proof (induction re arbitrary: tx rule: items.induct)
  case 1
  then show ?case by (subst matchhere.simps) (simp add: begins_with_end)
next
  case (2 c)
  then show ?case by (subst matchhere.simps) (auto simp: begins_with_end begins_with_one stands_for_def matchhere.simps [of "[]"])
next
  case (3 c d re)
  show ?case
  proof (cases "d = star")
    case True
    then show ?thesis using matchstar_correct [OF 3(1) [OF True]]
      by (subst matchhere.simps) (simp add: split_beta)
  next
    case False
    then show ?thesis using 3(2)
      by (subst matchhere.simps) (auto simp: split_beta begins_with_one stands_for_def)
  qed
qed

lemma match_from_correct: "match_from re tx \<longleftrightarrow> (\<exists>x y. tx = x @ y \<and> matchhere re y)"
proof (induction tx)
  case Nil
  then show ?case by (subst match_from.simps) simp
next
  case (Cons c tx)
  have "(\<exists>x y. c # tx = x @ y \<and> matchhere re y) \<longleftrightarrow> matchhere re (c # tx) \<or> (\<exists>x y. tx = x @ y \<and> matchhere re y)"
    by (metis Cons_eq_append_conv append_Cons append_Nil)
  then show ?case using Cons by (subst match_from.simps) simp
qed

text \<open>
  C34. \<^verbatim>\<open>match\<close> returns for all strings and decides the language of the pattern: with \<^verbatim>\<open>^\<close> the text begins with a
  word of it, without it some suffix of the text does, and a final \<^verbatim>\<open>$\<close> asks for the word to end with the text.
\<close>

theorem match_decides_language:
  "match re tx \<longleftrightarrow> (case re of c # r \<Rightarrow> if c = caret then begins_with (items r) tx
       else \<exists>x y. tx = x @ y \<and> begins_with (items re) y
     | [] \<Rightarrow> True)"
  by (cases re) (auto simp: match_def match_from_correct matchhere_correct begins_with_end)

subsection \<open>The lines that are printed\<close>

text \<open>The pieces of the input between newlines; all but the last one are lines.\<close>

fun splitnl :: "byte list \<Rightarrow> byte list list" where
  "splitnl [] = [[]]"
| "splitnl (c # cs) = (if c = newline then [] # splitnl cs else (c # hd (splitnl cs)) # tl (splitnl cs))"

definition matching_lines :: "byte list \<Rightarrow> byte list list \<Rightarrow> byte list" where
  "matching_lines pattern ls = concat (map (\<lambda>l. l @ [newline]) (filter (match pattern) ls))"

lemma matching_lines_simps [simp]:
  "matching_lines pattern [] = []" "matching_lines pattern (as @ bs) = matching_lines pattern as @ matching_lines pattern bs"
  "matching_lines pattern (l # ls) = (if match pattern l then l @ [newline] else []) @ matching_lines pattern ls"
  by (simp_all add: matching_lines_def)

lemma splitnl_nonempty [simp]: "splitnl p \<noteq> []"
  by (cases p) auto

lemma splitnl_hd: "hd (splitnl p) = takeWhile (\<lambda>c. c \<noteq> newline) p"
  by (induction p) auto

lemma splitnl_one: "newline \<notin> set p \<Longrightarrow> splitnl p = [p]"
  by (induction p) auto

lemma splitnl_more:
  "newline \<in> set p \<Longrightarrow> splitnl p = takeWhile (\<lambda>c. c \<noteq> newline) p # splitnl (drop (Suc (length (takeWhile (\<lambda>c. c \<noteq> newline) p))) p)"
  by (induction p) auto

lemma splitnl_append: "splitnl (a @ b) = butlast (splitnl a) @ splitnl (last (splitnl a) @ b)"
proof (induction a)
  case (Cons c a)
  obtain x xs where x: "splitnl a = x # xs" by (cases "splitnl a") auto
  show ?case
  proof (cases xs)
    case Nil
    then show ?thesis using Cons x by simp
  next
    case (Cons y ys)
    then show ?thesis using Cons.IH x by simp
  qed
qed simp

lemma before_newline: "newline \<in> set p \<Longrightarrow> length (takeWhile (\<lambda>c. c \<noteq> newline) p) < length p"
  by (induction p) auto

lemma splitnl_last: "newline \<notin> set (last (splitnl p))" "newline \<in> set p \<Longrightarrow> length (last (splitnl p)) < length p"
proof -
  have "newline \<notin> set (last (splitnl p)) \<and> length (last (splitnl p)) \<le> length p \<and> (newline \<in> set p \<longrightarrow> length (last (splitnl p)) < length p)"
  proof (induction p)
    case (Cons c p)
    then show ?case by (cases "splitnl p") (auto simp: last_tl split: if_splits)
  qed simp
  then show "newline \<notin> set (last (splitnl p))" "newline \<in> set p \<Longrightarrow> length (last (splitnl p)) < length p" by auto
qed

lemma splitnl_sub: "set (last (splitnl p)) \<subseteq> set p"
proof (induction p)
  case (Cons c p)
  then show ?case by (cases "splitnl p") auto
qed simp

lemma scan_lines_correct:
  "0 \<notin> set p \<Longrightarrow> scan_lines pattern p out = (last (splitnl p), out @ matching_lines pattern (butlast (splitnl p)))"
proof (induction p arbitrary: out rule: length_induct)
  case (1 p)
  let ?q = "takeWhile (\<lambda>c. c \<noteq> newline) p"
  have q: "takeWhile (\<lambda>c. c \<noteq> newline \<and> c \<noteq> 0) p = ?q" using 1(2) by (intro takeWhile_cong) auto
  show ?case
  proof (cases "newline \<in> set p")
    case True
    then have l: "length ?q < length p" by (rule before_newline)
    then have n: "p ! length ?q = newline" using nth_length_takeWhile by blast
    let ?r = "drop (Suc (length ?q)) p"
    have "0 \<notin> set ?r" using 1(2) by (auto dest: in_set_dropD)
    then have IH: "scan_lines pattern ?r out = (last (splitnl ?r), out @ matching_lines pattern (butlast (splitnl ?r)))" for out
      using 1(1) l by simp
    show ?thesis unfolding splitnl_more [OF True] by (subst scan_lines.simps) (simp add: q l n IH Let_def)
  next
    case False
    then have "?q = p" by (auto simp: takeWhile_eq_all_conv)
    then show ?thesis using splitnl_one [OF False] by (subst scan_lines.simps, unfold q) (simp only: Let_def, simp)
  qed
qed

lemma grep_loop_correct:
  assumes "0 \<notin> set (buf @ inp)" "newline \<notin> set buf" "\<forall>l\<in>set (splitnl (buf @ inp)). length l \<le> 1022"
  shows "grep_loop (\<lambda>n _. n) pattern buf inp out = out @ matching_lines pattern (butlast (splitnl (buf @ inp)))"
  using assms
proof (induction inp arbitrary: buf out rule: length_induct)
  case (1 inp)
  define n where n: "n = min (1023 - length buf) (length inp)"
  let ?b = "buf @ take n inp" and ?inp = "drop n inp"
  have b: "?b @ ?inp = buf @ inp" by simp
  have first: "length (takeWhile (\<lambda>c. c \<noteq> newline) (buf @ inp)) \<le> 1022"
    using 1(4) splitnl_hd [of "buf @ inp"] hd_in_set [OF splitnl_nonempty] by metis
  moreover have "takeWhile (\<lambda>c. c \<noteq> newline) (buf @ inp) = buf @ takeWhile (\<lambda>c. c \<noteq> newline) inp"
    using 1(3) by (intro takeWhile_append2) auto
  ultimately have lb: "length buf \<le> 1022" by simp
  show ?case
  proof (cases "inp = []")
    case True
    then show ?thesis using 1(3) by (subst grep_loop.simps) (simp add: splitnl_one)
  next
    case False
    then have n0: "n \<noteq> 0" using lb n by simp
    have z: "0 \<notin> set ?b" using 1(2) by (auto dest: in_set_takeD)
    note scan = scan_lines_correct [OF z]
    have m: "min (1023 - length buf) (min (1023 - length buf) (length inp)) = n" by (simp add: n)
    have step: "grep_loop (\<lambda>n _. n) pattern buf inp out = grep_loop (\<lambda>n _. n) pattern (if length (last (splitnl ?b)) = length ?b then [] else last (splitnl ?b))
        ?inp (out @ matching_lines pattern (butlast (splitnl ?b)))"
      by (subst grep_loop.simps, unfold Let_def m) (simp add: n0 scan)
    show ?thesis
    proof (cases "newline \<in> set ?b")
      case False
      then have "takeWhile (\<lambda>c. c \<noteq> newline) (?b @ ?inp) = ?b @ takeWhile (\<lambda>c. c \<noteq> newline) ?inp"
        by (intro takeWhile_append2) auto
      then have "length ?b \<le> 1022" using first b by simp
      then have e: "?inp = []" by (auto simp: n min_def split: if_splits)
      then have "splitnl (buf @ inp) = [?b]" using splitnl_one [OF False] b by simp
      moreover have "grep_loop (\<lambda>n _. n) pattern [] [] out = out" by (subst grep_loop.simps) simp
      ultimately show ?thesis unfolding step splitnl_one [OF False] e by simp
    next
      case True
      let ?p = "last (splitnl ?b)"
      note p = splitnl_last(1) [of ?b] splitnl_last(2) [OF True]
      have split: "splitnl (buf @ inp) = butlast (splitnl ?b) @ splitnl (?p @ ?inp)" using splitnl_append [of ?b ?inp] b by simp
      have "set ?p \<subseteq> set ?b" using splitnl_sub [of ?b] by simp
      then have "0 \<notin> set (?p @ ?inp)" using z 1(2) by (auto dest: in_set_dropD)
      moreover have "\<forall>l\<in>set (splitnl (?p @ ?inp)). length l \<le> 1022" using 1(4) unfolding split by simp
      moreover have "length ?inp < length inp" using n0 \<open>inp \<noteq> []\<close> by simp
      ultimately have "grep_loop (\<lambda>n _. n) pattern ?p ?inp out' = out' @ matching_lines pattern (butlast (splitnl (?p @ ?inp)))" for out'
        using 1(1) p(1) by blast
      then show ?thesis unfolding step split using p(2) by (simp add: butlast_append)
    qed
  qed
qed

text \<open>
  C35. On a regular file, whose reads give as many bytes as are asked for while there are any, \<^verbatim>\<open>grep\<close> prints exactly the lines that
  match, in order, if no line has more than 1022 bytes and the file has no 0 bytes; text after the last newline is not looked at.
\<close>

theorem grep_prints_matching_lines:
  assumes "0 \<notin> set inp" "\<forall>l\<in>set (splitnl inp). length l \<le> 1022"
  shows "grep (\<lambda>n _. n) pattern inp = matching_lines pattern (butlast (splitnl inp))"
  using grep_loop_correct [of "[]" inp pattern "[]"] assms by (simp add: grep_def)

text \<open>
  When a read gives less than a whole line, as reads of a pipe or of the console do, \<^verbatim>\<open>grep\<close> throws away the text it has: the
  line \<^verbatim>\<open>a\<close> delivered in two reads is not found.
\<close>

theorem grep_loses_split_line:
  "grep (\<lambda>_ _. 1) [97] [97, newline] = [] \<and> matching_lines [97] (butlast (splitnl [97, newline])) = [97, newline]"
proof -
  have m: "match [97] [97]" "\<not> match [97] []"
    by (simp_all add: match_def match_from.simps matchhere.simps [of "[97]"] matchhere.simps [of "[]"])
  have "scan_lines [97] [97] [] = ([97], [])" "scan_lines [97] [newline] [] = ([], [])" "scan_lines [97] [] [] = ([], [])"
    by (simp_all add: scan_lines.simps m)
  then have "grep (\<lambda>_ _. 1) [97] [97, newline] = []" by (simp add: grep_def grep_loop.simps)
  then show ?thesis by (simp add: m)
qed

theorem grep_prints_matching_lines_witness: "grep (\<lambda>n _. n) [97] [98, newline, 97, newline] = [97, newline]"
proof -
  have m: "match [97] [97]" "\<not> match [97] [98]"
    by (simp_all add: match_def match_from.simps matchhere.simps [of "[97]"] matchhere.simps [of "[]"])
  have "grep (\<lambda>n _. n) [97] [98, newline, 97, newline] = matching_lines [97] (butlast (splitnl [98, newline, 97, newline]))"
    by (rule grep_prints_matching_lines) simp_all
  then show ?thesis by (simp add: m)
qed

end
