(* ===== verification/Shell.thy ===== *)
theory Shell
  imports Prelude "HOL-Library.Sublist"
begin

section \<open>The command parser of the shell\<close>

text \<open>
  The parser of \<^verbatim>\<open>sh.c\<close>. A pointer into the command line is the rest of the line from there on, so that \<^verbatim>\<open>s < es\<close> says that
  the rest is not empty; a word is given by the pointers to its start and its end, as \<^verbatim>\<open>argv\<close> and \<^verbatim>\<open>eargv\<close> are in the code. A call
  of the shell's own \<^verbatim>\<open>panic\<close>, which prints its message and exits, is \<open>Inl\<close> of the message. The functions of the parser call each other
  on what is left of the line; that they end on every line is part of their definition.
\<close>

type_synonym ptr = "byte list"

text \<open>The structs for commands, over what stands for a word: a pair of pointers in the parser.\<close>

datatype 'w cmd =
    EXEC "'w list"
  | REDIR "'w cmd" 'w nat nat
  | PIPE "'w cmd" "'w cmd"
  | LIST "'w cmd" "'w cmd"
  | BACK "'w cmd"

type_synonym pcmd = "(ptr \<times> ptr) cmd"

abbreviation (input) MAXARGS :: nat where "MAXARGS \<equiv> 10"

definition whitespace :: "byte list" where
  "whitespace = [32, 9, 13, 10, 11]"

definition symbols :: "byte list" where
  "symbols = [60, 124, 62, 38, 59, 40, 41]"

text \<open>The loop \<^verbatim>\<open>while(s < es && strchr(whitespace, *s)) s++\<close>.\<close>

definition skip_ws :: "ptr \<Rightarrow> ptr" where
  "skip_ws s = dropWhile (\<lambda>c. c \<in> set whitespace) s"

definition skip_word :: "ptr \<Rightarrow> ptr" where
  "skip_word s = dropWhile (\<lambda>c. c \<notin> set whitespace \<and> c \<notin> set symbols) s"

text \<open>\<^verbatim>\<open>gettoken\<close>: the token \<open>ret\<close>, the pointers \<^verbatim>\<open>q\<close> and \<^verbatim>\<open>eq\<close>, and what \<^verbatim>\<open>*ps\<close> becomes.\<close>

definition token :: "ptr \<Rightarrow> byte \<times> ptr" where
  "token s =
     (case s of
        [] \<Rightarrow> (0, [])
      | c # r \<Rightarrow>
          if c \<in> {124, 40, 41, 59, 38, 60} then (c, r)
          else if c = 62 then (if r \<noteq> [] \<and> hd r = 62 then (43, tl r) else (62, r))
          else (97, skip_word s))"

record gettoken_result =
  ret :: byte
  tq :: ptr
  teq :: ptr
  ps :: ptr

definition gettoken :: "ptr \<Rightarrow> gettoken_result" where
  "gettoken s = (let q = skip_ws s; (r, s) = token q in \<lparr>ret = r, tq = q, teq = s, ps = skip_ws s\<rparr>)"

definition peek :: "ptr \<Rightarrow> byte list \<Rightarrow> bool \<times> ptr" where
  "peek s toks = (let s = skip_ws s in (s \<noteq> [] \<and> hd s \<in> set toks, s))"

text \<open>Binding for results that may be a panic.\<close>

definition sbind :: "string + 'a \<Rightarrow> ('a \<Rightarrow> string + 'b) \<Rightarrow> string + 'b" where
  "sbind m f = (case m of Inl e \<Rightarrow> Inl e | Inr x \<Rightarrow> f x)"

lemma sbind_cong [fundef_cong]: "m = m' \<Longrightarrow> (\<And>x. m' = Inr x \<Longrightarrow> f x = g x) \<Longrightarrow> sbind m f = sbind m' g"
  by (simp add: sbind_def split: sum.split)

lemma sbind_eq_Inr [simp]: "sbind m f = Inr y \<longleftrightarrow> (\<exists>x. m = Inr x \<and> f x = Inr y)"
  by (auto simp: sbind_def split: sum.split)

lemma sbind_Inr [simp]: "sbind (Inr x) f = f x" "sbind (Inl e) f = Inl e"
  by (simp_all add: sbind_def)

subsection \<open>Lengths\<close>

lemma skip_length: "length (skip_ws s) \<le> length s" "length (skip_word s) \<le> length s"
  by (simp_all add: skip_ws_def skip_word_def length_dropWhile_le)

lemma token_length: "length (snd (token s)) \<le> length s" "s \<noteq> [] \<Longrightarrow> length (snd (token s)) < length s \<or> hd s \<in> set whitespace"
proof -
  have "length (snd (token s)) \<le> length s \<and> (s \<noteq> [] \<longrightarrow> length (snd (token s)) < length s \<or> hd s \<in> set whitespace)"
  proof (cases s)
    case (Cons c r)
    have "length (skip_word (c # r)) \<le> length r" if "c \<notin> set whitespace" "c \<notin> set symbols"
      using that skip_length(2) [of r] by (simp add: skip_word_def)
    moreover have "c \<in> set symbols \<longleftrightarrow> c \<in> {124, 40, 41, 59, 38, 60} \<or> c = 62" by (auto simp: symbols_def)
    ultimately show ?thesis using Cons skip_length(2) [of "c # r"] by (auto simp: token_def split: if_splits)
  qed (simp add: token_def)
  then show "length (snd (token s)) \<le> length s" "s \<noteq> [] \<Longrightarrow> length (snd (token s)) < length s \<or> hd s \<in> set whitespace" by auto
qed

lemma skip_ws_hd: "skip_ws s \<noteq> [] \<Longrightarrow> hd (skip_ws s) \<notin> set whitespace"
  unfolding skip_ws_def using hd_dropWhile by blast

lemma skip_ws_idem [simp]: "skip_ws (skip_ws s) = skip_ws s"
  by (simp add: skip_ws_def dropWhile_idem)

lemma gettoken_sel:
  "ret (gettoken s) = fst (token (skip_ws s))" "tq (gettoken s) = skip_ws s" "teq (gettoken s) = snd (token (skip_ws s))"
  "ps (gettoken s) = skip_ws (snd (token (skip_ws s)))"
  by (simp_all add: gettoken_def Let_def split_beta)

lemma gettoken_length:
  "length (ps (gettoken s)) \<le> length s" "skip_ws s \<noteq> [] \<Longrightarrow> length (ps (gettoken s)) < length s" "ret (gettoken s) \<noteq> 0 \<Longrightarrow> length (ps (gettoken s)) < length s"
proof -
  show "length (ps (gettoken s)) \<le> length s" using token_length(1) [of "skip_ws s"] skip_length(1) le_trans unfolding gettoken_sel by metis
  show l: "length (ps (gettoken s)) < length s" if "skip_ws s \<noteq> []"
    using that token_length(2) [OF that] skip_ws_hd [OF that] skip_length(1) [of s] skip_length(1) [of "snd (token (skip_ws s))"] unfolding gettoken_sel by auto
  show "length (ps (gettoken s)) < length s" if "ret (gettoken s) \<noteq> 0"
  proof (rule l)
    show "skip_ws s \<noteq> []" using that unfolding gettoken_sel by (auto simp: token_def)
  qed
qed

lemma peek_sel [simp]: "snd (peek s toks) = skip_ws s" "fst (peek s toks) \<longleftrightarrow> skip_ws s \<noteq> [] \<and> hd (skip_ws s) \<in> set toks"
  by (simp_all add: peek_def Let_def)

lemma gettoken_skip [simp]: "gettoken (skip_ws s) = gettoken s"
  by (simp add: gettoken_def)

subsection \<open>Redirections and arguments\<close>

text \<open>
  \<^verbatim>\<open>parseredirs\<close> wraps the command it is given into one \<^verbatim>\<open>redircmd\<close> after another. \<^verbatim>\<open>parseexec\<close> goes on filling in the
  arguments of a command that is wrapped already, so the redirections are kept apart, in their order, and put around the
  command when its arguments are complete.
\<close>

type_synonym redir = "(ptr \<times> ptr) \<times> nat \<times> nat"

definition redircmds :: "pcmd \<Rightarrow> redir list \<Rightarrow> pcmd" where
  "redircmds c rs = foldl (\<lambda>c (w, mode, fd). REDIR c w mode fd) c rs"

definition redir_of :: "byte \<Rightarrow> ptr \<Rightarrow> ptr \<Rightarrow> redir" where
  "redir_of tok q eq = (if tok = 60 then ((q, eq), 0, 0) else ((q, eq), 0x201, 1))"

function parseredirs :: "redir list \<Rightarrow> ptr \<Rightarrow> string + redir list \<times> ptr" where
  "parseredirs rs s =
     (if \<not> fst (peek s [60, 62]) then Inr (rs, snd (peek s [60, 62]))
      else let t = gettoken (snd (peek s [60, 62]));
               f = gettoken (ps t)
           in if ret f \<noteq> 97 then Inl ''missing file for redirection''
              else parseredirs (rs @ [redir_of (ret t) (tq f) (teq f)]) (ps f))"
  by pat_completeness auto
termination
proof (relation "measure (\<lambda>(rs, s). length s)", goal_cases)
  case (2 rs s t f)
  then show ?case using gettoken_length(2) [of s] gettoken_length(1) [of "ps t"] by simp
qed simp

declare parseredirs.simps [simp del]

lemma parseredirs_length: "parseredirs rs s = Inr (rs', r) \<Longrightarrow> length r \<le> length s"
proof (induction rs s rule: parseredirs.induct)
  case (1 rs s)
  have l: "length (ps (gettoken (ps (gettoken s)))) \<le> length s"
    using gettoken_length(1) [of s] gettoken_length(1) [of "ps (gettoken s)"] by simp
  show ?case
  proof (cases "fst (peek s [60, 62])")
    case True
    then have r: "ret (gettoken (ps (gettoken s))) = 97" "parseredirs (rs @ [redir_of (ret (gettoken s)) (tq (gettoken (ps (gettoken s)))) (teq (gettoken (ps (gettoken s))))])
        (ps (gettoken (ps (gettoken s)))) = Inr (rs', r)"
      using "1.prems" by (auto simp: parseredirs.simps [of rs s] Let_def split: if_splits)
    then show ?thesis using "1.IH" [OF _ refl refl] True l by simp
  next
    case False
    then show ?thesis using "1.prems" skip_length(1) [of s] by (simp add: parseredirs.simps [of rs s])
  qed
qed

text \<open>The loop of \<^verbatim>\<open>parseexec\<close>.\<close>

function exec_args :: "(ptr \<times> ptr) list \<Rightarrow> redir list \<Rightarrow> ptr \<Rightarrow> string + (ptr \<times> ptr) list \<times> redir list \<times> ptr" where
  "exec_args argv rs s =
     (if fst (peek s [124, 41, 38, 59]) then Inr (argv, rs, snd (peek s [124, 41, 38, 59]))
      else let t = gettoken (snd (peek s [124, 41, 38, 59]))
           in if ret t = 0 then Inr (argv, rs, ps t)
              else if ret t \<noteq> 97 then Inl ''syntax''
              else if Suc (length argv) \<ge> MAXARGS then Inl ''too many args''
              else sbind (parseredirs rs (ps t)) (\<lambda>r. exec_args (argv @ [(tq t, teq t)]) (fst r) (snd r)))"
  by pat_completeness auto
termination
proof (relation "measure (\<lambda>(argv, rs, s). length s)", goal_cases)
  case (2 argv rs s t r)
  then show ?case using gettoken_length(3) [of s] parseredirs_length [of rs "ps t" "fst r" "snd r"] by (simp add: split_beta)
qed simp

declare exec_args.simps [simp del]

lemma exec_args_length: "exec_args argv rs s = Inr (argv', rs', r) \<Longrightarrow> length r \<le> length s"
proof (induction argv rs s rule: exec_args.induct)
  case (1 argv rs s)
  have l: "length (ps (gettoken s)) \<le> length s" "length (skip_ws s) \<le> length s" using gettoken_length(1) skip_length(1) by auto
  consider "r = skip_ws s" | "r = ps (gettoken s)" |
    rs1 s1 where "parseredirs rs (ps (gettoken s)) = Inr (rs1, s1)" "exec_args (argv @ [(tq (gettoken s), teq (gettoken s))]) rs1 s1 = Inr (argv', rs', r)"
      "\<not> fst (peek s [124, 41, 38, 59])" "ret (gettoken s) = 97" "\<not> Suc (length argv) \<ge> MAXARGS"
    using "1.prems" by (auto simp: exec_args.simps [of argv rs s] Let_def split: if_splits)
  then show ?case
  proof cases
    case 3
    then show ?thesis using "1.IH" [OF 3(3) refl, of "(rs1, s1)"] parseredirs_length [OF 3(1)] l by auto
  qed (use l in auto)
qed

subsection \<open>Commands\<close>

function back_loop :: "pcmd \<Rightarrow> ptr \<Rightarrow> pcmd \<times> ptr" where
  "back_loop c s = (if fst (peek s [38]) then back_loop (BACK c) (ps (gettoken (snd (peek s [38])))) else (c, snd (peek s [38])))"
  by pat_completeness auto
termination
  by (relation "measure (\<lambda>(c, s). length s)") (auto simp: gettoken_length)

declare back_loop.simps [simp del]

lemma back_loop_length: "length (snd (back_loop c s)) \<le> length s"
proof (induction c s rule: back_loop.induct)
  case (1 c s)
  then show ?case using gettoken_length(1) [of s] skip_length(1) [of s] by (subst back_loop.simps) auto
qed

text \<open>That a call leaves no more of the line than it got, for one call when the calls it makes have this property.\<close>

lemma line_shrinks:
  assumes "sbind (pp s) (\<lambda>r.
       let b = back_loop (fst r) (snd r)
       in if fst (peek (snd b) [59])
          then sbind (pl (ps (gettoken (snd (peek (snd b) [59]))))) (\<lambda>l. Inr (LIST (fst b) (fst l), snd l))
          else Inr (fst b, snd (peek (snd b) [59]))) = Inr r"
    and "\<And>p. pp s = Inr p \<Longrightarrow> length (snd p) \<le> length s"
    and "\<And>p b l. pp s = Inr p \<Longrightarrow> b = back_loop (fst p) (snd p) \<Longrightarrow> fst (peek (snd b) [59]) \<Longrightarrow> pl (ps (gettoken (snd (peek (snd b) [59])))) = Inr l \<Longrightarrow>
      length (snd l) \<le> length (ps (gettoken (snd (peek (snd b) [59]))))"
  shows "length (snd r) \<le> length s"
proof -
  obtain p where p: "pp s = Inr p" using assms(1) by auto
  let ?b = "back_loop (fst p) (snd p)"
  have b: "length (snd ?b) \<le> length s" using assms(2) [OF p] back_loop_length le_trans by blast
  show ?thesis
  proof (cases "fst (peek (snd ?b) [59])")
    case True
    then obtain l where l: "pl (ps (gettoken (snd ?b))) = Inr l" "snd r = snd l" using assms(1) p by (auto simp: Let_def)
    then show ?thesis using assms(3) [OF p refl True, of l] gettoken_length(1) [of "snd ?b"] b by simp
  next
    case False
    then show ?thesis using assms(1) p b skip_length(1) [of "snd ?b"] by (auto simp: Let_def)
  qed
qed

lemma pipe_shrinks:
  assumes "sbind (pe s) (\<lambda>r.
       if fst (peek (snd r) [124])
       then sbind (pp (ps (gettoken (snd (peek (snd r) [124]))))) (\<lambda>l. Inr (PIPE (fst r) (fst l), snd l))
       else Inr (fst r, snd (peek (snd r) [124]))) = Inr r"
    and "\<And>p. pe s = Inr p \<Longrightarrow> length (snd p) \<le> length s"
    and "\<And>p l. pe s = Inr p \<Longrightarrow> fst (peek (snd p) [124]) \<Longrightarrow> pp (ps (gettoken (snd (peek (snd p) [124])))) = Inr l \<Longrightarrow>
      length (snd l) \<le> length (ps (gettoken (snd (peek (snd p) [124]))))"
  shows "length (snd r) \<le> length s"
proof -
  obtain p where p: "pe s = Inr p" using assms(1) by auto
  show ?thesis
  proof (cases "fst (peek (snd p) [124])")
    case True
    then obtain l where l: "pp (ps (gettoken (snd p))) = Inr l" "snd r = snd l" using assms(1) p by auto
    then show ?thesis using assms(3) [OF p True, of l] gettoken_length(1) [of "snd p"] assms(2) [OF p] by simp
  next
    case False
    then show ?thesis using assms(1) p assms(2) [OF p] skip_length(1) [of "snd p"] by auto
  qed
qed

lemma exec_shrinks:
  assumes "(if fst (peek s [40]) then pb (snd (peek s [40]))
      else sbind (parseredirs [] (snd (peek s [40]))) (\<lambda>r.
           sbind (exec_args [] (fst r) (snd r)) (\<lambda>(argv, rs, s). Inr (redircmds (EXEC argv) rs, s)))) = Inr r"
    and "\<And>p. fst (peek s [40]) \<Longrightarrow> pb (snd (peek s [40])) = Inr p \<Longrightarrow> length (snd p) \<le> length (snd (peek s [40]))"
  shows "length (snd r) \<le> length s"
proof (cases "fst (peek s [40])")
  case True
  then show ?thesis using assms(2) [OF True, of r] assms(1) skip_length(1) [of s] by simp
next
  case False
  then obtain rs s1 argv rs' where "parseredirs [] (skip_ws s) = Inr (rs, s1)" "exec_args [] rs s1 = Inr (argv, rs', snd r)"
    using assms(1) by auto
  then show ?thesis using parseredirs_length exec_args_length skip_length(1) [of s] by (meson le_trans)
qed

lemma block_shrinks:
  assumes "(if \<not> fst (peek s [40]) then Inl ''parseblock''
      else sbind (pl (ps (gettoken (snd (peek s [40]))))) (\<lambda>r.
           if \<not> fst (peek (snd r) [41]) then Inl ''syntax - missing )''
           else sbind (parseredirs [] (ps (gettoken (snd (peek (snd r) [41]))))) (\<lambda>l. Inr (redircmds (fst r) (fst l), snd l)))) = Inr r"
    and "\<And>p. fst (peek s [40]) \<Longrightarrow> pl (ps (gettoken (snd (peek s [40])))) = Inr p \<Longrightarrow> length (snd p) \<le> length (ps (gettoken (snd (peek s [40]))))"
  shows "length (snd r) \<le> length s"
proof -
  have o: "fst (peek s [40])" using assms(1) by (auto split: if_splits)
  obtain p where p: "pl (ps (gettoken s)) = Inr p" using assms(1) o by auto
  then obtain l where l: "parseredirs [] (ps (gettoken (snd p))) = Inr l" "snd r = snd l"
    using assms(1) o by (auto split: if_splits)
  have "length (snd p) \<le> length (ps (gettoken s))" using assms(2) [of p] o p by simp
  then show ?thesis using parseredirs_length [of "[]" _ "fst l" "snd l"] l gettoken_length(1) [of s] gettoken_length(1) [of "snd p"] by fastforce
qed

function parseline :: "ptr \<Rightarrow> string + pcmd \<times> ptr" and parsepipe :: "ptr \<Rightarrow> string + pcmd \<times> ptr"
  and parseexec :: "ptr \<Rightarrow> string + pcmd \<times> ptr" and parseblock :: "ptr \<Rightarrow> string + pcmd \<times> ptr" where
  "parseline s =
     sbind (parsepipe s) (\<lambda>r.
       let b = back_loop (fst r) (snd r)
       in if fst (peek (snd b) [59])
          then sbind (parseline (ps (gettoken (snd (peek (snd b) [59]))))) (\<lambda>l. Inr (LIST (fst b) (fst l), snd l))
          else Inr (fst b, snd (peek (snd b) [59])))"
| "parsepipe s =
     sbind (parseexec s) (\<lambda>r.
       if fst (peek (snd r) [124])
       then sbind (parsepipe (ps (gettoken (snd (peek (snd r) [124]))))) (\<lambda>l. Inr (PIPE (fst r) (fst l), snd l))
       else Inr (fst r, snd (peek (snd r) [124])))"
| "parseexec s =
     (if fst (peek s [40]) then parseblock (snd (peek s [40]))
      else sbind (parseredirs [] (snd (peek s [40]))) (\<lambda>r.
           sbind (exec_args [] (fst r) (snd r)) (\<lambda>(argv, rs, s). Inr (redircmds (EXEC argv) rs, s))))"
| "parseblock s =
     (if \<not> fst (peek s [40]) then Inl ''parseblock''
      else sbind (parseline (ps (gettoken (snd (peek s [40]))))) (\<lambda>r.
           if \<not> fst (peek (snd r) [41]) then Inl ''syntax - missing )''
           else sbind (parseredirs [] (ps (gettoken (snd (peek (snd r) [41]))))) (\<lambda>l. Inr (redircmds (fst r) (fst l), snd l))))"
  by pat_completeness auto
termination
proof -
  let ?dom = "parseline_parsepipe_parseexec_parseblock_dom"
  have len: "?dom (Inl (Inl s)) \<Longrightarrow> \<forall>r. parseline s = Inr r \<longrightarrow> length (snd r) \<le> length s"
    "?dom (Inl (Inr s)) \<Longrightarrow> \<forall>r. parsepipe s = Inr r \<longrightarrow> length (snd r) \<le> length s"
    "?dom (Inr (Inl s)) \<Longrightarrow> \<forall>r. parseexec s = Inr r \<longrightarrow> length (snd r) \<le> length s"
    "?dom (Inr (Inr s)) \<Longrightarrow> \<forall>r. parseblock s = Inr r \<longrightarrow> length (snd r) \<le> length s" for s
  proof (induction s and s and s and s rule: parseline_parsepipe_parseexec_parseblock.pinduct)
    case (1 s)
    show ?case unfolding parseline.psimps [OF 1(1)] by (intro allI impI, erule line_shrinks) (use 1(2,3) in blast)+
  next
    case (2 s)
    show ?case unfolding parsepipe.psimps [OF 2(1)] by (intro allI impI, erule pipe_shrinks) (use 2(2,3) in blast)+
  next
    case (3 s)
    show ?case unfolding parseexec.psimps [OF 3(1)] by (intro allI impI, erule exec_shrinks) (use 3(2) in blast)
  next
    case (4 s)
    show ?case unfolding parseblock.psimps [OF 4(1)] by (intro allI impI, erule block_shrinks) (use 4(2) in blast)
  qed
  show ?thesis
  proof (relation "inv_image (less_than <*lex*> less_than)
      (\<lambda>x. case x of Inl (Inl s) \<Rightarrow> (length s, 3 :: nat) | Inl (Inr s) \<Rightarrow> (length s, 2) | Inr (Inl s) \<Rightarrow> (length s, 1) | Inr (Inr s) \<Rightarrow> (length s, 0))", goal_cases)
    case (3 s r b)
    then have "length (snd b) \<le> length s" using len(2) [of s] back_loop_length [of "fst r" "snd r"] le_trans by fastforce
    then show ?case using 3 gettoken_length(2) [of "snd b"] by simp
  next
    case (5 s r)
    then have "length (snd r) \<le> length s" using len(3) [of s] by simp
    then show ?case using 5 gettoken_length(2) [of "snd r"] by simp
  next
    case (6 s)
    then show ?case using skip_length(1) [of s] by auto
  next
    case (7 s)
    then show ?case using gettoken_length(2) [of s] by auto
  qed auto
qed

declare parseline.simps [simp del] parsepipe.simps [simp del] parseexec.simps [simp del] parseblock.simps [simp del]

text \<open>
  \<^verbatim>\<open>nulterminate\<close> writes a 0 at the end of every word. The buffer is the line with the 0 at its end, so a pointer \<open>q\<close> is the place
  \<open>length buf - Suc (length q)\<close> of it; \<open>cstring\<close> is the string that starts there.
\<close>

definition put_nul :: "ptr \<Rightarrow> byte list \<Rightarrow> byte list" where
  "put_nul e buf = buf[length buf - Suc (length e) := 0]"

fun nulterminate :: "pcmd \<Rightarrow> byte list \<Rightarrow> byte list" where
  "nulterminate (EXEC argv) buf = fold (\<lambda>w. put_nul (snd w)) argv buf"
| "nulterminate (REDIR c w mode fd) buf = put_nul (snd w) (nulterminate c buf)"
| "nulterminate (PIPE l r) buf = nulterminate r (nulterminate l buf)"
| "nulterminate (LIST l r) buf = nulterminate r (nulterminate l buf)"
| "nulterminate (BACK c) buf = nulterminate c buf"

text \<open>The command and the buffer after the call.\<close>

definition parsecmd :: "ptr \<Rightarrow> string + pcmd \<times> byte list" where
  "parsecmd s =
     sbind (parseline s) (\<lambda>r.
       if snd (peek (snd r) []) \<noteq> [] then Inl ''syntax'' else Inr (fst r, nulterminate (fst r) (s @ [0])))"

definition cstring :: "byte list \<Rightarrow> ptr \<Rightarrow> byte list" where
  "cstring buf q = takeWhile (\<lambda>c. c \<noteq> 0) (drop (length buf - Suc (length q)) buf)"

definition text_of :: "ptr \<times> ptr \<Rightarrow> byte list" where
  "text_of w = take (length (fst w) - length (snd w)) (fst w)"

subsection \<open>The words of a parsed command\<close>

definition ordinary :: "byte \<Rightarrow> bool" where
  "ordinary c \<longleftrightarrow> c \<notin> set whitespace \<and> c \<notin> set symbols"

definition word_ok :: "ptr \<Rightarrow> ptr \<times> ptr \<Rightarrow> bool" where
  "word_ok line w \<longleftrightarrow> suffix (fst w) line \<and> (\<exists>u. fst w = u @ snd w \<and> u \<noteq> [] \<and> (\<forall>c\<in>set u. ordinary c)) \<and>
     (snd w = [] \<or> \<not> ordinary (hd (snd w)))"

fun words :: "'w cmd \<Rightarrow> 'w list" where
  "words (EXEC argv) = argv"
| "words (REDIR c w mode fd) = words c @ [w]"
| "words (PIPE l r) = words l @ words r"
| "words (LIST l r) = words l @ words r"
| "words (BACK c) = words c"

text \<open>What \<^verbatim>\<open>runcmd\<close> relies on: argument vectors that end with a null pointer inside the array, and modes for open that go with the descriptor.\<close>

fun cmd_ok :: "'w cmd \<Rightarrow> bool" where
  "cmd_ok (EXEC argv) \<longleftrightarrow> length argv < MAXARGS"
| "cmd_ok (REDIR c w mode fd) \<longleftrightarrow> cmd_ok c \<and> ((mode, fd) = (0, 0) \<or> (mode, fd) = (0x201, 1))"
| "cmd_ok (PIPE l r) \<longleftrightarrow> cmd_ok l \<and> cmd_ok r"
| "cmd_ok (LIST l r) \<longleftrightarrow> cmd_ok l \<and> cmd_ok r"
| "cmd_ok (BACK c) \<longleftrightarrow> cmd_ok c"

lemma skip_suffix: "suffix (skip_ws s) s" "suffix (skip_word s) s"
  by (simp_all add: skip_ws_def skip_word_def suffix_dropWhile)

lemma token_suffix: "suffix (snd (token s)) s"
  using skip_suffix(2) [of s] by (auto simp: token_def suffix_Cons suffix_tl split: list.split)

lemma gettoken_suffix: "suffix (ps (gettoken s)) s" "suffix (teq (gettoken s)) s" "suffix (tq (gettoken s)) s"
proof -
  show "suffix (tq (gettoken s)) s" unfolding gettoken_sel by (rule skip_suffix)
  show e: "suffix (teq (gettoken s)) s" unfolding gettoken_sel by (rule suffix_order.order_trans [OF token_suffix skip_suffix(1)])
  show "suffix (ps (gettoken s)) s" using suffix_order.order_trans [OF skip_suffix(1) e] unfolding gettoken_sel .
qed

lemma gettoken_word:
  assumes "ret (gettoken s) = 97" "suffix s line"
  shows "word_ok line (tq (gettoken s), teq (gettoken s))"
proof -
  let ?q = "skip_ws s"
  obtain c r where q: "?q = c # r" "c \<notin> {124, 40, 41, 59, 38, 60}" "c \<noteq> 62"
    using assms(1) unfolding gettoken_sel by (auto simp: token_def split: list.splits if_splits)
  then have c: "ordinary c" using skip_ws_hd [of s] by (auto simp: ordinary_def symbols_def)
  have e: "teq (gettoken s) = skip_word ?q" using q unfolding gettoken_sel by (simp add: token_def)
  let ?u = "takeWhile (\<lambda>c. c \<notin> set whitespace \<and> c \<notin> set symbols) ?q"
  have "?q = ?u @ skip_word ?q" by (simp add: skip_word_def)
  moreover have "?u \<noteq> []" "\<forall>c\<in>set ?u. ordinary c" using c q(1) by (auto simp: ordinary_def dest: set_takeWhileD)
  moreover have "skip_word ?q = [] \<or> \<not> ordinary (hd (skip_word ?q))"
    unfolding skip_word_def ordinary_def using hd_dropWhile [of "\<lambda>c. c \<notin> set whitespace \<and> c \<notin> set symbols" ?q] by blast
  moreover have "suffix ?q line" using skip_suffix(1) assms(2) suffix_order.order_trans by blast
  ultimately show ?thesis unfolding word_ok_def e gettoken_sel(2) fst_conv snd_conv by blast
qed

definition redirs_ok :: "ptr \<Rightarrow> redir list \<Rightarrow> bool" where
  "redirs_ok line rs \<longleftrightarrow> (\<forall>(w, m)\<in>set rs. word_ok line w \<and> (m = (0, 0) \<or> m = (0x201, 1)))"

lemma parseredirs_ok:
  "parseredirs rs s = Inr (rs', r) \<Longrightarrow> suffix s line \<Longrightarrow> redirs_ok line rs \<Longrightarrow> suffix r s \<and> redirs_ok line rs'"
proof (induction rs s rule: parseredirs.induct)
  case (1 rs s)
  let ?t = "gettoken s"
  let ?f = "gettoken (ps ?t)"
  have sf: "suffix (ps ?t) s" "suffix (ps ?f) s" "suffix (ps ?t) line" "suffix (ps ?f) line"
    using gettoken_suffix(1) "1.prems"(2) suffix_order.order_trans by blast+
  show ?case
  proof (cases "fst (peek s [60, 62])")
    case True
    then have f: "ret ?f = 97" "parseredirs (rs @ [redir_of (ret ?t) (tq ?f) (teq ?f)]) (ps ?f) = Inr (rs', r)"
      using "1.prems"(1) by (auto simp: parseredirs.simps [of rs s] Let_def split: if_splits)
    have "redirs_ok line (rs @ [redir_of (ret ?t) (tq ?f) (teq ?f)])"
      using "1.prems"(3) gettoken_word [OF f(1) sf(3)] by (auto simp: redirs_ok_def redir_of_def)
    then have "suffix r (ps ?f) \<and> redirs_ok line rs'" using "1.IH" [OF _ refl refl] True f sf(4) by simp
    then show ?thesis using sf(2) suffix_order.order_trans by blast
  next
    case False
    then show ?thesis using "1.prems" skip_suffix(1) [of s] by (simp add: parseredirs.simps [of rs s])
  qed
qed

lemma exec_args_ok:
  "exec_args argv rs s = Inr (argv', rs', r) \<Longrightarrow> suffix s line \<Longrightarrow> redirs_ok line rs \<Longrightarrow> (\<forall>w\<in>set argv. word_ok line w) \<Longrightarrow> length argv < MAXARGS \<Longrightarrow>
     suffix r s \<and> redirs_ok line rs' \<and> (\<forall>w\<in>set argv'. word_ok line w) \<and> length argv' < MAXARGS"
proof (induction argv rs s rule: exec_args.induct)
  case (1 argv rs s)
  let ?t = "gettoken s"
  have sf: "suffix (ps ?t) s" "suffix (ps ?t) line" using gettoken_suffix(1) "1.prems"(2) suffix_order.order_trans by blast+
  consider "r = skip_ws s" "argv' = argv" "rs' = rs" | "r = ps ?t" "argv' = argv" "rs' = rs" |
    rs1 s1 where "parseredirs rs (ps ?t) = Inr (rs1, s1)" "exec_args (argv @ [(tq ?t, teq ?t)]) rs1 s1 = Inr (argv', rs', r)"
      "\<not> fst (peek s [124, 41, 38, 59])" "ret ?t = 97" "\<not> Suc (length argv) \<ge> MAXARGS"
    using "1.prems"(1) by (auto simp: exec_args.simps [of argv rs s] Let_def split: if_splits)
  then show ?case
  proof cases
    case 3
    have p: "suffix s1 (ps ?t)" "redirs_ok line rs1" using parseredirs_ok [OF 3(1) sf(2) "1.prems"(3)] by auto
    then have s1: "suffix s1 s" "suffix s1 line" using sf suffix_order.order_trans by blast+
    have w: "\<forall>w\<in>set (argv @ [(tq ?t, teq ?t)]). word_ok line w" using "1.prems"(4) gettoken_word [OF 3(4) "1.prems"(2)] by simp
    have "suffix r (snd (rs1, s1)) \<and> redirs_ok line rs' \<and> (\<forall>w\<in>set argv'. word_ok line w) \<and> length argv' < MAXARGS"
      by (rule "1.IH" [OF 3(3) refl, of "(rs1, s1)"]) (use 3 p(2) s1(2) w in simp_all)
    then show ?thesis using suffix_order.order_trans [OF _ s1(1), of r] by simp
  qed (use "1.prems" sf skip_suffix in auto)
qed

lemma redircmds_ok:
  "cmd_ok c \<Longrightarrow> (\<forall>w\<in>set (words c). word_ok line w) \<Longrightarrow> redirs_ok line rs \<Longrightarrow>
    cmd_ok (redircmds c rs) \<and> (\<forall>w\<in>set (words (redircmds c rs)). word_ok line w)"
proof (induction rs arbitrary: c)
  case (Cons x rs)
  obtain w m fd where x: "x = (w, m, fd)" by (cases x)
  have "redircmds c (x # rs) = redircmds (REDIR c w m fd) rs" by (simp add: redircmds_def x)
  then show ?case using Cons.IH [of "REDIR c w m fd"] Cons.prems x by (auto simp: redirs_ok_def)
qed (simp add: redircmds_def)

definition result_ok :: "ptr \<Rightarrow> ptr \<Rightarrow> pcmd \<times> ptr \<Rightarrow> bool" where
  "result_ok line s r \<longleftrightarrow> suffix (snd r) s \<and> cmd_ok (fst r) \<and> (\<forall>w\<in>set (words (fst r)). word_ok line w)"

lemma result_ok_from: "result_ok line s' r \<Longrightarrow> suffix s' s \<Longrightarrow> result_ok line s r"
  unfolding result_ok_def using suffix_order.order_trans by blast

lemma back_loop_ok: "result_ok line s (c, s') \<Longrightarrow> result_ok line s (back_loop c s')"
proof (induction c s' rule: back_loop.induct)
  case (1 c s')
  have "result_ok line s (BACK c, ps (gettoken s'))" "result_ok line s (c, skip_ws s')"
    using "1.prems" gettoken_suffix(1) [of s'] skip_suffix(1) [of s'] suffix_order.order_trans unfolding result_ok_def by auto
  then show ?case using "1.IH" by (subst back_loop.simps) simp
qed

lemma parse_ok:
  shows "parseline s = Inr r \<Longrightarrow> suffix s line \<Longrightarrow> result_ok line s r"
    and "parsepipe s = Inr r \<Longrightarrow> suffix s line \<Longrightarrow> result_ok line s r"
    and "parseexec s = Inr r \<Longrightarrow> suffix s line \<Longrightarrow> result_ok line s r"
    and "parseblock s = Inr r \<Longrightarrow> suffix s line \<Longrightarrow> result_ok line s r"
proof (induction s and s and s and s arbitrary: r and r and r and r rule: parseline_parsepipe_parseexec_parseblock.induct)
  case (1 s)
  obtain p where p: "parsepipe s = Inr p" using 1(3) by (auto simp: parseline.simps [of s])
  let ?b = "back_loop (fst p) (snd p)"
  have b: "result_ok line s ?b" using 1(1) [OF p 1(4)] back_loop_ok [of line s "fst p" "snd p"] by simp
  have g: "suffix (ps (gettoken (snd ?b))) s" using gettoken_suffix(1) b suffix_order.order_trans unfolding result_ok_def by blast
  show ?case
  proof (cases "fst (peek (snd ?b) [59])")
    case True
    then obtain l where l: "parseline (ps (gettoken (snd ?b))) = Inr l" "r = (LIST (fst ?b) (fst l), snd l)"
      using 1(3) p by (auto simp: parseline.simps [of s] Let_def)
    have "result_ok line (ps (gettoken (snd ?b))) l" using 1(2) [OF p refl True, of l] l(1) g 1(4) suffix_order.order_trans by auto
    then show ?thesis using result_ok_from [OF _ g] b l(2) by (auto simp: result_ok_def)
  next
    case False
    then have "r = (fst ?b, skip_ws (snd ?b))" using 1(3) p by (auto simp: parseline.simps [of s] Let_def)
    then show ?thesis using b skip_suffix(1) suffix_order.order_trans unfolding result_ok_def by fastforce
  qed
next
  case (2 s)
  obtain p where p: "parseexec s = Inr p" using 2(3) by (auto simp: parsepipe.simps [of s])
  have b: "result_ok line s p" using 2(1) [OF p 2(4)] .
  have g: "suffix (ps (gettoken (snd p))) s" using gettoken_suffix(1) b suffix_order.order_trans unfolding result_ok_def by blast
  show ?case
  proof (cases "fst (peek (snd p) [124])")
    case True
    then obtain l where l: "parsepipe (ps (gettoken (snd p))) = Inr l" "r = (PIPE (fst p) (fst l), snd l)"
      using 2(3) p by (auto simp: parsepipe.simps [of s])
    have "result_ok line (ps (gettoken (snd p))) l" using 2(2) [OF p True, of l] l(1) g 2(4) suffix_order.order_trans by auto
    then show ?thesis using result_ok_from [OF _ g] b l(2) by (auto simp: result_ok_def)
  next
    case False
    then have "r = (fst p, skip_ws (snd p))" using 2(3) p by (auto simp: parsepipe.simps [of s])
    then show ?thesis using b skip_suffix(1) suffix_order.order_trans unfolding result_ok_def by fastforce
  qed
next
  case (3 s)
  have sk: "suffix (skip_ws s) line" using skip_suffix(1) 3(3) suffix_order.order_trans by blast
  show ?case
  proof (cases "fst (peek s [40])")
    case True
    then have "result_ok line (skip_ws s) r" using 3(1) [OF True] 3(2) sk by (simp add: parseexec.simps [of s])
    then show ?thesis using result_ok_from skip_suffix(1) by blast
  next
    case False
    then obtain rs s1 argv rs' where p: "parseredirs [] (skip_ws s) = Inr (rs, s1)" "exec_args [] rs s1 = Inr (argv, rs', snd r)" "fst r = redircmds (EXEC argv) rs'"
      using 3(2) by (auto simp: parseexec.simps [of s])
    have a: "suffix s1 (skip_ws s)" "redirs_ok line rs" using parseredirs_ok [OF p(1) sk] by (auto simp: redirs_ok_def)
    have e: "suffix (snd r) s1" "redirs_ok line rs'" "\<forall>w\<in>set argv. word_ok line w" "length argv < MAXARGS"
      using exec_args_ok [OF p(2) _ a(2)] suffix_order.order_trans [OF a(1) sk] by auto
    then have "suffix (snd r) s" using a(1) skip_suffix(1) suffix_order.order_trans by blast
    then show ?thesis using redircmds_ok [of "EXEC argv" line rs'] e p(3) by (simp add: result_ok_def)
  qed
next
  case (4 s)
  have o: "fst (peek s [40])" using 4(2) by (auto simp: parseblock.simps [of s] split: if_splits)
  obtain p where p: "parseline (ps (gettoken s)) = Inr p" using 4(2) o by (auto simp: parseblock.simps [of s])
  then obtain l where l: "parseredirs [] (ps (gettoken (snd p))) = Inr l" "r = (redircmds (fst p) (fst l), snd l)"
    using 4(2) o by (auto simp: parseblock.simps [of s] split: if_splits)
  have g: "suffix (ps (gettoken s)) line" using gettoken_suffix(1) 4(3) suffix_order.order_trans by blast
  have b: "result_ok line (ps (gettoken s)) p" using 4(1) [of p] o p g by simp
  then have g2: "suffix (ps (gettoken (snd p))) (ps (gettoken s))" using gettoken_suffix(1) suffix_order.order_trans unfolding result_ok_def by blast
  have "suffix (snd l) (ps (gettoken (snd p))) \<and> redirs_ok line (fst l)"
    using parseredirs_ok [of "[]" _ "fst l" "snd l" line] l(1) suffix_order.order_trans [OF g2 g] by (simp add: redirs_ok_def)
  moreover from this have "suffix (snd l) s" using g2 gettoken_suffix(1) suffix_order.order_trans by blast
  ultimately show ?case using redircmds_ok [of "fst p" line "fst l"] b l(2) by (simp add: result_ok_def)
qed

text \<open>What the zeros do to the buffer.\<close>

lemma nulterminate_words: "nulterminate c buf = fold (\<lambda>w. put_nul (snd w)) (words c) buf"
  by (induction c arbitrary: buf) auto

lemma put_nuls:
  "length (fold (\<lambda>w. put_nul (snd w)) ws buf) = length buf \<and>
   (\<forall>i<length buf. fold (\<lambda>w. put_nul (snd w)) ws buf ! i = (if \<exists>w\<in>set ws. i = length buf - Suc (length (snd w)) then 0 else buf ! i))"
proof (induction ws arbitrary: buf)
  case (Cons w ws)
  then show ?case by (auto simp: put_nul_def nth_list_update)
qed simp

lemma cstring_word:
  assumes w: "word_ok line w" and ws: "\<forall>w\<in>set ws. word_ok line w" "w \<in> set ws" and nz: "0 \<notin> set line"
  shows "cstring (fold (\<lambda>w. put_nul (snd w)) ws (line @ [0])) (fst w) = text_of w"
proof -
  let ?buf = "fold (\<lambda>w. put_nul (snd w)) ws (line @ [0])"
  obtain pre u where l: "line = pre @ u @ snd w" "fst w = u @ snd w" "u \<noteq> []" "\<forall>c\<in>set u. ordinary c"
    using w by (auto simp: word_ok_def suffix_def)
  have len: "length ?buf = Suc (length line)" using put_nuls [of ws "line @ [0]"] by simp
  have nth: "?buf ! i = (if \<exists>w\<in>set ws. i = length line - length (snd w) then 0 else (line @ [0]) ! i)" if "i < Suc (length line)" for i
    using put_nuls [of ws "line @ [0]"] that by simp
  have keep: "?buf ! (length pre + i) = u ! i" if i: "i < length u" for i
  proof -
    have "length pre + i \<noteq> length line - length (snd v)" if v: "v \<in> set ws" for v
    proof
      assume e: "length pre + i = length line - length (snd v)"
      obtain p' u' where v': "line = p' @ u' @ snd v" "snd v = [] \<or> \<not> ordinary (hd (snd v))" using ws(1) v by (auto simp: word_ok_def suffix_def)
      have p: "length (p' @ u') = length pre + i" using e v'(1) by simp
      have "snd v \<noteq> []" using e i l(1) by auto
      then have "hd (snd v) = line ! (length pre + i)" using v'(1) p by (metis append_assoc hd_conv_nth nth_append_length list.collapse)
      moreover have "line ! (length pre + i) = u ! i" using l(1) i by (simp add: nth_append)
      ultimately show False using v'(2) \<open>snd v \<noteq> []\<close> l(4) i by simp
    qed
    then show ?thesis using nth [of "length pre + i"] l(1) i by (auto simp: nth_append)
  qed
  have stop: "?buf ! (length pre + length u) = 0" using nth [of "length pre + length u"] ws(2) l(1) by auto
  have d: "length ?buf - Suc (length (fst w)) = length pre" using len l(1,2) by simp
  have "takeWhile (\<lambda>c. c \<noteq> 0) (drop (length pre) ?buf) = take (length u) (drop (length pre) ?buf)"
  proof (rule takeWhile_eq_take_P_nth)
    show "drop (length pre) ?buf ! i \<noteq> 0" if "i < length u" "i < length (drop (length pre) ?buf)" for i
    proof -
      have "u ! i \<in> set line" using l(1) that(1) by simp
      moreover have "drop (length pre) ?buf ! i = u ! i" using keep [OF that(1)] len l(1) by simp
      ultimately show ?thesis using nz by metis
    qed
    show "length u < length (drop (length pre) ?buf) \<Longrightarrow> \<not> drop (length pre) ?buf ! length u \<noteq> 0" using stop len l(1) by simp
  qed
  also have "\<dots> = u" using keep len l(1) by (intro nth_equalityI) simp_all
  finally show ?thesis unfolding cstring_def d using l(2) by (simp add: text_of_def)
qed

text \<open>
  C33. Whatever line the parser accepts, the command it builds is one that \<^verbatim>\<open>runcmd\<close> can run: fewer than 10 arguments, so that the
  vector ends with a null pointer, descriptors with their modes, and after \<^verbatim>\<open>nulterminate\<close> every pointer to a word is a C string
  that is exactly that word of the line, not empty and without whitespace or symbols.
\<close>

theorem parsecmd_words:
  assumes "0 \<notin> set line" "parsecmd line = Inr (c, buf)"
  shows "cmd_ok c \<and> (\<forall>w\<in>set (words c). cstring buf (fst w) = text_of w \<and>
    text_of w \<noteq> [] \<and> (\<forall>x\<in>set (text_of w). x \<notin> set whitespace \<and> x \<notin> set symbols) \<and> sublist (text_of w) line)"
proof -
  obtain r where r: "parseline line = Inr r" "c = fst r" "buf = nulterminate c (line @ [0])" using assms(2) by (auto simp: parsecmd_def split: if_splits)
  then have ok: "cmd_ok c" "\<forall>w\<in>set (words c). word_ok line w" using parse_ok(1) [of line r line] by (auto simp: result_ok_def)
  have "text_of w \<noteq> [] \<and> (\<forall>x\<in>set (text_of w). x \<notin> set whitespace \<and> x \<notin> set symbols) \<and> sublist (text_of w) line" if w: "word_ok line w" for w
  proof -
    obtain pre u where u: "line = pre @ u @ snd w" "fst w = u @ snd w" "u \<noteq> []" "\<forall>c\<in>set u. ordinary c" using w by (auto simp: word_ok_def suffix_def)
    then have "text_of w = u" by (simp add: text_of_def)
    then show ?thesis using u sublist_appendI [of u pre "snd w"] by (simp add: ordinary_def)
  qed
  then show ?thesis using ok cstring_word [OF _ ok(2) _ assms(1)] unfolding r(3) nulterminate_words by blast
qed

text \<open>The line \<^verbatim>\<open>a<b\<close>.\<close>

theorem parsecmd_words_witness:
  "\<exists>c buf. parsecmd [97, 60, 98] = Inr (c, buf) \<and> words c = [([97, 60, 98], [60, 98]), ([98], [])] \<and>
     cstring buf [97, 60, 98] = [97] \<and> cstring buf [98] = [98]"
proof -
  let ?c = "REDIR (EXEC [([97, 60, 98], [60, 98])]) ([98], []) 0 0"
  have p: "parsecmd [97, 60, 98] = Inr (?c, [97, 0, 98, 0])" by code_simp
  show ?thesis using parsecmd_words [OF _ p] p by (intro exI [of _ ?c] exI [of _ "[97, 0, 98, 0]"]) (simp add: text_of_def)
qed

subsection \<open>Printing commands\<close>

text \<open>
  A command written out, with parentheses where the grammar needs them: a list inside anything, a background command inside a
  pipe, any of them with a redirection. Every token is followed by a space.
\<close>

datatype level = InLine | InBack | InPipe | InExec

definition paren :: "bool \<Rightarrow> byte list \<Rightarrow> byte list" where
  "paren b s = (if b then 40 # 32 # s @ [41, 32] else s)"

definition pr_word :: "byte list \<Rightarrow> byte list" where
  "pr_word w = w @ [32]"

definition pr_redir :: "byte list \<times> nat \<times> nat \<Rightarrow> byte list" where
  "pr_redir r = (if snd (snd r) = 0 then 60 else 62) # 32 # pr_word (fst r)"

primrec pr :: "byte list cmd \<Rightarrow> level \<Rightarrow> byte list" where
  "pr (EXEC ws) l = concat (map pr_word ws)"
| "pr (REDIR c w mode fd) l = pr c InExec @ pr_redir (w, mode, fd)"
| "pr (PIPE a b) l = paren (l = InExec) (pr a InExec @ 124 # 32 # pr b InPipe)"
| "pr (LIST a b) l = paren (l \<noteq> InLine) (pr a InBack @ 59 # 32 # pr b InLine)"
| "pr (BACK c) l = paren (l = InExec \<or> l = InPipe) (pr c InBack @ [38, 32])"

definition plain_word :: "byte list \<Rightarrow> bool" where
  "plain_word w \<longleftrightarrow> w \<noteq> [] \<and> (\<forall>c\<in>set w. ordinary c)"

definition plain_redirs :: "(byte list \<times> nat \<times> nat) list \<Rightarrow> bool" where
  "plain_redirs rs \<longleftrightarrow> (\<forall>r\<in>set rs. plain_word (fst r) \<and> (snd r = (0, 0) \<or> snd r = (0x201, 1)))"

definition add_redirs :: "'w cmd \<Rightarrow> ('w \<times> nat \<times> nat) list \<Rightarrow> 'w cmd" where
  "add_redirs c rs = foldl (\<lambda>c (w, mode, fd). REDIR c w mode fd) c rs"

lemma redircmds_add: "redircmds = add_redirs"
  by (simp add: fun_eq_iff redircmds_def add_redirs_def)

lemma add_redirs_simps [simp]: "add_redirs c [] = c" "add_redirs c ((w, m, fd) # rs) = add_redirs (REDIR c w m fd) rs"
  by (simp_all add: add_redirs_def)

lemma map_add_redirs: "map_cmd f (add_redirs c rs) = add_redirs (map_cmd f c) (map (map_prod f (\<lambda>m. m)) rs)"
  by (induction rs arbitrary: c) (auto simp: add_redirs_def)

text \<open>Tokens that are followed by a space.\<close>

lemma skip_ws_simps [simp]: "skip_ws (32 # s) = skip_ws s" "s = [] \<or> hd s \<notin> set whitespace \<Longrightarrow> skip_ws s = s"
  by (cases s; simp add: skip_ws_def whitespace_def)+

lemma ordinary_32 [simp]: "\<not> ordinary 32"
  by (simp add: ordinary_def whitespace_def)

lemma skip_word_plain: "plain_word w \<Longrightarrow> skip_word (w @ 32 # r) = 32 # r"
  unfolding plain_word_def skip_word_def
  by (induction w) (auto simp: ordinary_def whitespace_def)

lemma plain_hd:
  assumes "plain_word w"
  shows "hd w \<notin> set whitespace" "hd w \<notin> set symbols" "w \<noteq> []"
  using assms hd_in_set [of w] by (auto simp: plain_word_def ordinary_def)

lemma gettoken_plain:
  assumes "plain_word w"
  shows "gettoken (pr_word w @ r) = \<lparr>ret = 97, tq = w @ 32 # r, teq = 32 # r, ps = skip_ws r\<rparr>"
proof -
  note h = plain_hd [OF assms]
  have q: "skip_ws (w @ 32 # r) = w @ 32 # r" using h by simp
  obtain c w' where c: "w = c # w'" using h(3) by (cases w) auto
  then have "token (w @ 32 # r) = (97, skip_word (w @ 32 # r))" using h(2) by (auto simp: token_def symbols_def)
  then show ?thesis using q skip_word_plain [OF assms] by (simp add: gettoken_def pr_word_def)
qed

lemma gettoken_symbol:
  "c \<in> {124, 40, 41, 59, 38, 60, 62} \<Longrightarrow> gettoken (c # 32 # r) = \<lparr>ret = c, tq = c # 32 # r, teq = 32 # r, ps = skip_ws r\<rparr>"
proof -
  assume c: "c \<in> {124, 40, 41, 59, 38, 60, 62}"
  then have "skip_ws (c # 32 # r) = c # 32 # r" by (intro skip_ws_simps(2)) (auto simp: whitespace_def)
  then show ?thesis using c by (auto simp: gettoken_def token_def)
qed

text \<open>What may follow; in particular no whitespace.\<close>

definition follow :: "byte list \<Rightarrow> byte list \<Rightarrow> bool" where
  "follow cs s \<longleftrightarrow> s = [] \<or> hd s \<in> set cs"

lemma follow_skip: "follow cs s \<Longrightarrow> set cs \<inter> set whitespace = {} \<Longrightarrow> skip_ws s = s"
  by (rule skip_ws_simps(2)) (auto simp: follow_def)

lemma text_of_plain: "text_of (w @ r, r) = w"
  by (simp add: text_of_def)

lemma parseredirs_none: "s = [] \<or> hd s \<notin> set whitespace \<union> {60, 62} \<Longrightarrow> parseredirs rs s = Inr (rs, s)"
  by (subst parseredirs.simps) auto

lemma parseredirs_pr:
  assumes "plain_redirs rs" "s = [] \<or> hd s \<notin> set whitespace \<union> {60, 62}"
  shows "\<exists>rs'. parseredirs rs0 (concat (map pr_redir rs) @ s) = Inr (rs0 @ rs', s) \<and> map (map_prod text_of (\<lambda>m. m)) rs' = rs"
  using assms(1)
proof (induction rs arbitrary: rs0)
  case Nil
  then show ?case using parseredirs_none [OF assms(2)] by simp
next
  case (Cons r rs)
  obtain w m fd where r: "r = (w, m, fd)" by (cases r)
  have w: "plain_word w" "(m, fd) = (0, 0) \<or> (m, fd) = (0x201, 1)" using Cons.prems r by (auto simp: plain_redirs_def)
  let ?c = "if fd = 0 then 60 else 62 :: byte" and ?s = "concat (map pr_redir rs) @ s"
  let ?r = "redir_of ?c (w @ 32 # ?s) (32 # ?s)"
  have sk: "skip_ws ?s = ?s"
  proof (cases rs)
    case Nil
    then show ?thesis using assms(2) by auto
  next
    case (Cons r' rs')
    then show ?thesis by (intro skip_ws_simps(2)) (auto simp: pr_redir_def whitespace_def)
  qed
  have sw: "skip_ws (pr_word w @ ?s) = pr_word w @ ?s" using plain_hd [OF w(1)] by (intro skip_ws_simps(2)) (simp add: pr_word_def)
  have pk: "peek (?c # 32 # pr_word w @ ?s) [60, 62] = (True, ?c # 32 # pr_word w @ ?s)"
    by (auto simp: peek_def Let_def skip_ws_def whitespace_def)
  have "gettoken (?c # 32 # pr_word w @ ?s) = \<lparr>ret = ?c, tq = ?c # 32 # pr_word w @ ?s, teq = 32 # pr_word w @ ?s, ps = pr_word w @ ?s\<rparr>"
    using gettoken_symbol [of ?c "pr_word w @ ?s"] sw by simp
  then have "parseredirs rs0 (?c # 32 # pr_word w @ ?s) = parseredirs (rs0 @ [?r]) ?s"
    by (subst parseredirs.simps) (simp only: pk gettoken_plain [OF w(1)] sk Let_def fst_conv snd_conv gettoken_result.simps, simp)
  moreover have "map_prod text_of (\<lambda>m. m) ?r = r" using w(2) r text_of_plain [of w "32 # ?s"] by (auto simp: redir_of_def)
  moreover obtain rs' where "parseredirs (rs0 @ [?r]) ?s = Inr ((rs0 @ [?r]) @ rs', s)" "map (map_prod text_of (\<lambda>m. m)) rs' = rs"
    using Cons.IH [of "rs0 @ [?r]"] Cons.prems by (auto simp: plain_redirs_def)
  moreover have "concat (map pr_redir (r # rs)) @ s = ?c # 32 # pr_word w @ ?s" by (simp add: r pr_redir_def)
  ultimately show ?case by (intro exI [of _ "?r # rs'"] conjI) (simp_all only: append_assoc append_Cons append_Nil list.map)
qed

lemma exec_args_end: "follow [124, 41, 38, 59] s \<Longrightarrow> exec_args argv rs s = Inr (argv, rs, s)"
proof -
  assume f: "follow [124, 41, 38, 59] s"
  then have "skip_ws s = s" by (rule follow_skip) (simp add: whitespace_def)
  then show ?thesis using f by (subst exec_args.simps) (auto simp: follow_def gettoken_def token_def)
qed

lemma exec_args_pr:
  assumes "list_all plain_word ws" "ws \<noteq> []" "plain_redirs rs" "follow [124, 41, 38, 59] s" "length argv + length ws < MAXARGS"
  shows "\<exists>ts rs'. exec_args argv rs0 (concat (map pr_word ws) @ concat (map pr_redir rs) @ s) = Inr (argv @ ts, rs0 @ rs', s) \<and>
    map text_of ts = ws \<and> map (map_prod text_of (\<lambda>m. m)) rs' = rs"
  using assms
proof (induction ws arbitrary: argv rs0)
  case (Cons w ws)
  let ?r = "concat (map pr_word ws) @ concat (map pr_redir rs) @ s"
  have w: "plain_word w" using Cons.prems(1) by simp
  note h = plain_hd [OF w]
  have s: "s = [] \<or> hd s \<notin> set whitespace \<union> {60, 62}" using Cons.prems(4) by (auto simp: follow_def whitespace_def)
  have pk: "peek (pr_word w @ ?r) [124, 41, 38, 59] = (False, pr_word w @ ?r)"
    using h by (auto simp: peek_def Let_def pr_word_def symbols_def)
  let ?w = "(w @ 32 # ?r, 32 # ?r)"
  have step: "exec_args argv rs0 (pr_word w @ ?r) = sbind (parseredirs rs0 (skip_ws ?r)) (\<lambda>r. exec_args (argv @ [?w]) (fst r) (snd r))"
    using Cons.prems(5) by (subst exec_args.simps) (simp add: pk gettoken_plain [OF w])
  have tw: "text_of ?w = w" by (rule text_of_plain)
  show ?case
  proof (cases ws)
    case Nil
    have "skip_ws ?r = ?r"
    proof (rule skip_ws_simps(2))
      show "?r = [] \<or> hd ?r \<notin> set whitespace" using Nil s by (cases rs) (auto simp: pr_redir_def whitespace_def)
    qed
    moreover obtain rs' where "parseredirs rs0 (concat (map pr_redir rs) @ s) = Inr (rs0 @ rs', s)" "map (map_prod text_of (\<lambda>m. m)) rs' = rs"
      using parseredirs_pr [OF Cons.prems(3) s] by blast
    ultimately have "exec_args argv rs0 (pr_word w @ ?r) = Inr (argv @ [?w], rs0 @ rs', s)" "map (map_prod text_of (\<lambda>m. m)) rs' = rs"
      using step exec_args_end [OF Cons.prems(4)] Nil by simp_all
    then show ?thesis using Nil tw by (intro exI [of _ "[?w]"] exI [of _ rs']) simp
  next
    case (Cons v vs)
    have v: "plain_word v" using Cons.prems(1) Cons by simp
    have "?r = [] \<or> hd ?r \<notin> set whitespace \<union> {60, 62}" using plain_hd [OF v] Cons by (auto simp: pr_word_def symbols_def)
    then have "skip_ws ?r = ?r" "parseredirs rs0 ?r = Inr (rs0, ?r)" using parseredirs_none by auto
    then have e: "exec_args argv rs0 (pr_word w @ ?r) = exec_args (argv @ [?w]) rs0 ?r" using step by simp
    obtain ts rs' where "exec_args (argv @ [?w]) rs0 ?r = Inr ((argv @ [?w]) @ ts, rs0 @ rs', s)" "map text_of ts = ws" "map (map_prod text_of (\<lambda>m. m)) rs' = rs"
      using Cons.IH [of "argv @ [?w]" rs0] Cons.prems Cons by auto
    then show ?thesis using e tw by (intro exI [of _ "?w # ts"] exI [of _ rs']) simp
  qed
qed simp

subsection \<open>Reading back what was printed\<close>

abbreviation (input) closing :: "byte list" where "closing \<equiv> [124, 41, 38, 59]"

definition reads_exec :: "byte list cmd \<Rightarrow> bool" where
  "reads_exec c \<longleftrightarrow> (\<forall>rs s. plain_redirs rs \<longrightarrow> follow closing s \<longrightarrow>
     (\<exists>t. parseexec (pr c InExec @ concat (map pr_redir rs) @ s) = Inr (t, s) \<and> map_cmd text_of t = add_redirs c rs))"

definition reads_pipe :: "byte list cmd \<Rightarrow> bool" where
  "reads_pipe c \<longleftrightarrow> (\<forall>s. follow [41, 38, 59] s \<longrightarrow> (\<exists>t. parsepipe (pr c InPipe @ s) = Inr (t, s) \<and> map_cmd text_of t = c))"

definition reads_back :: "byte list cmd \<Rightarrow> bool" where
  "reads_back c \<longleftrightarrow> (\<forall>s. follow [41, 38, 59] s \<longrightarrow> (\<exists>r t. parsepipe (pr c InBack @ s) = Inr r \<and>
     back_loop (fst r) (snd r) = back_loop t s \<and> map_cmd text_of t = c))"

definition reads_line :: "byte list cmd \<Rightarrow> bool" where
  "reads_line c \<longleftrightarrow> (\<forall>s. follow [41] s \<longrightarrow> (\<exists>t. parseline (pr c InLine @ s) = Inr (t, s) \<and> map_cmd text_of t = c))"

lemma back_loop_end: "follow [41, 59] s \<Longrightarrow> back_loop c s = (c, s)"
proof -
  assume f: "follow [41, 59] s"
  then have "skip_ws s = s" by (rule follow_skip) (simp add: whitespace_def)
  then show ?thesis using f by (subst back_loop.simps) (auto simp: follow_def)
qed

lemma peek_follow:
  assumes "follow cs s" "set cs \<inter> set whitespace = {}"
  shows "peek s [c] = (s \<noteq> [] \<and> hd s = c, s)"
  using follow_skip [OF assms] by (auto simp: peek_def Let_def)

lemma exec_to_pipe:
  assumes e: "reads_exec c" and p: "pr c InPipe = pr c InExec"
  shows "reads_pipe c"
  unfolding reads_pipe_def
proof (intro allI impI)
  fix s assume f: "follow [41, 38, 59] s"
  then have f': "follow closing s" by (auto simp: follow_def)
  have "plain_redirs []" by (simp add: plain_redirs_def)
  then obtain t where t: "parseexec (pr c InExec @ s) = Inr (t, s)" "map_cmd text_of t = c"
    using e f' unfolding reads_exec_def by fastforce
  moreover have "peek s [124] = (False, s)" using peek_follow [OF f, of 124] f by (auto simp: whitespace_def follow_def)
  ultimately show "\<exists>t. parsepipe (pr c InPipe @ s) = Inr (t, s) \<and> map_cmd text_of t = c"
    by (subst parsepipe.simps) (simp add: p del: peek_sel)
qed

lemma pipe_to_back:
  assumes "reads_pipe c" "pr c InBack = pr c InPipe"
  shows "reads_back c"
  using assms unfolding reads_pipe_def reads_back_def by (metis fst_conv snd_conv)

lemma back_to_line:
  assumes b: "reads_back c" and p: "pr c InLine = pr c InBack"
  shows "reads_line c"
  unfolding reads_line_def
proof (intro allI impI)
  fix s assume f: "follow [41] s"
  then have f': "follow [41, 38, 59] s" "follow [41, 59] s" by (auto simp: follow_def)
  then obtain r t where t: "parsepipe (pr c InBack @ s) = Inr r" "back_loop (fst r) (snd r) = (t, s)" "map_cmd text_of t = c"
    using b back_loop_end [OF f'(2)] unfolding reads_back_def by metis
  moreover have "peek s [59] = (False, s)" using peek_follow [OF f, of 59] f by (auto simp: whitespace_def follow_def)
  ultimately show "\<exists>t. parseline (pr c InLine @ s) = Inr (t, s) \<and> map_cmd text_of t = c"
    by (subst parseline.simps) (simp add: p Let_def del: peek_sel)
qed

lemma no_redirs_after: "follow closing s \<Longrightarrow> s = [] \<or> hd s \<notin> set whitespace \<union> {60, 62}"
  by (auto simp: follow_def whitespace_def)

lemma line_start: "pr c l = [] \<or> hd (pr c l) \<notin> set whitespace" if "list_all plain_word (words c)"
  using that
proof (induction c arbitrary: l)
  case (EXEC ws)
  then show ?case using plain_hd [of "hd ws"] by (cases ws) (auto simp: pr_word_def)
next
  case (REDIR c w m fd)
  then show ?case using REDIR.IH [of InExec] by (auto simp: hd_append pr_redir_def whitespace_def)
next
  case (PIPE a b)
  then show ?case using PIPE.IH(1) [of InExec] by (auto simp: paren_def hd_append whitespace_def)
next
  case (LIST a b)
  then show ?case using LIST.IH(1) [of InBack] by (auto simp: paren_def hd_append whitespace_def)
next
  case (BACK c)
  then show ?case using BACK.IH [of InBack] by (auto simp: paren_def hd_append whitespace_def)
qed

lemma line_start_skip:
  assumes "list_all plain_word (words c)" "s = [] \<or> hd s \<notin> set whitespace"
  shows "skip_ws (pr c l @ s) = pr c l @ s"
  using line_start [OF assms(1), of l] assms(2) by (intro skip_ws_simps(2)) (auto simp: hd_append)

lemma line_to_exec:
  assumes l: "reads_line c" and p: "pr c InExec = 40 # 32 # pr c InLine @ [41, 32]" and w: "list_all plain_word (words c)"
  shows "reads_exec c"
  unfolding reads_exec_def
proof (intro allI impI)
  fix rs s assume rs: "plain_redirs rs" and f: "follow closing s"
  let ?s = "41 # 32 # concat (map pr_redir rs) @ s" and ?q = "40 # 32 # pr c InLine @ 41 # 32 # concat (map pr_redir rs) @ s"
  have sk: "skip_ws (pr c InLine @ ?s) = pr c InLine @ ?s" by (rule line_start_skip [OF w]) (simp add: whitespace_def)
  have sr: "skip_ws (concat (map pr_redir rs) @ s) = concat (map pr_redir rs) @ s"
    using no_redirs_after [OF f] by (intro skip_ws_simps(2)) (cases rs; auto simp: pr_redir_def whitespace_def)
  have "follow [41] ?s" by (simp add: follow_def)
  then obtain t where t: "parseline (pr c InLine @ ?s) = Inr (t, ?s)" "map_cmd text_of t = c" using l unfolding reads_line_def by blast
  obtain rs' where rs': "parseredirs [] (concat (map pr_redir rs) @ s) = Inr (rs', s)" "map (map_prod text_of (\<lambda>m. m)) rs' = rs"
    using parseredirs_pr [OF rs no_redirs_after [OF f], of "[]"] by auto
  have pk: "peek ?q [40] = (True, ?q)" "peek ?s [41] = (True, ?s)" by (auto simp: peek_def Let_def skip_ws_def whitespace_def)
  have "parseblock ?q = Inr (redircmds t rs', s)"
    using gettoken_symbol [of 40 "pr c InLine @ ?s"] gettoken_symbol [of 41 "concat (map pr_redir rs) @ s"] t(1) rs'(1)
    by (subst parseblock.simps) (simp add: pk sk sr del: peek_sel)
  then have "parseexec ?q = Inr (redircmds t rs', s)" by (subst parseexec.simps) (simp add: pk del: peek_sel)
  moreover have "map_cmd text_of (redircmds t rs') = add_redirs c rs" by (simp add: redircmds_add map_add_redirs t(2) rs'(2))
  ultimately show "\<exists>t. parseexec (pr c InExec @ concat (map pr_redir rs) @ s) = Inr (t, s) \<and> map_cmd text_of t = add_redirs c rs"
    by (simp add: p)
qed

lemma skip_symbol: "skip_ws (c # s) = c # s" if "c \<in> {124, 40, 41, 59, 38}"
  using that by (intro skip_ws_simps(2)) (auto simp: whitespace_def)

lemma exec_reads_exec:
  assumes "list_all plain_word ws" "length ws < MAXARGS"
  shows "reads_exec (EXEC ws)"
  unfolding reads_exec_def
proof (intro allI impI)
  fix rs s assume rs: "plain_redirs rs" and f: "follow closing s"
  let ?q = "concat (map pr_word ws) @ concat (map pr_redir rs) @ s"
  note n = no_redirs_after [OF f]
  have "\<exists>argv rs' rs1 s1. parseredirs [] ?q = Inr (rs1, s1) \<and> exec_args [] rs1 s1 = Inr (argv, rs', s) \<and> map text_of argv = ws \<and>
    map (map_prod text_of (\<lambda>m. m)) rs' = rs"
  proof (cases "ws = []")
    case True
    then show ?thesis using parseredirs_pr [OF rs n, of "[]"] exec_args_end [OF f] by fastforce
  next
    case False
    have "hd ?q \<notin> set whitespace \<union> {60, 62}" using plain_hd [of "hd ws"] assms(1) False by (cases ws) (auto simp: pr_word_def symbols_def)
    then have "parseredirs [] ?q = Inr ([], ?q)" by (intro parseredirs_none) simp
    then show ?thesis using exec_args_pr [OF assms(1) False rs f, of "[]" "[]"] assms(2) by auto
  qed
  moreover have "peek ?q [40] = (False, ?q)"
  proof -
    have "?q = [] \<or> hd ?q \<notin> set whitespace \<union> {40}" using plain_hd [of "hd ws"] assms(1) n f
      by (cases ws; cases rs) (auto simp: pr_word_def pr_redir_def symbols_def whitespace_def follow_def)
    then show ?thesis by (auto simp: peek_def Let_def)
  qed
  ultimately obtain argv rs' where "parseexec ?q = Inr (redircmds (EXEC argv) rs', s)" "map text_of argv = ws" "map (map_prod text_of (\<lambda>m. m)) rs' = rs"
    by (auto simp: parseexec.simps [of ?q] simp del: peek_sel)
  then show "\<exists>t. parseexec (pr (EXEC ws) InExec @ concat (map pr_redir rs) @ s) = Inr (t, s) \<and> map_cmd text_of t = add_redirs (EXEC ws) rs"
    by (intro exI [of _ "redircmds (EXEC argv) rs'"]) (simp add: redircmds_add map_add_redirs)
qed

lemma redir_reads_exec:
  assumes "reads_exec c" "plain_word w" "(m, fd) = (0, 0) \<or> (m, fd) = (0x201, 1)"
  shows "reads_exec (REDIR c w m fd)"
  unfolding reads_exec_def
proof (intro allI impI)
  fix rs s assume rs: "plain_redirs rs" and f: "follow closing s"
  have "plain_redirs ((w, m, fd) # rs)" using rs assms(2,3) by (auto simp: plain_redirs_def)
  then show "\<exists>t. parseexec (pr (REDIR c w m fd) InExec @ concat (map pr_redir rs) @ s) = Inr (t, s) \<and>
      map_cmd text_of t = add_redirs (REDIR c w m fd) rs"
    using assms(1) f unfolding reads_exec_def by fastforce
qed

lemma pipe_reads_pipe:
  assumes a: "reads_exec a" and b: "reads_pipe b" and w: "list_all plain_word (words b)"
  shows "reads_pipe (PIPE a b)"
  unfolding reads_pipe_def
proof (intro allI impI)
  fix s assume f: "follow [41, 38, 59] s"
  let ?r = "pr b InPipe @ s"
  have sk: "skip_ws ?r = ?r" using f by (intro line_start_skip [OF w]) (auto simp: follow_def whitespace_def)
  have "plain_redirs []" "follow closing (124 # 32 # ?r)" by (simp_all add: plain_redirs_def follow_def)
  then obtain t where t: "parseexec (pr a InExec @ 124 # 32 # ?r) = Inr (t, 124 # 32 # ?r)" "map_cmd text_of t = a"
    using a unfolding reads_exec_def by fastforce
  obtain u where u: "parsepipe ?r = Inr (u, s)" "map_cmd text_of u = b" using b f unfolding reads_pipe_def by blast
  have "peek (124 # 32 # ?r) [124] = (True, 124 # 32 # ?r)" by (simp add: peek_def skip_symbol)
  then have "parsepipe (pr a InExec @ 124 # 32 # ?r) = Inr (PIPE t u, s)"
    using gettoken_symbol [of 124 ?r] sk u(1) by (subst parsepipe.simps) (simp add: t(1) del: peek_sel)
  then show "\<exists>t. parsepipe (pr (PIPE a b) InPipe @ s) = Inr (t, s) \<and> map_cmd text_of t = PIPE a b"
    using t(2) u(2) by (intro exI [of _ "PIPE t u"]) (simp add: paren_def)
qed

lemma back_reads_back:
  assumes "reads_back c"
  shows "reads_back (BACK c)"
  unfolding reads_back_def
proof (intro allI impI)
  fix s assume f: "follow [41, 38, 59] s"
  have sk: "skip_ws s = s" by (rule follow_skip [OF f]) (simp add: whitespace_def)
  have "follow [41, 38, 59] (38 # 32 # s)" by (simp add: follow_def)
  then obtain r t where r: "parsepipe (pr c InBack @ 38 # 32 # s) = Inr r" "back_loop (fst r) (snd r) = back_loop t (38 # 32 # s)" "map_cmd text_of t = c"
    using assms unfolding reads_back_def by blast
  have "peek (38 # 32 # s) [38] = (True, 38 # 32 # s)" by (simp add: peek_def skip_symbol)
  then have "back_loop t (38 # 32 # s) = back_loop (BACK t) s"
    using gettoken_symbol [of 38 s] sk by (subst back_loop.simps) (simp del: peek_sel)
  then show "\<exists>r t. parsepipe (pr (BACK c) InBack @ s) = Inr r \<and> back_loop (fst r) (snd r) = back_loop t s \<and> map_cmd text_of t = BACK c"
    using r by (intro exI [of _ r] exI [of _ "BACK t"]) (simp add: paren_def)
qed

lemma list_reads_line:
  assumes a: "reads_back a" and b: "reads_line b" and w: "list_all plain_word (words b)"
  shows "reads_line (LIST a b)"
  unfolding reads_line_def
proof (intro allI impI)
  fix s assume f: "follow [41] s"
  let ?r = "pr b InLine @ s"
  have sk: "skip_ws ?r = ?r" using f by (intro line_start_skip [OF w]) (auto simp: follow_def whitespace_def)
  have fo: "follow [41, 38, 59] (59 # 32 # ?r)" "follow [41, 59] (59 # 32 # ?r)" by (simp_all add: follow_def)
  then obtain r t where r: "parsepipe (pr a InBack @ 59 # 32 # ?r) = Inr r" "back_loop (fst r) (snd r) = (t, 59 # 32 # ?r)" "map_cmd text_of t = a"
    using a back_loop_end [OF fo(2)] unfolding reads_back_def by metis
  obtain u where u: "parseline ?r = Inr (u, s)" "map_cmd text_of u = b" using b f unfolding reads_line_def by blast
  have "peek (59 # 32 # ?r) [59] = (True, 59 # 32 # ?r)" by (simp add: peek_def skip_symbol)
  then have "parseline (pr a InBack @ 59 # 32 # ?r) = Inr (LIST t u, s)"
    using gettoken_symbol [of 59 ?r] sk u(1) r(1,2) by (subst parseline.simps) (simp add: Let_def del: peek_sel)
  then show "\<exists>t. parseline (pr (LIST a b) InLine @ s) = Inr (t, s) \<and> map_cmd text_of t = LIST a b"
    using r(3) u(2) by (intro exI [of _ "LIST t u"]) (simp add: paren_def)
qed

lemma reads_all:
  assumes "cmd_ok c" "list_all plain_word (words c)"
  shows "reads_exec c \<and> reads_pipe c \<and> reads_back c \<and> reads_line c"
  using assms
proof (induction c)
  case (EXEC ws)
  then have "reads_exec (EXEC ws)" by (intro exec_reads_exec) auto
  then show ?case by (simp add: exec_to_pipe pipe_to_back back_to_line)
next
  case (REDIR c w m fd)
  then have "reads_exec (REDIR c w m fd)" by (intro redir_reads_exec) auto
  then show ?case by (simp add: exec_to_pipe pipe_to_back back_to_line)
next
  case (PIPE a b)
  then have p: "reads_pipe (PIPE a b)" by (intro pipe_reads_pipe) auto
  then have l: "reads_line (PIPE a b)" by (intro back_to_line pipe_to_back) (simp_all add: paren_def)
  then have "reads_exec (PIPE a b)" using PIPE.prems by (intro line_to_exec) (simp_all add: paren_def)
  then show ?case using p l by (simp add: pipe_to_back paren_def)
next
  case (LIST a b)
  then have l: "reads_line (LIST a b)" by (intro list_reads_line) auto
  then have "reads_exec (LIST a b)" using LIST.prems by (intro line_to_exec) (simp_all add: paren_def)
  then show ?case using l by (simp add: exec_to_pipe pipe_to_back paren_def)
next
  case (BACK c)
  then have b: "reads_back (BACK c)" by (intro back_reads_back) auto
  then have l: "reads_line (BACK c)" by (intro back_to_line) (simp_all add: paren_def)
  then have "reads_exec (BACK c)" using BACK.prems by (intro line_to_exec) (simp_all add: paren_def)
  then show ?case using b l by (simp add: exec_to_pipe paren_def)
qed

text \<open>
  C32. Written out with parentheses where the precedences need them, every command that has at most 9 arguments and plain words is read
  back by \<^verbatim>\<open>parsecmd\<close> as itself: the parser binds redirections tightest, then \<^verbatim>\<open>|\<close>, \<^verbatim>\<open>&\<close> and \<^verbatim>\<open>;\<close>, pipes and lists to the right.
\<close>

theorem parsecmd_pr:
  assumes "cmd_ok c" "list_all plain_word (words c)"
  shows "\<exists>t buf. parsecmd (pr c InLine) = Inr (t, buf) \<and> map_cmd text_of t = c"
proof -
  have "follow [41] []" by (simp add: follow_def)
  then obtain t where "parseline (pr c InLine) = Inr (t, [])" "map_cmd text_of t = c"
    using reads_all [OF assms] unfolding reads_line_def by fastforce
  then show ?thesis by (simp add: parsecmd_def skip_ws_def)
qed

text \<open>The command \<^verbatim>\<open>( ( a ; b & ) | c ) > d\<close>.\<close>

theorem parsecmd_pr_witness:
  "\<exists>t buf. parsecmd [40, 32, 40, 32, 97, 32, 59, 32, 98, 32, 38, 32, 41, 32, 124, 32, 99, 32, 41, 32, 62, 32, 100, 32] = Inr (t, buf) \<and>
     map_cmd text_of t = REDIR (PIPE (LIST (EXEC [[97]]) (BACK (EXEC [[98]]))) (EXEC [[99]])) [100] 0x201 1"
  using parsecmd_pr [of "REDIR (PIPE (LIST (EXEC [[97]]) (BACK (EXEC [[98]]))) (EXEC [[99]])) [100] 0x201 1"]
  by (simp add: paren_def pr_word_def pr_redir_def plain_word_def ordinary_def whitespace_def symbols_def)

end
