(* ===== verification/Spec2Isabelle.thy ===== *)
theory Spec2Isabelle
  imports Pagetable Kmutex Tmutex Fsview Ring Frames Grep Shell
begin

text \<open>
  This development models the kernel under \<^verbatim>\<open>src/Ass2\<close> (xv6 for the x86 with kernel threads and mutexes added), its
  tournament tree library and parts of its user programs, and proves what makes the components correct.

  \<^bold>\<open>The program.\<close> Processors share memory through spin locks (\<^verbatim>\<open>spinlock.c\<close>). Physical pages come from \<^verbatim>\<open>kalloc.c\<close> and are
  put into address spaces by \<^verbatim>\<open>vm.c\<close>. \<^verbatim>\<open>proc.c\<close> keeps a table of processes, each with 16 thread slots, schedules threads, and
  provides sleep and wakeup, fork, exit, wait, kill, the \<^verbatim>\<open>kthread_*\<close> calls and a table of 64 mutexes. The disk drivers
  (\<^verbatim>\<open>ide.c\<close>, \<^verbatim>\<open>memide.c\<close>) are used by the buffer cache (\<^verbatim>\<open>bio.c\<close>), that by the log (\<^verbatim>\<open>log.c\<close>), that by the file system
  (\<^verbatim>\<open>fs.c\<close>), and that by open files, pipes and the console (\<^verbatim>\<open>file.c\<close>, \<^verbatim>\<open>pipe.c\<close>, \<^verbatim>\<open>console.c\<close>). System calls enter through
  \<^verbatim>\<open>trap.c\<close> and \<^verbatim>\<open>syscall.c\<close> and are handled in \<^verbatim>\<open>sysproc.c\<close>, \<^verbatim>\<open>sysfile.c\<close> and \<^verbatim>\<open>exec.c\<close>.

  \<^bold>\<open>How the code is modelled.\<close> A struct is a record, a table is a function from its indices, a pointer into a table is an index.
  Unsigned integers and addresses are 32-bit words that wrap around; C's \<^verbatim>\<open>int\<close> is a word read with a sign where the width matters
  and an integer elsewhere. Kernel memory is a function from addresses to bytes. A routine takes the state and ends in \<open>Ret v s\<close>
  (it returned), \<open>Panic msg\<close>, \<open>Block c s\<close> (the thread sleeps on channel \<open>c\<close>) or \<open>Diverge\<close>; \<open>rbind\<close> is the semicolon. States grow by
  record extension, in the order of the layers: \<open>bio_st\<close>, \<open>log_st\<close>, \<open>fs_st\<close>, \<open>cons_st\<close>, \<open>file_st\<close>, \<open>trap_st\<close>; a routine works on any
  extension of the state it needs. Spin-locked sections are atomic, which \<open>spinlock_mutual_exclusion\<close> justifies.

  \<^bold>\<open>Theories, sources and results.\<close>
  \<^item> \<open>Prelude\<close>: outcomes, channels, table scans, the calculus \<open>keeps\<close> for what an operation leaves alone.
  \<^item> \<open>Cstring\<close> (\<^verbatim>\<open>string.c\<close>, the string routines of \<^verbatim>\<open>ulib.c\<close>): byte-wise loops over memory; \<open>memmove\<close> on overlapping regions,
    \<open>safestrcpy\<close> in its bounds.
  \<^item> \<open>Spinlock\<close> (\<^verbatim>\<open>spinlock.c\<close>): \<open>pushcli\<close>, \<open>popcli\<close>, and \<open>acquire\<close>/\<open>release\<close> split at the atomic exchange and store; \<open>lock_step\<close>
    interleaves any number of processors. Mutual exclusion with interrupts off, and matching of \<open>pushcli\<close> and \<open>popcli\<close>.
  \<^item> \<open>Kalloc\<close> (\<^verbatim>\<open>kalloc.c\<close>): the free list threaded through free pages; what is freed is handed out once.
  \<^item> \<open>Vm\<close>, \<open>Pagetable\<close> (\<^verbatim>\<open>vm.c\<close>): two-level page tables in memory; \<open>mappages\<close> refines an update of the translation map.
  \<^item> \<open>Proc\<close>, \<open>Ksched\<close>, \<open>Kmutex\<close> (\<^verbatim>\<open>proc.c\<close>): every routine as stretches between the points where a thread gives up the
    processor; \<open>kstep\<close> interleaves them on several processors. A thread runs on one processor at a time, zombie processes have no
    threads; mutual exclusion and no lost wakeup for mutexes, and the call that breaks it.
  \<^item> \<open>Tournament\<close>, \<open>Tmutex\<close> (\<^verbatim>\<open>tournament_tree.c\<close>): the tree as a client of the locales \<open>mutexes\<close> and \<open>mutex_pool\<close>, interpreted
    on the kernel's calls. Mutual exclusion, no deadlock, what dealloc leaks, and the failure at depth 0.
  \<^item> \<open>Bio\<close> (\<^verbatim>\<open>sleeplock.c\<close>, \<^verbatim>\<open>ide.c\<close>, \<^verbatim>\<open>memide.c\<close>, \<^verbatim>\<open>bio.c\<close>): the doubly linked cache over the drives. Its invariant, recency order,
    write and read back, and the agreement of the two drivers.
  \<^item> \<open>Log\<close> (\<^verbatim>\<open>log.c\<close>): commit is atomic under a crash at any disk write; transactions are durable; absorption.
  \<^item> \<open>Fs\<close>, \<open>Fsview\<close> (\<^verbatim>\<open>fs.c\<close>): all of the file system, and what it does to the blocks it sees: allocation, inodes, reading
    after writing, the table of inodes, taking paths apart.
  \<^item> \<open>Console\<close>, \<open>Kbd\<close>, \<open>File\<close>, \<open>Ring\<close> (\<^verbatim>\<open>console.c\<close>, \<^verbatim>\<open>uart.c\<close>, \<^verbatim>\<open>kbd.c\<close>, \<^verbatim>\<open>file.c\<close>, \<^verbatim>\<open>pipe.c\<close>): pipes and console input as interpretations
    of one locale \<open>ring\<close>; first in first out, line editing, printing.
  \<^item> \<open>Uaccess\<close>, \<open>Exec\<close>, \<open>Sysfile\<close>, \<open>Trap\<close>, \<open>Frames\<close> (\<^verbatim>\<open>syscall.c\<close>, \<^verbatim>\<open>exec.c\<close>, \<^verbatim>\<open>sysfile.c\<close>, \<^verbatim>\<open>sysproc.c\<close>, \<^verbatim>\<open>trap.c\<close>): arguments through
    the page table, all 29 system calls, the trap handler. Every call closes its transactions, a failing exec changes nothing, and no
    killed thread returns to user mode.

  \<^item> \<open>Shell\<close> (\<^verbatim>\<open>sh.c\<close>): the parser, from characters to command trees. It ends on every line; the words of a command are C strings of the
    line; trees written out are read back.
  \<^item> \<open>Grep\<close> (\<^verbatim>\<open>grep.c\<close>): the matcher decides the language of its pattern; on a file the matching lines are printed, with short reads
    text is lost (\<open>grep_loses_split_line\<close>).

  \<^bold>\<open>Bounds and termination.\<close> There is no fuel. Loops are structural or have a measure; loops that need not end in C (string scans
  without a terminator, the scan of a damaged buffer list) are partial functions whose value \<open>None\<close> means that they do not end, and
  where a property says that a routine returns, that is proved. Loops that sleep (\<open>sys_sleep\<close>, pipes, buffers) end in \<open>Block\<close> with
  the point of resumption in the state. Table sizes are those of \<^verbatim>\<open>param.h\<close>.

  \<^bold>\<open>Not modelled.\<close> Boot code and assembly (\<^verbatim>\<open>bootasm.S\<close>, \<^verbatim>\<open>bootmain.c\<close>, \<^verbatim>\<open>entry.S\<close>, \<^verbatim>\<open>entryother.S\<close>, \<^verbatim>\<open>swtch.S\<close>, \<^verbatim>\<open>trapasm.S\<close>,
  \<^verbatim>\<open>initcode.S\<close>, \<^verbatim>\<open>usys.S\<close>, \<^verbatim>\<open>main.c\<close>): sequences of processor instructions and initialisation calls. Interrupt controllers and
  processor discovery (\<^verbatim>\<open>lapic.c\<close>, \<^verbatim>\<open>ioapic.c\<close>, \<^verbatim>\<open>picirq.c\<close>, \<^verbatim>\<open>mp.c\<close>) and descriptor tables (\<open>seginit\<close>, \<open>tvinit\<close>, \<open>idtinit\<close>): writes to
  hardware registers. The test programs (\<^verbatim>\<open>usertests.c\<close>, \<^verbatim>\<open>sanity.c\<close>, \<^verbatim>\<open>test1.c\<close>, \<^verbatim>\<open>helper1.c\<close>, \<^verbatim>\<open>forktest.c\<close>, \<^verbatim>\<open>stressfs.c\<close>): scripts of
  system calls that check their results. User programs that only pass their arguments to system calls (\<^verbatim>\<open>cat.c\<close>, \<^verbatim>\<open>echo.c\<close>, \<^verbatim>\<open>init.c\<close>,
  \<^verbatim>\<open>kill.c\<close>, \<^verbatim>\<open>ln.c\<close>, \<^verbatim>\<open>ls.c\<close>, \<^verbatim>\<open>mkdir.c\<close>, \<^verbatim>\<open>rm.c\<close>, \<^verbatim>\<open>wc.c\<close>, \<^verbatim>\<open>zombie.c\<close>), and \<^verbatim>\<open>mkfs.c\<close>, which runs on the host. The compiler's and linker's work and the host tools in Perl.
\<close>

end
